(* ===== verification/Lounge_Prelude.thy ===== *)
theory Lounge_Prelude
  imports Main "HOL-Library.Multiset"
begin

text \<open>
  The prelude of the development: the outcome of a C++ call that may throw or run into
  undefined behaviour, the sorted vectors that stand for \<^verbatim>\<open>boost::container::flat_set\<close>,
  the unsigned and capacity-bounded operations of the language the sources rely on, and the
  list lemmas the component theories share.
\<close>

named_theorems lounge_inv \<open>preservation lemmas of the component invariants\<close>
named_theorems flat_set_simps \<open>membership and order of the sorted vectors\<close>

section \<open>Outcomes\<close>

text \<open>
  What can leave a C++ function besides a value: an \<^verbatim>\<open>rpc_error\<close> (code and message, thrown by
  \<^verbatim>\<open>rpc_call::fail\<close> and the \<^verbatim>\<open>checked_*\<close> functions), a \<^verbatim>\<open>system_error\<close> (thrown by the
  JSON library's checked conversions), a \<^verbatim>\<open>std::length_error\<close> (thrown by a full
  \<^verbatim>\<open>static_string\<close> or an absurd \<^verbatim>\<open>resize\<close>), a \<^verbatim>\<open>std::logic_error\<close>, a failed
  \<^verbatim>\<open>BOOST_VERIFY\<close>, or undefined behaviour, which the model makes an outcome of its own.
\<close>

datatype exn =
    Rpc_error int string
  | System_error
  | Length_error
  | Logic_error
  | Assert_failed
  | Undefined

type_synonym 'a outcome = "exn + 'a"

fun is_rpc_error :: "exn \<Rightarrow> bool" where
  "is_rpc_error (Rpc_error c m) = True"
| "is_rpc_error _ = False"

text \<open>The address of a \<^verbatim>\<open>user\<close> object.\<close>

type_synonym uptr = nat

section \<open>Integer operations of the language\<close>

text \<open>\<^verbatim>\<open>std::size_t\<close> subtraction wraps around at 64 bits.\<close>

definition size_sub :: "nat \<Rightarrow> nat \<Rightarrow> nat" where
  "size_sub a b = (if b \<le> a then a - b else 2 ^ 64 + a - b)"

lemma size_sub_le [simp]: "b \<le> a \<Longrightarrow> size_sub a b = a - b"
  by (simp add: size_sub_def)

text \<open>
  The values of a signed integer type of \<open>n\<close> bits; an operation whose result is not one of them is
  undefined.
\<close>

definition fits_int :: "nat \<Rightarrow> int \<Rightarrow> bool" where
  "fits_int n x \<longleftrightarrow> - (2 ^ (n - 1)) \<le> x \<and> x < 2 ^ (n - 1)"

lemma fits_int_signed: "fits_int (Suc n) (signed_take_bit n x)"
  by (simp add: fits_int_def signed_take_bit_int_greater_eq_minus_exp signed_take_bit_int_less_exp)

lemma fits_int_between: "fits_int n a \<Longrightarrow> fits_int n b \<Longrightarrow> a \<le> x \<Longrightarrow> x \<le> b \<Longrightarrow> fits_int n x"
  by (auto simp: fits_int_def)

section \<open>Bounded strings\<close>

text \<open>
  \<^verbatim>\<open>beast::static_string<N>::push_back\<close>: appends below the capacity \<^verbatim>\<open>N\<close> and throws
  \<^verbatim>\<open>std::length_error\<close> at it.
\<close>

definition push_back :: "nat \<Rightarrow> 'a list \<Rightarrow> 'a \<Rightarrow> 'a list outcome" where
  "push_back cap xs x = (if length xs < cap then Inr (xs @ [x]) else Inl Length_error)"

lemma push_back_Inr_iff:
  "push_back cap xs x = Inr ys \<longleftrightarrow> length xs < cap \<and> ys = xs @ [x]"
  by (auto simp: push_back_def)

section \<open>Sorted vectors as sets\<close>

text \<open>
  A \<^verbatim>\<open>flat_set\<close> of pointers is a vector sorted by address, without duplicates; \<^verbatim>\<open>insert\<close>
  reports whether the element is new and \<^verbatim>\<open>erase\<close> how many elements it removed.
\<close>

definition flat_set :: "nat list \<Rightarrow> bool" where
  "flat_set xs \<longleftrightarrow> sorted xs \<and> distinct xs"

definition flat_insert :: "nat \<Rightarrow> nat list \<Rightarrow> nat list \<times> bool" where
  "flat_insert x xs = (if x \<in> set xs then (xs, False) else (insort x xs, True))"

definition flat_erase :: "nat \<Rightarrow> nat list \<Rightarrow> nat list \<times> nat" where
  "flat_erase x xs = (if x \<in> set xs then (remove1 x xs, 1) else (xs, 0))"

lemma flat_set_Nil [simp]: "flat_set []"
  by (simp add: flat_set_def)

lemma flat_set_distinct: "flat_set xs \<Longrightarrow> distinct xs"
  by (simp add: flat_set_def)

lemma set_flat_insert [flat_set_simps]: "set (fst (flat_insert x xs)) = insert x (set xs)"
  by (auto simp: flat_insert_def set_insort_key)

lemma snd_flat_insert [flat_set_simps]: "snd (flat_insert x xs) \<longleftrightarrow> x \<notin> set xs"
  by (simp add: flat_insert_def)

lemma flat_set_insert [flat_set_simps]: "flat_set xs \<Longrightarrow> flat_set (fst (flat_insert x xs))"
  by (auto simp: flat_set_def flat_insert_def sorted_insort distinct_insort)

lemma set_flat_erase [flat_set_simps]:
  "flat_set xs \<Longrightarrow> set (fst (flat_erase x xs)) = set xs - {x}"
  by (auto simp: flat_erase_def flat_set_def set_remove1_eq)

lemma snd_flat_erase [flat_set_simps]: "snd (flat_erase x xs) = (if x \<in> set xs then 1 else 0)"
  by (simp add: flat_erase_def)

lemma flat_set_erase [flat_set_simps]: "flat_set xs \<Longrightarrow> flat_set (fst (flat_erase x xs))"
  by (auto simp: flat_set_def flat_erase_def sorted_remove1)

section \<open>Searching a vector from the front\<close>

text \<open>A range-for loop that stops at the first element with a property; its index is the
  pointer difference the sources compute.\<close>

fun first_idx :: "('a \<Rightarrow> bool) \<Rightarrow> 'a list \<Rightarrow> nat option" where
  "first_idx P [] = None"
| "first_idx P (x # xs) = (if P x then Some 0 else map_option Suc (first_idx P xs))"

lemma first_idx_None_iff: "first_idx P xs = None \<longleftrightarrow> (\<forall>x \<in> set xs. \<not> P x)"
  by (induction xs) auto

lemma first_idx_SomeD:
  "first_idx P xs = Some i \<Longrightarrow> i < length xs \<and> P (xs ! i) \<and> (\<forall>j < i. \<not> P (xs ! j))"
proof (induction xs arbitrary: i)
  case Nil
  then show ?case by simp
next
  case (Cons x xs)
  show ?case
  proof (cases "P x")
    case True
    with Cons.prems show ?thesis by auto
  next
    case False
    with Cons.prems obtain k where k: "first_idx P xs = Some k" "i = Suc k" by auto
    show ?thesis
    proof (intro conjI allI impI)
      fix j assume "j < i"
      then show "\<not> P ((x # xs) ! j)"
        using False k Cons.IH [OF k(1)] by (cases j) auto
    qed (use k Cons.IH [OF k(1)] in auto)
  qed
qed

lemma first_idx_ex: "x \<in> set xs \<Longrightarrow> P x \<Longrightarrow> \<exists>i. first_idx P xs = Some i"
  using first_idx_None_iff [of P xs] by (cases "first_idx P xs") auto

section \<open>Swapping two elements\<close>

definition swap_elems :: "nat \<Rightarrow> nat \<Rightarrow> 'a list \<Rightarrow> 'a list" where
  "swap_elems i j xs = xs[i := xs ! j, j := xs ! i]"

lemma length_swap_elems [simp]: "length (swap_elems i j xs) = length xs"
  by (simp add: swap_elems_def)

lemma mset_swap_elems [simp]:
  "i < length xs \<Longrightarrow> j < length xs \<Longrightarrow> mset (swap_elems i j xs) = mset xs"
  unfolding swap_elems_def by (rule mset_swap)

lemma set_swap_elems [simp]:
  "i < length xs \<Longrightarrow> j < length xs \<Longrightarrow> set (swap_elems i j xs) = set xs"
  by (rule mset_eq_setD) simp

section \<open>Updating one element\<close>

lemma list_all_update: "list_all P xs \<Longrightarrow> P x \<Longrightarrow> list_all P (xs[i := x])"
  by (auto simp: list_all_iff dest: subsetD [OF set_update_subset_insert])

lemma list_all_nthD: "list_all P xs \<Longrightarrow> i < length xs \<Longrightarrow> P (xs ! i)"
  by (simp add: list_all_length)

section \<open>Decimal printing\<close>

text \<open>\<^verbatim>\<open>std::to_string\<close> of an unsigned and of a signed integer.\<close>

fun nat_to_string :: "nat \<Rightarrow> string" where
  "nat_to_string n =
     (if n < 10 then [char_of (48 + n)] else nat_to_string (n div 10) @ [char_of (48 + n mod 10)])"

declare nat_to_string.simps [simp del]

definition int_to_string :: "int \<Rightarrow> string" where
  "int_to_string i =
     (if i < 0 then CHR ''-'' # nat_to_string (nat (- i)) else nat_to_string (nat i))"

text \<open>Reading the digits back gives the number printed.\<close>

definition digits_value :: "string \<Rightarrow> nat" where
  "digits_value s = foldl (\<lambda>n c. 10 * n + (of_char c - 48)) 0 s"

lemma digits_value_nat_to_string [simp]: "digits_value (nat_to_string n) = n"
proof (induction n rule: nat_to_string.induct)
  case (1 n)
  show ?case
  proof (cases "n < 10")
    case True
    then show ?thesis
      by (subst nat_to_string.simps) (simp add: digits_value_def take_bit_eq_mod)
  next
    case False
    moreover have "n mod 10 < 10" by simp
    ultimately show ?thesis using 1
      by (subst nat_to_string.simps)
        (simp add: digits_value_def take_bit_eq_mod mod_less [of "48 + n mod 10" 256] del: mod_less)
  qed
qed

lemma nat_to_string_inj: "nat_to_string m = nat_to_string n \<longleftrightarrow> m = n"
  by (metis digits_value_nat_to_string)

end
