(* ===== verification/Shoe.thy ===== *)
theory Shoe
  imports Lounge_Prelude
begin

text \<open>
  The shoe of the blackjack table (class \<^verbatim>\<open>shoe\<close> of \<^verbatim>\<open>server/core/blackjack.cpp\<close>): a vector of
  cards with a read position that is reshuffled when it is exhausted. A card is the \<^verbatim>\<open>char\<close> the
  code stores, 1 to 52 for the cards of a deck. The generator behind \<^verbatim>\<open>rand()\<close> is the sequence
  of the values its calls return; a step consumes a prefix of it and hands the rest on.
\<close>

type_synonym card = int
type_synonym rng = "nat \<Rightarrow> nat"

record shoe =
  shoe_cards :: "card list"
  shoe_pos :: nat

section \<open>The code\<close>

text \<open>The first loop of \<^verbatim>\<open>shuffle\<close>: \<^verbatim>\<open>cards_[i] = 1 + (i % 52)\<close>.\<close>

definition fill_cards :: "nat \<Rightarrow> card list" where
  "fill_cards n = map (\<lambda>i. 1 + int (i mod 52)) [0..<n]"

text \<open>
  The second loop of \<^verbatim>\<open>shuffle\<close>, from index \<open>i\<close>. The bound \<^verbatim>\<open>cards_.size() - 1\<close> is a
  \<^verbatim>\<open>size_t\<close> difference, which wraps for an empty shoe; the remainder by zero and an access out of
  range are undefined. The \<open>i\<close>-th iteration takes the \<open>i\<close>-th value of \<^verbatim>\<open>rand()\<close>.
\<close>

function swap_loop :: "nat \<Rightarrow> rng \<Rightarrow> card list \<Rightarrow> card list outcome" where
  "swap_loop i rnd xs =
     (if i < size_sub (length xs) 1 then
        (if length xs - i = 0 then Inl Undefined
         else let j = i + rnd i mod (length xs - i) in
           if j < length xs then swap_loop (Suc i) rnd (swap_elems i j xs) else Inl Undefined)
      else Inr xs)"
  by pat_completeness auto
termination
  by (relation "measure (\<lambda>(i, rnd, xs). length xs - i)") auto

declare swap_loop.simps [simp del]

definition shuffle :: "shoe \<Rightarrow> rng \<Rightarrow> (shoe \<times> rng) outcome" where
  "shuffle s rnd =
     (let n = length (shoe_cards s) in
      case swap_loop 0 rnd (fill_cards n) of
        Inl e \<Rightarrow> Inl e
      | Inr xs \<Rightarrow> Inr (s\<lparr>shoe_cards := xs, shoe_pos := 0\<rparr>, \<lambda>k. rnd (k + (n - 1))))"

text \<open>
  The constructor. \<^verbatim>\<open>decks * 52\<close> is an \<^verbatim>\<open>int\<close> product (its overflow is undefined) and a
  negative one makes \<^verbatim>\<open>resize\<close> throw.
\<close>

definition make_shoe :: "int \<Rightarrow> rng \<Rightarrow> (shoe \<times> rng) outcome" where
  "make_shoe decks rnd =
     (if decks * 52 < - (2 ^ 31) \<or> 2 ^ 31 \<le> decks * 52 then Inl Undefined
      else if decks < 0 then Inl Length_error
      else shuffle \<lparr>shoe_cards = replicate (nat (decks * 52)) 0, shoe_pos = 0\<rparr> rnd)"

definition shoe_deal :: "shoe \<Rightarrow> rng \<Rightarrow> (card \<times> shoe \<times> rng) outcome" where
  "shoe_deal s rnd =
     (case (if shoe_pos s = length (shoe_cards s) then shuffle s rnd else Inr (s, rnd)) of
        Inl e \<Rightarrow> Inl e
      | Inr (s', rnd') \<Rightarrow>
          (if shoe_pos s' < length (shoe_cards s')
           then Inr (shoe_cards s' ! shoe_pos s', s'\<lparr>shoe_pos := Suc (shoe_pos s')\<rparr>, rnd')
           else Inl Undefined))"

section \<open>What the shoe promises\<close>

text \<open>A card of a deck, and a shoe that holds whole decks in some order.\<close>

definition valid_card :: "card \<Rightarrow> bool" where
  "valid_card c \<longleftrightarrow> 1 \<le> c \<and> c \<le> 52"

definition shoe_ok :: "shoe \<Rightarrow> bool" where
  "shoe_ok s \<longleftrightarrow>
     shoe_cards s \<noteq> [] \<and> 52 dvd length (shoe_cards s) \<and> shoe_pos s \<le> length (shoe_cards s) \<and>
     mset (shoe_cards s) = mset (fill_cards (length (shoe_cards s)))"

lemma length_fill_cards [simp]: "length (fill_cards n) = n"
  by (simp add: fill_cards_def)

lemma fill_cards_Nil_iff [simp]: "fill_cards n = [] \<longleftrightarrow> n = 0"
  by (simp add: fill_cards_def)

lemma valid_fill_cards: "c \<in> set (fill_cards n) \<Longrightarrow> valid_card c"
  by (auto simp: fill_cards_def valid_card_def)

lemma swap_loop_terminates:
  "xs \<noteq> [] \<Longrightarrow> \<exists>ys. swap_loop i rnd xs = Inr ys \<and> mset ys = mset xs"
proof (induction i rnd xs rule: swap_loop.induct)
  case (1 i rnd xs)
  show ?case
  proof (cases "i < length xs - 1")
    case True
    let ?j = "i + rnd i mod (length xs - i)"
    from True have j: "?j < length xs"
      using mod_less_divisor [of "length xs - i" "rnd i"] by arith
    from True have i: "i < length xs" by simp
    have ne: "swap_elems i ?j xs \<noteq> []"
      using "1.prems" by (metis length_0_conv length_swap_elems)
    obtain ys where
      "swap_loop (Suc i) rnd (swap_elems i ?j xs) = Inr ys" "mset ys = mset (swap_elems i ?j xs)"
      using "1.IH" [OF _ _ refl j ne] True i "1.prems" by (auto simp: Suc_le_eq)
    with True i j "1.prems" show ?thesis
      by (simp add: swap_loop.simps [of i rnd xs] Suc_le_eq Let_def)
  next
    case False
    with "1.prems" show ?thesis
      by (simp add: swap_loop.simps [of i rnd xs] Suc_le_eq)
  qed
qed

text \<open>
  Every order of the cards is the outcome of some sequence of draws: no arrangement is lost by
  the way the indices are drawn.
\<close>

lemma swap_loop_cong:
  "(\<And>k. i \<le> k \<Longrightarrow> rnd k = rnd' k) \<Longrightarrow> swap_loop i rnd xs = swap_loop i rnd' xs"
proof (induction i rnd xs rule: swap_loop.induct)
  case (1 i rnd xs)
  from "1.prems" have "rnd i = rnd' i" by simp
  with 1 show ?case
    by (simp add: swap_loop.simps [of i rnd xs] swap_loop.simps [of i rnd' xs] Let_def)
qed

lemma swap_loop_reaches:
  assumes "xs \<noteq> []" and "mset ys = mset xs" and "take i ys = take i xs"
  shows "\<exists>rnd. swap_loop i rnd xs = Inr ys \<and> (\<forall>k. rnd k < length xs)"
  using assms
proof (induction "length xs - i" arbitrary: i xs rule: less_induct)
  case less
  note len = mset_eq_length [OF less.prems(2)]
  show ?case
  proof (cases "i < length xs - 1")
    case False
    have "mset (drop i ys) = mset (drop i xs)"
      using less.prems(2,3) by (metis add_left_cancel append_take_drop_id mset_append)
    moreover from False have "length (drop i xs) \<le> 1" "length (drop i ys) \<le> 1"
      using len by auto
    ultimately have "drop i ys = drop i xs"
      by (cases "drop i xs"; cases "drop i ys") auto
    with less.prems(3) have "ys = xs" by (metis append_take_drop_id)
    with False less.prems(1) show ?thesis
      by (intro exI [of _ "\<lambda>_. 0"]) (simp add: swap_loop.simps Suc_le_eq)
  next
    case True
    then have i: "i < length xs" by simp
    have "mset (drop i ys) = mset (drop i xs)"
      using less.prems(2,3) by (metis add_left_cancel append_take_drop_id mset_append)
    then have "ys ! i \<in> set (drop i xs)"
      using i len by (metis Cons_nth_drop_Suc list.set_intros(1) mset_eq_setD)
    then obtain d where d: "d < length xs - i" "xs ! (i + d) = ys ! i"
      by (auto simp: in_set_conv_nth)
    let ?xs = "swap_elems i (i + d) xs"
    have ne: "?xs \<noteq> []" using less.prems(1) by (metis length_0_conv length_swap_elems)
    have ms: "mset ys = mset ?xs" using less.prems(2) i d(1) by simp
    have "take (Suc i) ys = take (Suc i) ?xs"
      using i d len less.prems(3)
      by (cases "d = 0") (simp_all add: take_Suc_conv_app_nth swap_elems_def nth_list_update)
    then obtain rnd where rnd: "swap_loop (Suc i) rnd ?xs = Inr ys" "\<And>k. rnd k < length xs"
      using less.hyps [OF _ ne ms] i by (metis diff_less_mono2 length_swap_elems lessI)
    have "swap_loop (Suc i) (rnd(i := d)) ?xs = Inr ys"
      using rnd(1) by (subst swap_loop_cong [of _ _ rnd]) auto
    with True i d(1) less.prems(1) have "swap_loop i (rnd(i := d)) xs = Inr ys"
      by (simp add: swap_loop.simps [of i] Suc_le_eq Let_def)
    moreover have "(rnd(i := d)) k < length xs" for k using rnd(2) [of k] d(1) by auto
    ultimately show ?thesis by blast
  qed
qed

lemma shuffle_ok:
  assumes "shoe_cards s \<noteq> []" and "52 dvd length (shoe_cards s)"
  shows "\<exists>s' rnd'. shuffle s rnd = Inr (s', rnd') \<and> shoe_ok s' \<and> shoe_pos s' = 0 \<and>
    length (shoe_cards s') = length (shoe_cards s)"
proof -
  have "fill_cards (length (shoe_cards s)) \<noteq> []" using assms(1) by simp
  then obtain ys where ys: "swap_loop 0 rnd (fill_cards (length (shoe_cards s))) = Inr ys"
      "mset ys = mset (fill_cards (length (shoe_cards s)))"
    using swap_loop_terminates by blast
  from ys(2) have len: "length ys = length (shoe_cards s)"
    by (metis length_fill_cards size_mset)
  with assms ys show ?thesis
    by (auto simp: shuffle_def shoe_ok_def Let_def)
qed

lemma shoe_ok_card:
  assumes "shoe_ok s" and "i < length (shoe_cards s)"
  shows "valid_card (shoe_cards s ! i)"
proof -
  from assms(1) have "set (shoe_cards s) = set (fill_cards (length (shoe_cards s)))"
    by (auto simp: shoe_ok_def dest: mset_eq_setD)
  with assms(2) show ?thesis
    using nth_mem valid_fill_cards by blast
qed

lemma shoe_deal_ok:
  assumes "shoe_ok s"
  shows "\<exists>c s' rnd'. shoe_deal s rnd = Inr (c, s', rnd') \<and> valid_card c \<and> shoe_ok s' \<and>
    length (shoe_cards s') = length (shoe_cards s)"
proof (cases "shoe_pos s = length (shoe_cards s)")
  case True
  from assms obtain s' rnd' where sh: "shuffle s rnd = Inr (s', rnd')" and ok: "shoe_ok s'"
      and p: "shoe_pos s' = 0" and len: "length (shoe_cards s') = length (shoe_cards s)"
    using shuffle_ok [of s rnd] by (auto simp: shoe_ok_def)
  from ok have "0 < length (shoe_cards s')" by (simp add: shoe_ok_def)
  with True sh p len shoe_ok_card [OF ok] ok show ?thesis
    by (auto simp: shoe_deal_def shoe_ok_def Suc_le_eq)
next
  case False
  with assms have "shoe_pos s < length (shoe_cards s)" by (simp add: shoe_ok_def)
  with False assms shoe_ok_card [OF assms] show ?thesis
    by (auto simp: shoe_deal_def shoe_ok_def)
qed

lemma make_shoe_ok:
  assumes "1 \<le> decks" and "decks * 52 < 2 ^ 31"
  shows "\<exists>s rnd'. make_shoe decks rnd = Inr (s, rnd') \<and> shoe_ok s \<and> shoe_pos s = 0 \<and>
    length (shoe_cards s) = nat (decks * 52)"
proof -
  let ?s = "\<lparr>shoe_cards = replicate (nat (decks * 52)) 0, shoe_pos = 0\<rparr>"
  have "52 dvd nat (decks * 52)"
    using assms(1) by (simp add: nat_mult_distrib)
  with assms(1) have "\<exists>s' rnd'. shuffle ?s rnd = Inr (s', rnd') \<and> shoe_ok s' \<and> shoe_pos s' = 0 \<and>
      length (shoe_cards s') = length (shoe_cards ?s)"
    by (intro shuffle_ok) auto
  with assms show ?thesis by (simp add: make_shoe_def)
qed

section \<open>The interface to the hands\<close>

text \<open>
  A hand draws with \<^verbatim>\<open>cards.push_back(s.deal())\<close> on a \<^verbatim>\<open>static_string<22>\<close>: the shoe is asked
  first, then the card is appended.
\<close>

definition draw ::
  "('s \<Rightarrow> 'r \<Rightarrow> (card \<times> 's \<times> 'r) outcome) \<Rightarrow> card list \<Rightarrow> 's \<Rightarrow> 'r \<Rightarrow>
   (card list \<times> 's \<times> 'r) outcome" where
  "draw deal cs s r =
     (case deal s r of
        Inl e \<Rightarrow> Inl e
      | Inr (c, s', r') \<Rightarrow>
          (case push_back 22 cs c of Inl e \<Rightarrow> Inl e | Inr cs' \<Rightarrow> Inr (cs', s', r')))"

text \<open>What a hand relies on: dealing from a well-formed shoe succeeds, yields a card of a deck
  and keeps the shoe well formed.\<close>

locale card_source =
  fixes deal :: "'s \<Rightarrow> 'r \<Rightarrow> (card \<times> 's \<times> 'r) outcome"
    and invar :: "'s \<Rightarrow> bool"
  assumes deal_ok:
    "invar s \<Longrightarrow> \<exists>c s' r'. deal s r = Inr (c, s', r') \<and> valid_card c \<and> invar s'"
begin

lemma draw_ok:
  assumes "invar s" and "length cs < 22"
  shows "\<exists>c s' r'. draw deal cs s r = Inr (cs @ [c], s', r') \<and> valid_card c \<and> invar s'"
  using deal_ok [OF assms(1), of r] assms(2) by (auto simp: draw_def push_back_def)

lemma draw_full: "invar s \<Longrightarrow> \<not> length cs < 22 \<Longrightarrow> draw deal cs s r = Inl Length_error"
  using deal_ok [of s r] by (auto simp: draw_def push_back_def)

lemma draw_Inr:
  assumes "draw deal cs s r = Inr (cs', s', r')" and "invar s"
  shows "length cs < 22 \<and> (\<exists>c. cs' = cs @ [c] \<and> valid_card c) \<and> invar s'"
proof (cases "length cs < 22")
  case True
  with draw_ok [OF assms(2) True, of r] assms(1) show ?thesis by auto
next
  case False
  with draw_full [OF assms(2) False, of r] assms(1) show ?thesis by simp
qed

end

interpretation table_shoe: card_source shoe_deal shoe_ok
proof unfold_locales
  fix s :: shoe and rnd :: rng
  assume "shoe_ok s"
  then show "\<exists>c s' rnd'. shoe_deal s rnd = Inr (c, s', rnd') \<and> valid_card c \<and> shoe_ok s'"
    using shoe_deal_ok by blast
qed

section \<open>Dealing through the shoe\<close>

text \<open>\<open>n\<close> cards dealt in a row.\<close>

fun shoe_deals :: "nat \<Rightarrow> shoe \<Rightarrow> rng \<Rightarrow> (card list \<times> shoe \<times> rng) outcome" where
  "shoe_deals 0 s rnd = Inr ([], s, rnd)"
| "shoe_deals (Suc n) s rnd =
     (case shoe_deal s rnd of
        Inl e \<Rightarrow> Inl e
      | Inr (c, s', rnd') \<Rightarrow>
          (case shoe_deals n s' rnd' of
             Inl e \<Rightarrow> Inl e
           | Inr (cs, s'', rnd'') \<Rightarrow> Inr (c # cs, s'', rnd'')))"

lemma shoe_deals_prefix:
  "shoe_pos s + n \<le> length (shoe_cards s) \<Longrightarrow>
     shoe_deals n s rnd =
       Inr (take n (drop (shoe_pos s) (shoe_cards s)), s\<lparr>shoe_pos := shoe_pos s + n\<rparr>, rnd)"
proof (induction n arbitrary: s)
  case 0
  then show ?case by simp
next
  case (Suc n)
  then have p: "shoe_pos s < length (shoe_cards s)" by simp
  with Suc.IH [of "s\<lparr>shoe_pos := Suc (shoe_pos s)\<rparr>"] Suc.prems show ?case
    by (simp add: shoe_deal_def Cons_nth_drop_Suc [OF p, symmetric])
qed

section \<open>Properties\<close>

text \<open>
  C19: shuffling a non-empty shoe terminates without undefined behaviour, and whatever values
  \<^verbatim>\<open>rand()\<close> returns, the shoe then holds exactly the cards of the fresh decks, in some order, with
  the read position at the front.
\<close>

theorem shuffle_is_permutation:
  assumes "shoe_cards s \<noteq> []"
  shows "\<exists>s' rnd'. shuffle s rnd = Inr (s', rnd') \<and> shoe_pos s' = 0 \<and>
    mset (shoe_cards s') = mset (fill_cards (length (shoe_cards s)))"
proof -
  have "fill_cards (length (shoe_cards s)) \<noteq> []" using assms by simp
  from swap_loop_terminates [OF this, of 0 rnd] show ?thesis
    by (auto simp: shuffle_def Let_def)
qed

theorem shuffle_is_permutation_witness:
  "\<exists>s' rnd'. shuffle \<lparr>shoe_cards = replicate 52 0, shoe_pos = 0\<rparr> (\<lambda>i. 3 * i) = Inr (s', rnd') \<and>
     shoe_pos s' = 0 \<and> mset (shoe_cards s') = mset (fill_cards 52)"
  using shuffle_is_permutation [of "\<lparr>shoe_cards = replicate 52 0, shoe_pos = 0\<rparr>" "\<lambda>i. 3 * i"] by simp

text \<open>
  C23: no order of the cards is out of reach: for every arrangement of the cards of a shoe there is
  a sequence of \<^verbatim>\<open>rand()\<close> values, all below the number of cards, for which \<^verbatim>\<open>shuffle\<close> produces it.
\<close>

theorem shuffle_reaches_every_order:
  assumes "shoe_cards s \<noteq> []" and "mset ys = mset (fill_cards (length (shoe_cards s)))"
  shows "\<exists>rnd s' rnd'. (\<forall>k. rnd k < length (shoe_cards s)) \<and> shuffle s rnd = Inr (s', rnd') \<and>
    shoe_cards s' = ys \<and> shoe_pos s' = 0"
proof -
  have "fill_cards (length (shoe_cards s)) \<noteq> []" using assms(1) by simp
  from swap_loop_reaches [OF this assms(2), of 0]
  obtain rnd where "swap_loop 0 rnd (fill_cards (length (shoe_cards s))) = Inr ys"
    "\<forall>k. rnd k < length (shoe_cards s)" by auto
  then show ?thesis by (intro exI [of _ rnd]) (simp add: shuffle_def Let_def)
qed

theorem shuffle_reaches_every_order_witness:
  "\<exists>rnd s' rnd'. shuffle \<lparr>shoe_cards = replicate 52 0, shoe_pos = 0\<rparr> rnd = Inr (s', rnd') \<and>
     shoe_cards s' = rev (fill_cards 52)"
  using shuffle_reaches_every_order [of "\<lparr>shoe_cards = replicate 52 0, shoe_pos = 0\<rparr>" "rev (fill_cards 52)"]
  by auto

text \<open>
  From a full one-deck shoe the next 52 calls of \<^verbatim>\<open>deal\<close> yield every card of the deck exactly
  once and draw no random number: no card repeats before the shoe is exhausted and reshuffled.
\<close>

theorem full_deck_dealt_once:
  assumes "shoe_ok s" and "shoe_pos s = 0" and "length (shoe_cards s) = 52"
  shows "\<exists>cs s'. shoe_deals 52 s rnd = Inr (cs, s', rnd) \<and> distinct cs \<and> set cs = {1..52}"
proof -
  have "distinct (fill_cards 52) \<and> set (fill_cards 52) = {1..52}"
    by code_simp
  moreover have "mset (shoe_cards s) = mset (fill_cards 52)"
    using assms(1,3) by (simp add: shoe_ok_def)
  ultimately have "distinct (shoe_cards s)" "set (shoe_cards s) = {1..52}"
    using mset_eq_imp_distinct_iff mset_eq_setD by blast+
  with shoe_deals_prefix [of s 52 rnd] assms(2,3) show ?thesis by simp
qed

theorem full_deck_dealt_once_witness:
  "\<exists>cs s'. shoe_deals 52 \<lparr>shoe_cards = fill_cards 52, shoe_pos = 0\<rparr> (\<lambda>_. 0) = Inr (cs, s', \<lambda>_. 0) \<and>
     distinct cs \<and> set cs = {1..52}"
  using full_deck_dealt_once [of "\<lparr>shoe_cards = fill_cards 52, shoe_pos = 0\<rparr>" "\<lambda>_. 0"]
  by (auto simp: shoe_ok_def)

end
