(* ===== verification/Blackjack_Lib.thy ===== *)
theory Blackjack_Lib
  imports Shoe "HOL-Library.Signed_Division"
begin

text \<open>
  The stand-alone blackjack library (\<^verbatim>\<open>server/blackjack/game.hpp\<close>): its shoe (the same code over
  a \<^verbatim>\<open>std::string\<close>), the hand with its evaluation, and the game object that owns a shoe. The
  evaluation is compared with the rules of the game: aces count one or eleven.
\<close>

section \<open>The code\<close>

subsection \<open>shoe\<close>

definition lib_shuffle :: "shoe \<Rightarrow> rng \<Rightarrow> (shoe \<times> rng) outcome" where
  "lib_shuffle s rnd =
     (let n = length (shoe_cards s) in
      case swap_loop 0 rnd (fill_cards n) of
        Inl e \<Rightarrow> Inl e
      | Inr xs \<Rightarrow> Inr (s\<lparr>shoe_cards := xs, shoe_pos := 0\<rparr>, \<lambda>k. rnd (k + (n - 1))))"

definition lib_make_shoe :: "int \<Rightarrow> rng \<Rightarrow> (shoe \<times> rng) outcome" where
  "lib_make_shoe decks rnd =
     (if decks * 52 < - (2 ^ 31) \<or> 2 ^ 31 \<le> decks * 52 then Inl Undefined
      else if decks < 0 then Inl Length_error
      else lib_shuffle \<lparr>shoe_cards = replicate (nat (decks * 52)) 0, shoe_pos = 0\<rparr> rnd)"

definition lib_shoe_deal :: "shoe \<Rightarrow> rng \<Rightarrow> (card \<times> shoe \<times> rng) outcome" where
  "lib_shoe_deal s rnd =
     (case (if shoe_pos s = length (shoe_cards s) then lib_shuffle s rnd else Inr (s, rnd)) of
        Inl e \<Rightarrow> Inl e
      | Inr (s', rnd') \<Rightarrow>
          (if shoe_pos s' < length (shoe_cards s')
           then Inr (shoe_cards s' ! shoe_pos s', s'\<lparr>shoe_pos := Suc (shoe_pos s')\<rparr>, rnd')
           else Inl Undefined))"

subsection \<open>hand\<close>

record lib_hand =
  lh_cards :: "card list"
  lh_wager :: int
  lh_busted :: bool
  lh_twenty_one :: bool
  lh_blackjack :: bool

definition lib_new_hand :: lib_hand where
  "lib_new_hand = \<lparr>lh_cards = [], lh_wager = 0, lh_busted = False, lh_twenty_one = False,
     lh_blackjack = False\<rparr>"

definition lib_clear :: "lib_hand \<Rightarrow> lib_hand" where
  "lib_clear h = h\<lparr>lh_cards := [], lh_wager := 0, lh_busted := False, lh_twenty_one := False,
     lh_blackjack := False\<rparr>"

text \<open>\<^verbatim>\<open>%\<close> truncates towards zero in C++, so the hole card 0 has value 0.\<close>

definition card_value :: "card \<Rightarrow> int" where
  "card_value c = (let v = 1 + ((c - 1) smod 13) in if v > 10 then 10 else v)"

text \<open>The loop of \<^verbatim>\<open>eval\<close> over the cards, with its two counters.\<close>

fun tally :: "card list \<Rightarrow> nat \<Rightarrow> int \<Rightarrow> nat \<times> int" where
  "tally [] aces tot = (aces, tot)"
| "tally (c # cs) aces tot =
     (let v = card_value c in
      if v \<noteq> 1 then tally cs aces (tot + v) else tally cs (Suc aces) (tot + 11))"

text \<open>\<^verbatim>\<open>while(total > 21 && aces--) total -= 10;\<close>\<close>

fun soften :: "nat \<Rightarrow> int \<Rightarrow> int" where
  "soften aces tot =
     (if tot > 21 \<and> aces \<noteq> 0 then soften (aces - 1) (tot - 10) else tot)"

declare soften.simps [simp del]

definition lib_eval :: "lib_hand \<Rightarrow> lib_hand" where
  "lib_eval h =
     (let (aces, tot) = tally (lh_cards h) 0 0;
          tot1 = soften aces tot
      in h\<lparr>lh_busted := tot1 > 21,
           lh_twenty_one := (tot1 = 21),
           lh_blackjack := (tot1 = 21 \<and> length (lh_cards h) = 2)\<rparr>)"

definition lib_hand_deal :: "lib_hand \<Rightarrow> shoe \<Rightarrow> rng \<Rightarrow> (lib_hand \<times> shoe \<times> rng) outcome" where
  "lib_hand_deal h s rnd =
     (case draw lib_shoe_deal (lh_cards h) s rnd of
        Inl e \<Rightarrow> Inl e
      | Inr (cs, s', rnd') \<Rightarrow> Inr (lib_eval (h\<lparr>lh_cards := cs\<rparr>), s', rnd'))"

definition is_done :: "lib_hand \<Rightarrow> bool" where
  "is_done h \<longleftrightarrow> lh_busted h \<or> lh_twenty_one h"

subsection \<open>game\<close>

record lib_config =
  cfg_seats :: int
  cfg_decks :: int

record lib_game =
  lg_cfg :: lib_config
  lg_shoe :: shoe

definition make_lib_game :: "lib_config \<Rightarrow> rng \<Rightarrow> (lib_game \<times> rng) outcome" where
  "make_lib_game cfg rnd =
     (case lib_make_shoe (cfg_decks cfg) rnd of
        Inl e \<Rightarrow> Inl e
      | Inr (s, rnd') \<Rightarrow> Inr (\<lparr>lg_cfg = cfg, lg_shoe = s\<rparr>, rnd'))"

text \<open>
  The driver of \<^verbatim>\<open>testHand\<close>: deal to a hand until it is done. The fuel bounds the iterations;
  running out of it is \<open>None\<close>.
\<close>

fun deal_out :: "nat \<Rightarrow> lib_hand \<Rightarrow> shoe \<Rightarrow> rng \<Rightarrow> (lib_hand \<times> shoe \<times> rng) outcome option" where
  "deal_out 0 h s rnd = None"
| "deal_out (Suc fuel) h s rnd =
     (if is_done h then Some (Inr (h, s, rnd))
      else case lib_hand_deal h s rnd of
        Inl e \<Rightarrow> Some (Inl e)
      | Inr (h', s', rnd') \<Rightarrow> deal_out fuel h' s' rnd')"

section \<open>The shoe deals cards of a deck\<close>

lemma lib_shuffle_eq: "lib_shuffle = shuffle"
  by (intro ext) (simp add: lib_shuffle_def shuffle_def)

lemma lib_shoe_deal_eq: "lib_shoe_deal = shoe_deal"
  by (intro ext) (simp add: lib_shoe_deal_def shoe_deal_def lib_shuffle_eq)

lemma lib_make_shoe_eq: "lib_make_shoe = make_shoe"
  by (intro ext) (simp add: lib_make_shoe_def make_shoe_def lib_shuffle_eq)

interpretation lib_shoe: card_source lib_shoe_deal shoe_ok
  unfolding lib_shoe_deal_eq by (rule table_shoe.card_source_axioms)

section \<open>The value of a hand\<close>

lemma card_value_valid: "valid_card c \<Longrightarrow> card_value c = min 10 (1 + (c - 1) mod 13)"
  by (cases "c = 1") (simp_all add: valid_card_def card_value_def Let_def min_def signed_modulo_int_def)

lemma card_value_bounds: "valid_card c \<Longrightarrow> 1 \<le> card_value c \<and> card_value c \<le> 10"
  by (auto simp: card_value_valid)

text \<open>
  The rules of the game. A deck is numbered suit by suit, each from the ace to the king; the points
  of the thirteen ranks are a table, in which an ace has one and may count ten more.
\<close>

definition rank_of :: "card \<Rightarrow> nat" where
  "rank_of c = nat ((c - 1) mod 13)"

definition rank_points :: "int list" where
  "rank_points = [1, 2, 3, 4, 5, 6, 7, 8, 9, 10, 10, 10, 10]"

definition rules_total :: "card list \<Rightarrow> int" where
  "rules_total cs = sum_list (map (\<lambda>c. rank_points ! rank_of c) cs)"

definition rules_aces :: "card list \<Rightarrow> nat" where
  "rules_aces cs = length (filter (\<lambda>c. rank_of c = 0) cs)"

text \<open>The same numbers as the code gets them.\<close>

definition hard_total :: "card list \<Rightarrow> int" where
  "hard_total cs = sum_list (map card_value cs)"

definition num_aces :: "card list \<Rightarrow> nat" where
  "num_aces cs = length (filter (\<lambda>c. card_value c = 1) cs)"

lemma rank_points_nth: "n < 13 \<Longrightarrow> rank_points ! n = min 10 (int n + 1)"
  by (auto simp: rank_points_def less_Suc_eq numeral_eq_Suc)

lemma card_value_rank:
  assumes "valid_card c"
  shows "card_value c = rank_points ! rank_of c" "card_value c = 1 \<longleftrightarrow> rank_of c = 0"
proof -
  have r: "rank_of c < 13" "int (rank_of c) = (c - 1) mod 13" by (simp_all add: rank_of_def nat_less_iff)
  then show "card_value c = rank_points ! rank_of c"
    by (simp add: card_value_valid [OF assms] rank_points_nth)
  show "card_value c = 1 \<longleftrightarrow> rank_of c = 0"
    using r(2) unfolding card_value_valid [OF assms] by linarith
qed

lemma rules_eq:
  assumes "list_all valid_card cs"
  shows "hard_total cs = rules_total cs" "num_aces cs = rules_aces cs"
proof -
  show "hard_total cs = rules_total cs"
    using assms by (induction cs) (simp_all add: hard_total_def rules_total_def card_value_rank(1))
  show "num_aces cs = rules_aces cs"
    using assms by (induction cs) (simp_all add: num_aces_def rules_aces_def card_value_rank(2))
qed

lemma tally_eq:
  "tally cs aces tot =
     (aces + num_aces cs, tot + hard_total cs + 10 * int (num_aces cs))"
  by (induction cs arbitrary: aces tot)
    (simp_all add: Let_def hard_total_def num_aces_def algebra_simps)

lemma soften_spec:
  "\<exists>k \<le> a. soften a (h + 10 * int a) = h + 10 * int k \<and>
     (21 < h + 10 * int k \<longrightarrow> k = 0) \<and> (k < a \<longrightarrow> 21 < h + 10 * int (Suc k))"
proof (induction a)
  case 0
  show ?case by (simp add: soften.simps)
next
  case (Suc a)
  show ?case
  proof (cases "21 < h + 10 * int (Suc a)")
    case True
    then have "soften (Suc a) (h + 10 * int (Suc a)) = soften a (h + 10 * int a)"
      by (simp add: soften.simps [of "Suc a"])
    moreover obtain k where "k \<le> a" "soften a (h + 10 * int a) = h + 10 * int k"
        "21 < h + 10 * int k \<longrightarrow> k = 0" "k < a \<longrightarrow> 21 < h + 10 * int (Suc k)"
      using Suc.IH by blast
    ultimately show ?thesis
      using True by (intro exI [of _ k]) (auto simp: less_Suc_eq le_less)
  next
    case False
    then have "soften (Suc a) (h + 10 * int (Suc a)) = h + 10 * int (Suc a)"
      by (simp add: soften.simps [of "Suc a"])
    with False show ?thesis by (intro exI [of _ "Suc a"]) simp
  qed
qed

lemma soften_le: "h \<le> 21 \<Longrightarrow> soften a (h + 10 * int a) \<le> 21"
  using soften_spec [of a h] by force

lemma soften_busted: "21 < soften a (h + 10 * int a) \<longleftrightarrow> 21 < h"
  using soften_spec [of a h] by force

lemma soften_twenty_one:
  "soften a (h + 10 * int a) = 21 \<longleftrightarrow> (\<exists>k \<le> a. h + 10 * int k = 21)"
proof
  assume "\<exists>k \<le> a. h + 10 * int k = 21"
  then obtain k where k: "k \<le> a" "h + 10 * int k = 21" by blast
  obtain j where j: "j \<le> a" "soften a (h + 10 * int a) = h + 10 * int j"
      "21 < h + 10 * int j \<longrightarrow> j = 0" "j < a \<longrightarrow> 21 < h + 10 * int (Suc j)"
    using soften_spec [of a h] by blast
  have "j = k" using j k by auto
  with j(2) k(2) show "soften a (h + 10 * int a) = 21" by simp
qed (use soften_spec [of a h] in force)

lemma lib_eval_flags:
  "lh_busted (lib_eval h) \<longleftrightarrow> 21 < hard_total (lh_cards h)"
  "lh_twenty_one (lib_eval h) \<longleftrightarrow>
     (\<exists>k \<le> num_aces (lh_cards h). hard_total (lh_cards h) + 10 * int k = 21)"
  "lh_blackjack (lib_eval h) \<longleftrightarrow> lh_twenty_one (lib_eval h) \<and> length (lh_cards h) = 2"
  by (simp_all add: lib_eval_def tally_eq soften_busted soften_twenty_one)

section \<open>Hands never outgrow their storage\<close>

text \<open>A hand of cards of a deck whose flags are the evaluation of its cards.\<close>

definition lib_hand_ok :: "lib_hand \<Rightarrow> bool" where
  "lib_hand_ok h \<longleftrightarrow> list_all valid_card (lh_cards h) \<and> lib_eval h = h"

lemma lib_eval_cards [simp]: "lh_cards (lib_eval h) = lh_cards h"
  by (simp add: lib_eval_def Let_def split: prod.splits)

lemma lib_eval_idem [simp]: "lib_eval (lib_eval h) = lib_eval h"
  by (simp add: lib_eval_def Let_def split: prod.splits)

lemma lib_hand_ok_new: "lib_hand_ok lib_new_hand"
  by (simp add: lib_hand_ok_def lib_new_hand_def lib_eval_def soften.simps)

lemma lib_hand_ok_clear: "lib_hand_ok (lib_clear h)"
  by (simp add: lib_hand_ok_def lib_clear_def lib_eval_def soften.simps)

lemma length_le_hard_total: "list_all valid_card cs \<Longrightarrow> int (length cs) \<le> hard_total cs"
  by (induction cs) (auto simp: hard_total_def dest: card_value_bounds)

lemma not_done_hard_total:
  assumes "lib_hand_ok h" and "\<not> is_done h"
  shows "hard_total (lh_cards h) \<le> 20"
proof -
  from assms have "\<not> lh_busted (lib_eval h)" "\<not> lh_twenty_one (lib_eval h)"
    by (simp_all add: lib_hand_ok_def is_done_def)
  then have "hard_total (lh_cards h) \<le> 21" "hard_total (lh_cards h) \<noteq> 21"
    by (auto simp: lib_eval_flags dest: spec [of _ 0])
  then show ?thesis by simp
qed

lemma not_done_length: "lib_hand_ok h \<Longrightarrow> \<not> is_done h \<Longrightarrow> length (lh_cards h) \<le> 20"
  using length_le_hard_total [of "lh_cards h"] not_done_hard_total [of h]
  by (auto simp: lib_hand_ok_def)

lemma lib_hand_deal_step:
  assumes "lib_hand_ok h" and "\<not> is_done h" and "shoe_ok s"
  shows "\<exists>h' s' rnd' c. lib_hand_deal h s rnd = Inr (h', s', rnd') \<and> lib_hand_ok h' \<and> shoe_ok s' \<and>
    valid_card c \<and> lh_cards h' = lh_cards h @ [c]"
proof -
  from not_done_length [OF assms(1,2)] have "length (lh_cards h) < 22" by simp
  from lib_shoe.draw_ok [OF assms(3) this, of rnd] assms(1) show ?thesis
    by (auto simp: lib_hand_deal_def lib_hand_ok_def)
qed

lemma hard_total_snoc [simp]: "hard_total (cs @ [c]) = hard_total cs + card_value c"
  by (simp add: hard_total_def)

lemma deal_out_done:
  assumes "lib_hand_ok h" and "shoe_ok s" and "length (lh_cards h) \<le> 21"
    and "22 < hard_total (lh_cards h) + int fuel" and "0 < fuel"
  shows "\<exists>h' s' rnd'. deal_out fuel h s rnd = Some (Inr (h', s', rnd')) \<and>
    is_done h' \<and> lib_hand_ok h' \<and> shoe_ok s' \<and> length (lh_cards h') \<le> 21"
  using assms
proof (induction fuel arbitrary: h s rnd)
  case 0
  then show ?case by simp
next
  case (Suc fuel)
  show ?case
  proof (cases "is_done h")
    case True
    with Suc.prems show ?thesis by simp
  next
    case False
    from lib_hand_deal_step [OF Suc.prems(1) False Suc.prems(2)]
    obtain h' s' rnd' c where d: "lib_hand_deal h s rnd = Inr (h', s', rnd')" "lib_hand_ok h'"
        "shoe_ok s'" "valid_card c" "lh_cards h' = lh_cards h @ [c]" by blast
    have "length (lh_cards h') \<le> 21"
      using not_done_length [OF Suc.prems(1) False] d(5) by simp
    moreover have "22 < hard_total (lh_cards h') + int fuel"
      using Suc.prems(4) d(5) card_value_bounds [OF d(4)] by simp
    moreover have "0 < fuel"
      using Suc.prems(4) not_done_hard_total [OF Suc.prems(1) False] by simp
    ultimately show ?thesis
      using Suc.IH [OF d(2,3), of rnd'] False d(1) by simp
  qed
qed

section \<open>Properties\<close>

text \<open>
  C18: \<^verbatim>\<open>hand::eval\<close> agrees with the rules for every hand of cards of a deck, where the points of a card
  are those of its rank in the table of the rules: it is busted exactly when the total with every ace
  counted one exceeds 21, it is twenty-one exactly when some number of its aces can be counted eleven
  to make 21, and it is a blackjack exactly when it is twenty-one on two cards.
\<close>

theorem lib_eval_correct:
  assumes "list_all valid_card (lh_cards h)"
  shows "lh_busted (lib_eval h) = (21 < rules_total (lh_cards h)) \<and>
   lh_twenty_one (lib_eval h) =
     (\<exists>k \<le> rules_aces (lh_cards h). rules_total (lh_cards h) + 10 * int k = 21) \<and>
   lh_blackjack (lib_eval h) = (lh_twenty_one (lib_eval h) \<and> length (lh_cards h) = 2)"
  using lib_eval_flags [of h] by (simp only: rules_eq [OF assms])

theorem lib_eval_correct_witness:
  "lh_blackjack (lib_eval (lib_new_hand\<lparr>lh_cards := [26, 40]\<rparr>)) \<and>
   \<not> lh_busted (lib_eval (lib_new_hand\<lparr>lh_cards := [52, 39, 1]\<rparr>))"
  using lib_eval_correct [of "lib_new_hand\<lparr>lh_cards := [26, 40]\<rparr>"]
    lib_eval_correct [of "lib_new_hand\<lparr>lh_cards := [52, 39, 1]\<rparr>"]
  by (auto simp: valid_card_def lib_new_hand_def rules_total_def rules_aces_def rank_of_def rank_points_def
      numeral_eq_Suc intro: exI [of _ "1::nat"])

text \<open>
  Dealing to a new hand until it is done always ends, within 22 cards dealt, without running
  into the capacity of the hand's storage: the finished hand has at most 21 cards, however the
  shoe is ordered and reshuffled.
\<close>

theorem deal_out_terminates:
  assumes "shoe_ok s"
  shows "\<exists>h s' rnd'. deal_out 23 lib_new_hand s rnd = Some (Inr (h, s', rnd')) \<and>
    is_done h \<and> length (lh_cards h) \<le> 21 \<and> shoe_ok s'"
  using deal_out_done [OF lib_hand_ok_new assms, of 23 rnd]
  by (auto simp: lib_new_hand_def hard_total_def)

theorem deal_out_terminates_witness:
  "\<exists>h s' rnd'. deal_out 23 lib_new_hand \<lparr>shoe_cards = fill_cards 52, shoe_pos = 52\<rparr> (\<lambda>_. 7) =
     Some (Inr (h, s', rnd')) \<and> is_done h \<and> length (lh_cards h) \<le> 21 \<and> shoe_ok s'"
  by (rule deal_out_terminates)
    (auto simp: shoe_ok_def)

end
