(* ===== verification/Lounge_Json.thy ===== *)
theory Lounge_Json
  imports Lounge_Prelude
begin

text \<open>
  JSON values as the sources see them through \<^verbatim>\<open>boost::json::value\<close>: the kinds the code tests
  for, objects as vectors of members in insertion order, and the three ways the code touches a
  member (\<^verbatim>\<open>find\<close>, \<^verbatim>\<open>operator[]\<close> with an assignment, \<^verbatim>\<open>emplace\<close>). Parsing, printing and
  numeric conversion belong to the library and are parameters of the definitions that use them.
\<close>

text \<open>A finite \<^verbatim>\<open>double\<close> is its mantissa and binary exponent.\<close>

datatype json =
    JNull
  | JBool bool
  | JInt int
  | JUint nat
  | JDouble int int
  | JStr string
  | JArr "json list"
  | JObj "(string \<times> json) list"

fun is_object :: "json \<Rightarrow> bool" where
  "is_object (JObj _) = True" | "is_object _ = False"

fun is_array :: "json \<Rightarrow> bool" where
  "is_array (JArr _) = True" | "is_array _ = False"

fun is_string :: "json \<Rightarrow> bool" where
  "is_string (JStr _) = True" | "is_string _ = False"

fun is_null :: "json \<Rightarrow> bool" where
  "is_null JNull = True" | "is_null _ = False"

fun is_bool :: "json \<Rightarrow> bool" where
  "is_bool (JBool _) = True" | "is_bool _ = False"

fun is_number :: "json \<Rightarrow> bool" where
  "is_number (JInt _) = True"
| "is_number (JUint _) = True"
| "is_number (JDouble _ _) = True"
| "is_number _ = False"

type_synonym members = "(string \<times> json) list"

fun obj_set :: "string \<Rightarrow> json \<Rightarrow> members \<Rightarrow> members" where
  "obj_set k v [] = [(k, v)]"
| "obj_set k v (m # ms) = (if fst m = k then (k, v) # ms else m # obj_set k v ms)"

definition obj_emplace :: "string \<Rightarrow> json \<Rightarrow> members \<Rightarrow> members" where
  "obj_emplace k v ms = (if map_of ms k = None then ms @ [(k, v)] else ms)"

lemma map_of_obj_set [simp]: "map_of (obj_set k v ms) = (map_of ms)(k \<mapsto> v)"
  by (induction ms) (auto simp: fun_eq_iff)

lemma map_of_obj_emplace [simp]:
  "map_of (obj_emplace k v ms) = (if map_of ms k = None then (map_of ms)(k \<mapsto> v) else map_of ms)"
  by (auto simp: obj_emplace_def fun_eq_iff map_add_def split: option.splits)

text \<open>The member \<open>k\<close> of a value, when it is an object that has one.\<close>

fun member_of :: "json \<Rightarrow> string \<Rightarrow> json option" where
  "member_of (JObj ms) k = map_of ms k"
| "member_of _ k = None"

end
