(* ===== verification/Blackjack_Game.thy ===== *)
theory Blackjack_Game
  imports Blackjack_Lib Lounge_Json
begin

text \<open>
  The game of the blackjack channel (\<^verbatim>\<open>server/core/blackjack.cpp\<close>, classes \<^verbatim>\<open>error_codes\<close>,
  \<^verbatim>\<open>hand\<close>, \<^verbatim>\<open>seat\<close> and \<^verbatim>\<open>game\<close>): six seats, the dealer's at index 0, users that take and leave
  the other five, bets, and cards dealt round the table. A user is the address of its object, an
  \<^verbatim>\<open>error_code\<close> that a call may set is passed in and handed back, and the callbacks a call makes
  at its end are returned in order.
\<close>

section \<open>The code\<close>

subsection \<open>Errors\<close>

datatype bj_error = Not_playing | Already_playing | Already_leaving | No_open_seat | No_more_bets

fun bj_error_value :: "bj_error \<Rightarrow> int" where
  "bj_error_value Not_playing = 1"
| "bj_error_value Already_playing = 2"
| "bj_error_value Already_leaving = 3"
| "bj_error_value No_open_seat = 4"
| "bj_error_value No_more_bets = 5"

definition bj_message :: "int \<Rightarrow> string" where
  "bj_message ev =
     (if ev = 2 then ''Already playing''
      else if ev = 3 then ''Already playing''
      else if ev = 4 then ''No open seat''
      else if ev = 5 then ''No more bets''
      else ''Not playing'')"

definition bj_make_error_code :: "bj_error \<Rightarrow> int \<times> string" where
  "bj_make_error_code e = (bj_error_value e, bj_message (bj_error_value e))"

lemma bj_error_message [simp]: "snd (bj_make_error_code e) = bj_message (bj_error_value e)"
  by (simp add: bj_make_error_code_def)

subsection \<open>hand\<close>

record hand =
  hand_cards :: "card list"
  hand_wager :: int
  busted :: bool
  twenty_one :: bool
  blackjack :: bool

definition new_hand :: hand where
  "new_hand = \<lparr>hand_cards = [], hand_wager = 0, busted = False, twenty_one = False,
     blackjack = False\<rparr>"

definition hand_clear :: "hand \<Rightarrow> hand" where
  "hand_clear h = h\<lparr>hand_cards := [], hand_wager := 0, busted := False, twenty_one := False,
     blackjack := False\<rparr>"

text \<open>\<^verbatim>\<open>value\<close> of a card, which nothing calls.\<close>

definition hand_value :: "card \<Rightarrow> int" where
  "hand_value c = (let v = 1 + ((c - 1) smod 13) in if v > 10 then 10 else v)"

text \<open>The loop of this \<^verbatim>\<open>eval\<close> adds the card codes themselves, not their values.\<close>

fun raw_tally :: "card list \<Rightarrow> nat \<Rightarrow> int \<Rightarrow> nat \<times> int" where
  "raw_tally [] aces tot = (aces, tot)"
| "raw_tally (c # cs) aces tot =
     (if c \<noteq> 1 then raw_tally cs aces (tot + c) else raw_tally cs (Suc aces) (tot + 11))"

definition hand_eval :: "hand \<Rightarrow> hand" where
  "hand_eval h =
     (let (aces, tot) = raw_tally (hand_cards h) 0 0;
          tot1 = soften aces tot
      in h\<lparr>busted := tot1 > 21,
           twenty_one := (tot1 = 21),
           blackjack := (tot1 = 21 \<and> length (hand_cards h) = 2)\<rparr>)"

definition hand_deal :: "hand \<Rightarrow> shoe \<Rightarrow> rng \<Rightarrow> (hand \<times> shoe \<times> rng) outcome" where
  "hand_deal h s rnd =
     (case draw shoe_deal (hand_cards h) s rnd of
        Inl e \<Rightarrow> Inl e
      | Inr (cs, s', rnd') \<Rightarrow> Inr (h\<lparr>hand_cards := cs\<rparr>, s', rnd'))"

definition is_finished :: "hand \<Rightarrow> bool" where
  "is_finished h \<longleftrightarrow> busted h \<or> twenty_one h"

definition hand_to_json :: "hand \<Rightarrow> json" where
  "hand_to_json h = JArr (map JInt (hand_cards h))"

subsection \<open>seat\<close>

datatype seat_state = Dealer | Waiting | Playing | Leaving | Open

text \<open>
  \<^verbatim>\<open>chips\<close> has no initializer and the constructor does not set it: a new seat keeps what the
  memory held, the low 32 bits of the parameter \<open>garbage\<close>.
\<close>

record seat =
  seat_u :: "uptr option"
  seat_state :: seat_state
  hands :: "hand list"
  chips :: int
  wager :: int

definition new_seat :: "int \<Rightarrow> seat" where
  "new_seat garbage =
     \<lparr>seat_u = None, seat_state = Open, hands = [new_hand], chips = signed_take_bit 31 garbage, wager = 0\<rparr>"

definition seat_clear :: "seat \<Rightarrow> seat" where
  "seat_clear s =
     s\<lparr>hands := (hands s)[0 := hand_clear (hands s ! 0)], wager := 0, chips := 1000\<rparr>"

text \<open>
  \<^verbatim>\<open>to_json\<close> reads the name of the seated user through its pointer: \<open>uname\<close> is the memory it
  reads, \<open>None\<close> where no object lives, and reading there is undefined.
\<close>

definition seated_json :: "(uptr \<Rightarrow> string option) \<Rightarrow> seat \<Rightarrow> string \<Rightarrow> bool \<Rightarrow> json outcome" where
  "seated_json uname s st with_wager =
     (case Option.bind (seat_u s) uname of
        None \<Rightarrow> Inl Undefined
      | Some nm \<Rightarrow>
          Inr (JObj ([(''hands'', JArr (map hand_to_json (hands s))),
                      (''state'', JStr st), (''user'', JStr nm), (''chips'', JInt (chips s))]
               @ (if with_wager then [(''wager'', JInt (wager s))] else []))))"

definition seat_to_json :: "(uptr \<Rightarrow> string option) \<Rightarrow> seat \<Rightarrow> json outcome" where
  "seat_to_json uname s =
     (let hs = (''hands'', JArr (map hand_to_json (hands s))) in
      case seat_state s of
        Dealer \<Rightarrow> Inr (JObj [hs, (''state'', JStr ''dealer'')])
      | Waiting \<Rightarrow> seated_json uname s ''waiting'' False
      | Playing \<Rightarrow> seated_json uname s ''playing'' True
      | Leaving \<Rightarrow> seated_json uname s ''leaving'' True
      | Open \<Rightarrow> Inr (JObj [hs, (''state'', JStr ''open'')]))"

subsection \<open>game\<close>

datatype game_state = Wait | Play

datatype game_callback = On_game_bet | On_game_deal_card

record game =
  game_s :: game_state
  game_shoe :: shoe
  seats :: "seat list"
  turn :: nat

text \<open>
  The constructor: the shoe is made before the bounds on \<^verbatim>\<open>decks\<close> are asserted. \<open>mem i\<close> is
  what the storage of \<^verbatim>\<open>chips\<close> in seat \<open>i\<close> held before.
\<close>

definition fresh_seats :: "(nat \<Rightarrow> int) \<Rightarrow> seat list" where
  "fresh_seats mem =
     (map (\<lambda>i. new_seat (mem i)) [0..<6])[0 := (new_seat (mem 0))\<lparr>seat_state := Dealer\<rparr>]"

definition make_game :: "int \<Rightarrow> (nat \<Rightarrow> int) \<Rightarrow> rng \<Rightarrow> (game \<times> rng) outcome" where
  "make_game decks mem rnd =
     (case make_shoe decks rnd of
        Inl e \<Rightarrow> Inl e
      | Inr (sh, rnd') \<Rightarrow>
          if 1 \<le> decks \<and> decks \<le> 6
          then Inr (\<lparr>game_s = Wait, game_shoe = sh, seats = fresh_seats mem, turn = 0\<rparr>, rnd')
          else Inl Assert_failed)"

definition tick :: "game \<Rightarrow> game" where
  "tick g = g"

definition find :: "game \<Rightarrow> uptr \<Rightarrow> nat" where
  "find g u =
     (case first_idx (\<lambda>s. seat_state s \<noteq> Open \<and> seat_u s = Some u) (seats g) of
        None \<Rightarrow> 0 | Some i \<Rightarrow> i)"

definition upd_seat :: "nat \<Rightarrow> (seat \<Rightarrow> seat) \<Rightarrow> game \<Rightarrow> game" where
  "upd_seat i f g = g\<lparr>seats := (seats g)[i := f (seats g ! i)]\<rparr>"

definition join :: "game \<Rightarrow> uptr \<Rightarrow> bj_error option \<Rightarrow> game \<times> bj_error option \<times> nat" where
  "join g u ec =
     (if find g u \<noteq> 0 then (g, Some Already_playing, 0)
      else case first_idx (\<lambda>s. seat_state s = Open) (seats g) of
        Some i \<Rightarrow> (upd_seat i (\<lambda>s. s\<lparr>seat_u := Some u, seat_state := Playing\<rparr>) g, None, i)
      | None \<Rightarrow> (g, Some No_open_seat, 0))"

definition leave :: "game \<Rightarrow> uptr \<Rightarrow> bj_error option \<Rightarrow> (game \<times> bj_error option \<times> int) outcome" where
  "leave g u ec =
     (let i = find g u in
      if i = 0 then Inr (g, Some Not_playing, 0)
      else case seat_state (seats g ! i) of
        Waiting \<Rightarrow> Inr (upd_seat i (\<lambda>s. s\<lparr>seat_state := Open\<rparr>) g, ec, 2)
      | Playing \<Rightarrow> Inr (upd_seat i (\<lambda>s. seat_clear (s\<lparr>seat_state := Leaving\<rparr>)) g, ec, 1)
      | st \<Rightarrow> if st = Leaving then Inr (g, Some Already_leaving, 0) else Inl Assert_failed)"

definition surrender :: "game \<Rightarrow> uptr \<Rightarrow> game \<times> int" where
  "surrender g u =
     (let i = find g u in
      if i = 0 then (g, - 1)
      else (upd_seat i (\<lambda>s. s\<lparr>seat_state := Open\<rparr>) g, 1))"

text \<open>\<^verbatim>\<open>wager\<close> and \<^verbatim>\<open>chips\<close> are of type \<^verbatim>\<open>int\<close>, and nothing limits the bets.\<close>

definition bet :: "game \<Rightarrow> uptr \<Rightarrow> bj_error option \<Rightarrow>
    (game \<times> bj_error option \<times> game_callback list) outcome" where
  "bet g u ec =
     (let i = find g u in
      if i = 0 then Inr (g, Some Not_playing, [])
      else if seat_state (seats g ! i) \<in> {Playing, Leaving} then
        if fits_int 32 (wager (seats g ! i) + 5) \<and> fits_int 32 (chips (seats g ! i) - 5)
        then Inr (upd_seat i (\<lambda>s. s\<lparr>wager := wager s + 5, chips := chips s - 5\<rparr>) g,
                  ec, [On_game_bet])
        else Inl Undefined
      else Inr (g, Some No_more_bets, []))"

text \<open>
  The index \<^verbatim>\<open>turn_++\<close> is unchecked; the position is wrapped after the card is dealt. When dealing
  throws, the exception leaves the strand and ends the process, so the game is not seen again.
\<close>

definition deal_one :: "game \<Rightarrow> rng \<Rightarrow> (game \<times> rng \<times> game_callback list) outcome" where
  "deal_one g rnd =
     (if turn g < length (seats g) \<and> hands (seats g ! turn g) \<noteq> [] then
        (case hand_deal (hands (seats g ! turn g) ! 0) (game_shoe g) rnd of
           Inl e \<Rightarrow> Inl e
         | Inr (h, sh, rnd') \<Rightarrow>
             (let t = Suc (turn g);
                  g' = (upd_seat (turn g) (\<lambda>s. s\<lparr>hands := (hands s)[0 := h]\<rparr>) g)\<lparr>game_shoe := sh\<rparr>
              in Inr (g'\<lparr>turn := (if t \<ge> length (seats g) then 0 else t)\<rparr>, rnd',
                      [On_game_deal_card])))
      else Inl Undefined)"

definition start :: "game \<Rightarrow> rng \<Rightarrow> bj_error option \<Rightarrow>
    (game \<times> rng \<times> bj_error option \<times> game_callback list) outcome" where
  "start g rnd ec =
     (case deal_one g rnd of
        Inl e \<Rightarrow> Inl e
      | Inr (g', rnd', cbs) \<Rightarrow> Inr (g', rnd', None, cbs))"

text \<open>The private \<^verbatim>\<open>insert\<close>: a seat for a user that waits. No caller uses it.\<close>

definition game_insert :: "game \<Rightarrow> uptr \<Rightarrow> game \<times> nat" where
  "game_insert g u =
     (case first_idx (\<lambda>s. seat_state s = Open) (seats g) of
        Some i \<Rightarrow> (upd_seat i (\<lambda>s. s\<lparr>seat_state := Waiting, seat_u := Some u\<rparr>) g, i)
      | None \<Rightarrow> (g, 0))"

fun seats_to_json :: "(uptr \<Rightarrow> string option) \<Rightarrow> seat list \<Rightarrow> json list outcome" where
  "seats_to_json uname [] = Inr []"
| "seats_to_json uname (s # ss) =
     (case seat_to_json uname s of
        Inl e \<Rightarrow> Inl e
      | Inr j \<Rightarrow> (case seats_to_json uname ss of Inl e \<Rightarrow> Inl e | Inr js \<Rightarrow> Inr (j # js)))"

definition game_to_json :: "(uptr \<Rightarrow> string option) \<Rightarrow> game \<Rightarrow> json outcome" where
  "game_to_json uname g =
     (let msg = (case game_s g of Wait \<Rightarrow> ''Waiting for players'' | Play \<Rightarrow> ''Playing'') in
      case seats_to_json uname (seats g) of
        Inl e \<Rightarrow> Inl e
      | Inr js \<Rightarrow> Inr (JObj [(''message'', JStr msg), (''seats'', JArr js)]))"

section \<open>The invariant of the table\<close>

definition seat_ok :: "seat \<Rightarrow> bool" where
  "seat_ok s \<longleftrightarrow>
     length (hands s) = 1 \<and> fits_int 32 (chips s) \<and> fits_int 32 (wager s) \<and>
     length (hand_cards (hands s ! 0)) \<le> 22 \<and> list_all valid_card (hand_cards (hands s ! 0)) \<and>
     (seat_state s = Dealer \<longrightarrow> seat_u s = None) \<and>
     (seat_state s \<noteq> Dealer \<and> seat_state s \<noteq> Open \<longrightarrow> seat_u s \<noteq> None)"

text \<open>Seat \<open>i\<close> is taken by user \<open>u\<close>: the test of \<^verbatim>\<open>find\<close>.\<close>

definition occ :: "game \<Rightarrow> nat \<Rightarrow> uptr \<Rightarrow> bool" where
  "occ g i u \<longleftrightarrow> i < length (seats g) \<and> seat_state (seats g ! i) \<noteq> Open \<and> seat_u (seats g ! i) = Some u"

definition unique_seats :: "game \<Rightarrow> bool" where
  "unique_seats g \<longleftrightarrow> (\<forall>i j u. occ g i u \<longrightarrow> occ g j u \<longrightarrow> i = j)"

definition game_ok :: "game \<Rightarrow> bool" where
  "game_ok g \<longleftrightarrow>
     length (seats g) = 6 \<and> turn g < 6 \<and> shoe_ok (game_shoe g) \<and> list_all seat_ok (seats g) \<and>
     (\<forall>i < 6. seat_state (seats g ! i) = Dealer \<longleftrightarrow> i = 0) \<and> unique_seats g"

lemma game_ok_length [simp]: "game_ok g \<Longrightarrow> length (seats g) = 6"
  by (simp add: game_ok_def)

lemma game_ok_seat: "game_ok g \<Longrightarrow> i < 6 \<Longrightarrow> seat_ok (seats g ! i)"
  by (auto simp: game_ok_def intro: list_all_nthD)

lemma game_ok_dealer: "game_ok g \<Longrightarrow> i < 6 \<Longrightarrow> seat_state (seats g ! i) = Dealer \<longleftrightarrow> i = 0"
  by (simp add: game_ok_def)

lemma game_ok_unique: "game_ok g \<Longrightarrow> occ g i u \<Longrightarrow> occ g j u \<Longrightarrow> i = j"
  unfolding game_ok_def unique_seats_def by blast

lemma occ_not_dealer:
  assumes "game_ok g" and "occ g i u"
  shows "i \<noteq> 0 \<and> i < 6 \<and> seat_state (seats g ! i) \<in> {Waiting, Playing, Leaving}"
proof -
  from assms have i: "i < 6" by (simp add: occ_def)
  with game_ok_seat [OF assms(1) i] assms(2) have "seat_state (seats g ! i) \<noteq> Dealer"
    by (auto simp: occ_def seat_ok_def)
  with i assms game_ok_dealer [OF assms(1) i] show ?thesis
    by (cases "seat_state (seats g ! i)") (auto simp: occ_def)
qed

lemma occ_find: "game_ok g \<Longrightarrow> occ g i u \<Longrightarrow> find g u = i"
proof -
  assume ok: "game_ok g" and occ: "occ g i u"
  let ?P = "\<lambda>s. seat_state s \<noteq> Open \<and> seat_u s = Some u"
  from occ obtain j where j: "first_idx ?P (seats g) = Some j"
    using first_idx_ex [of "seats g ! i" "seats g" ?P] by (auto simp: occ_def)
  from first_idx_SomeD [OF j] have "occ g j u" by (simp add: occ_def)
  with game_ok_unique [OF ok occ] j show "find g u = i" by (simp add: find_def)
qed

lemma find_occ:
  assumes "find g u \<noteq> 0"
  shows "occ g (find g u) u"
proof -
  let ?P = "\<lambda>s. seat_state s \<noteq> Open \<and> seat_u s = Some u"
  from assms obtain j where j: "first_idx ?P (seats g) = Some j" "find g u = j"
    by (auto simp: find_def split: option.splits)
  with first_idx_SomeD [OF j(1)] show ?thesis by (auto simp: occ_def)
qed

lemma find_eq_iff: "game_ok g \<Longrightarrow> i \<noteq> 0 \<Longrightarrow> find g u = i \<longleftrightarrow> occ g i u"
  using find_occ occ_find by blast

lemma find_0_iff: "game_ok g \<Longrightarrow> find g u = 0 \<longleftrightarrow> (\<forall>i. \<not> occ g i u)"
  using find_occ [of g u] occ_find [of g _ u] occ_not_dealer [of g _ u] by metis

lemma occ_upd_seat:
  "i < length (seats g) \<Longrightarrow> occ (upd_seat i f g) j u \<longleftrightarrow>
     (if j = i then seat_state (f (seats g ! i)) \<noteq> Open \<and> seat_u (f (seats g ! i)) = Some u
      else occ g j u)"
  by (auto simp: occ_def upd_seat_def)

lemma upd_seat_sel [simp]:
  "game_s (upd_seat i f g) = game_s g" "game_shoe (upd_seat i f g) = game_shoe g"
  "turn (upd_seat i f g) = turn g" "length (seats (upd_seat i f g)) = length (seats g)"
  by (simp_all add: upd_seat_def)

lemma nth_upd_seat:
  "i < length (seats g) \<Longrightarrow>
     seats (upd_seat i f g) ! j = (if j = i then f (seats g ! i) else seats g ! j)"
  by (simp add: upd_seat_def nth_list_update)

text \<open>The one argument behind every operation on a single seat.\<close>

lemma upd_seat_ok:
  assumes ok: "game_ok g" and i: "i < 6"
    and s: "seat_ok (f (seats g ! i))"
    and d: "seat_state (f (seats g ! i)) = Dealer \<longleftrightarrow> i = 0"
    and u: "\<And>u. seat_state (f (seats g ! i)) \<noteq> Open \<Longrightarrow> seat_u (f (seats g ! i)) = Some u \<Longrightarrow>
      occ g i u \<or> (\<forall>j. \<not> occ g j u)"
  shows "game_ok (upd_seat i f g)"
proof -
  from i ok have i': "i < length (seats g)" by simp
  have "unique_seats (upd_seat i f g)"
    using u game_ok_unique [OF ok]
    by (auto simp: unique_seats_def occ_upd_seat [OF i'] split: if_splits)
  moreover have "list_all seat_ok (seats (upd_seat i f g))"
    using ok s by (auto simp: game_ok_def upd_seat_def intro: list_all_update)
  ultimately show ?thesis
    using ok d i' by (simp add: game_ok_def nth_upd_seat)
qed

subsection \<open>Every operation keeps it\<close>

lemma nth_fresh_seats:
  "i < 6 \<Longrightarrow> fresh_seats mem ! i =
     (if i = 0 then (new_seat (mem 0))\<lparr>seat_state := Dealer\<rparr> else new_seat (mem i))"
  by (simp add: fresh_seats_def)

lemma new_seat_sel [simp]:
  "seat_u (new_seat x) = None" "seat_state (new_seat x) = Open" "hands (new_seat x) = [new_hand]"
  "chips (new_seat x) = signed_take_bit 31 x" "wager (new_seat x) = 0"
  by (simp_all add: new_seat_def)

lemma fits_32: "fits_int 32 0" "fits_int 32 1000" "fits_int 32 (signed_take_bit 31 x)"
  using fits_int_signed [of 31 x] by (simp_all add: fits_int_def)

lemma new_hand_cards [simp]: "hand_cards new_hand = []"
  by (simp add: new_hand_def)

lemma length_fresh_seats [simp]: "length (fresh_seats mem) = 6"
  by (simp add: fresh_seats_def)

lemma fresh_seats_unoccupied:
  assumes "seats g = fresh_seats mem"
  shows "\<not> occ g i u"
  using assms by (cases "i < 6") (auto simp: occ_def nth_fresh_seats)

lemma make_game_ok [lounge_inv]:
  assumes "1 \<le> decks" and "decks \<le> 6"
  shows "\<exists>g rnd'. make_game decks mem rnd = Inr (g, rnd') \<and> game_ok g \<and> turn g = 0 \<and>
    seats g = fresh_seats mem"
proof -
  obtain sh rnd' where sh: "make_shoe decks rnd = Inr (sh, rnd')" "shoe_ok sh"
    using make_shoe_ok [of decks rnd] assms by auto
  let ?g = "\<lparr>game_s = Wait, game_shoe = sh, seats = fresh_seats mem, turn = 0\<rparr>"
  have "list_all seat_ok (seats ?g)"
    by (auto simp: list_all_length seat_ok_def nth_fresh_seats fits_32)
  moreover have "unique_seats ?g"
    using fresh_seats_unoccupied [of ?g mem] by (auto simp: unique_seats_def)
  ultimately have "game_ok ?g"
    using sh(2) by (auto simp: game_ok_def nth_fresh_seats)
  with sh(1) assms show ?thesis by (simp add: make_game_def)
qed

lemma open_seat:
  assumes "game_ok g" and "first_idx (\<lambda>s. seat_state s = Open) (seats g) = Some i"
  shows "i < 6" and "i \<noteq> 0" and "seat_state (seats g ! i) = Open"
  using first_idx_SomeD [OF assms(2)] game_ok_dealer [OF assms(1), of i] assms(1) by auto

lemma join_ok [lounge_inv]: "game_ok g \<Longrightarrow> game_ok (fst (join g u ec))"
proof -
  assume ok: "game_ok g"
  show ?thesis
  proof (cases "find g u = 0")
    case False
    with ok show ?thesis by (simp add: join_def)
  next
    case True
    with find_0_iff [OF ok] have free: "\<forall>j. \<not> occ g j u" by simp
    show ?thesis
    proof (cases "first_idx (\<lambda>s. seat_state s = Open) (seats g)")
      case None
      with ok show ?thesis by (simp add: join_def)
    next
      case (Some i)
      from open_seat [OF ok Some] ok free
      have "game_ok (upd_seat i (\<lambda>s. s\<lparr>seat_u := Some u, seat_state := Playing\<rparr>) g)"
        using game_ok_seat [OF ok, of i] by (intro upd_seat_ok) (auto simp: seat_ok_def)
      with True Some show ?thesis by (simp add: join_def)
    qed
  qed
qed

text \<open>A change to an occupied seat that keeps its user.\<close>

lemma upd_occupied_ok:
  assumes ok: "game_ok g" and i: "find g u = i" "i \<noteq> 0"
    and f: "\<And>s. seat_ok s \<Longrightarrow> seat_state s \<noteq> Dealer \<Longrightarrow> seat_u s = Some u \<Longrightarrow>
      seat_ok (f s) \<and> seat_state (f s) \<noteq> Dealer \<and> seat_u (f s) = seat_u s"
  shows "game_ok (upd_seat i f g)"
proof -
  from i find_occ [of g u] have o: "occ g i u" by simp
  from occ_not_dealer [OF ok o] have i6: "i < 6" and nd: "seat_state (seats g ! i) \<noteq> Dealer"
    by auto
  from o have su: "seat_u (seats g ! i) = Some u" by (simp add: occ_def)
  from f [OF game_ok_seat [OF ok i6] nd su] su o i(2) i6 ok show ?thesis
    by (intro upd_seat_ok) auto
qed

lemma seat_clear_sel [simp]:
  "seat_state (seat_clear s) = seat_state s" "seat_u (seat_clear s) = seat_u s"
  "chips (seat_clear s) = 1000" "wager (seat_clear s) = 0"
  by (simp_all add: seat_clear_def)

lemma seat_clear_ok: "seat_ok s \<Longrightarrow> seat_ok (seat_clear s)"
  by (auto simp: seat_ok_def seat_clear_def hand_clear_def fits_32)

text \<open>The assertion of \<^verbatim>\<open>leave\<close> holds: the seat that \<^verbatim>\<open>find\<close> finds is neither open nor the dealer's.\<close>

lemma leave_returns:
  assumes ok: "game_ok g"
  obtains g' ec' n where "leave g u ec = Inr (g', ec', n)"
proof (cases "find g u = 0")
  case False
  from occ_not_dealer [OF ok find_occ [OF False]] that show ?thesis
    by (cases "seat_state (seats g ! find g u)") (auto simp: leave_def Let_def)
qed (use that in \<open>simp add: leave_def\<close>)

lemma leave_ok [lounge_inv]:
  assumes ok: "game_ok g" and l: "leave g u ec = Inr (g', ec', n)"
  shows "game_ok g'"
proof (cases "find g u = 0")
  case True
  with ok l show ?thesis by (simp add: leave_def)
next
  case False
  have "game_ok (upd_seat (find g u) (\<lambda>s. s\<lparr>seat_state := Open\<rparr>) g)"
    by (rule upd_occupied_ok [OF ok refl False]) (auto simp: seat_ok_def)
  moreover have "game_ok (upd_seat (find g u) (\<lambda>s. seat_clear (s\<lparr>seat_state := Leaving\<rparr>)) g)"
    by (rule upd_occupied_ok [OF ok refl False])
      (simp, rule seat_clear_ok, simp add: seat_ok_def)
  ultimately show ?thesis
    using ok l False by (auto simp: leave_def Let_def split: seat_state.splits)
qed

lemma surrender_ok [lounge_inv]:
  assumes ok: "game_ok g"
  shows "game_ok (fst (surrender g u))"
proof (cases "find g u = 0")
  case True
  with ok show ?thesis by (simp add: surrender_def)
next
  case False
  have "game_ok (upd_seat (find g u) (\<lambda>s. s\<lparr>seat_state := Open\<rparr>) g)"
    by (rule upd_occupied_ok [OF ok refl False]) (auto simp: seat_ok_def)
  with False show ?thesis by (simp add: surrender_def)
qed

text \<open>The bet of a player whose wager or chips are at the end of the range of an \<^verbatim>\<open>int\<close>.\<close>

definition bet_overflows :: "game \<Rightarrow> uptr \<Rightarrow> bool" where
  "bet_overflows g u \<longleftrightarrow>
     (\<exists>i. occ g i u \<and> seat_state (seats g ! i) \<in> {Playing, Leaving} \<and>
        (2 ^ 31 - 5 \<le> wager (seats g ! i) \<or> chips (seats g ! i) < 5 - 2 ^ 31))"

lemma bet_cases:
  assumes ok: "game_ok g"
  shows "bet g u ec =
    (if bet_overflows g u then Inl Undefined
     else if \<exists>i. occ g i u \<and> seat_state (seats g ! i) \<in> {Playing, Leaving}
     then Inr (upd_seat (find g u) (\<lambda>s. s\<lparr>wager := wager s + 5, chips := chips s - 5\<rparr>) g, ec, [On_game_bet])
     else Inr (g, Some (if find g u = 0 then Not_playing else No_more_bets), []))"
proof (cases "find g u = 0")
  case True
  with find_0_iff [OF ok, of u] show ?thesis by (simp add: bet_def bet_overflows_def)
next
  case False
  note o = find_occ [OF False]
  have i: "i = find g u" if "occ g i u" for i using occ_find [OF ok that] by simp
  have "seat_ok (seats g ! find g u)" using game_ok_seat [OF ok] occ_not_dealer [OF ok o] by blast
  then have "fits_int 32 (wager (seats g ! find g u) + 5) \<and> fits_int 32 (chips (seats g ! find g u) - 5) \<longleftrightarrow>
      \<not> (2 ^ 31 - 5 \<le> wager (seats g ! find g u) \<or> chips (seats g ! find g u) < 5 - 2 ^ 31)"
    by (auto simp: seat_ok_def fits_int_def)
  moreover have "bet_overflows g u \<longleftrightarrow> seat_state (seats g ! find g u) \<in> {Playing, Leaving} \<and>
      (2 ^ 31 - 5 \<le> wager (seats g ! find g u) \<or> chips (seats g ! find g u) < 5 - 2 ^ 31)"
    using o i unfolding bet_overflows_def by blast
  moreover have "(\<exists>i. occ g i u \<and> seat_state (seats g ! i) \<in> {Playing, Leaving}) \<longleftrightarrow>
      seat_state (seats g ! find g u) \<in> {Playing, Leaving}"
    using o i by blast
  ultimately show ?thesis using False unfolding bet_def Let_def by simp
qed

lemma bet_ok [lounge_inv]:
  assumes ok: "game_ok g" and b: "bet g u ec = Inr (g', ec', cbs)"
  shows "game_ok g'"
proof (cases "g' = g")
  case False
  with b have f: "find g u \<noteq> 0" and fit: "fits_int 32 (wager (seats g ! find g u) + 5)" "fits_int 32 (chips (seats g ! find g u) - 5)"
    and g': "g' = upd_seat (find g u) (\<lambda>s. s\<lparr>wager := wager s + 5, chips := chips s - 5\<rparr>) g"
    by (auto simp: bet_def Let_def split: if_splits)
  note o = find_occ [OF f]
  from occ_not_dealer [OF ok o] have i: "find g u < 6" and nd: "seat_state (seats g ! find g u) \<noteq> Dealer" by auto
  from o have "seat_u (seats g ! find g u) = Some u" by (simp add: occ_def)
  with game_ok_seat [OF ok i] fit nd f i o show ?thesis
    unfolding g' by (intro upd_seat_ok [OF ok]) (auto simp: seat_ok_def)
qed (use ok in simp)

text \<open>The hand the next card goes to.\<close>

abbreviation cards_at :: "game \<Rightarrow> nat \<Rightarrow> card list" where
  "cards_at g i \<equiv> hand_cards (hands (seats g ! i) ! 0)"

text \<open>The seats after a card went to one of them.\<close>

abbreviation give_card :: "card \<Rightarrow> seat \<Rightarrow> seat" where
  "give_card c s \<equiv>
     s\<lparr>hands := (hands s)[0 := (hands s ! 0)\<lparr>hand_cards := hand_cards (hands s ! 0) @ [c]\<rparr>]\<rparr>"

lemma give_card_ok:
  "seat_ok s \<Longrightarrow> valid_card c \<Longrightarrow> length (hand_cards (hands s ! 0)) < 22 \<Longrightarrow> seat_ok (give_card c s)"
  by (auto simp: seat_ok_def)

lemma next_turn: "t < 6 \<Longrightarrow> (if 6 \<le> Suc t then 0 else Suc t) = Suc t mod 6"
  by (auto simp: le_Suc_eq)

lemma game_ok_turn: "game_ok g \<Longrightarrow> turn g < 6"
  by (simp add: game_ok_def)

lemma game_ok_hands: "game_ok g \<Longrightarrow> i < 6 \<Longrightarrow> hands (seats g ! i) \<noteq> []"
  using game_ok_seat by (fastforce simp: seat_ok_def)

lemma deal_one_draws:
  assumes ok: "game_ok g" and "length (cards_at g (turn g)) < 22"
  obtains c s' rnd' where "valid_card c" and "shoe_ok s'"
    and "deal_one g rnd =
      Inr ((upd_seat (turn g) (give_card c) g)\<lparr>game_shoe := s', turn := Suc (turn g) mod 6\<rparr>,
           rnd', [On_game_deal_card])"
proof -
  from ok have sh: "shoe_ok (game_shoe g)" by (simp add: game_ok_def)
  from table_shoe.draw_ok [OF sh assms(2), of rnd] obtain c s' rnd' where
    "draw shoe_deal (cards_at g (turn g)) (game_shoe g) rnd =
       Inr (cards_at g (turn g) @ [c], s', rnd')" "valid_card c" "shoe_ok s'" by blast
  with that [of c s' rnd'] ok game_ok_turn [OF ok] game_ok_hands [OF ok, of "turn g"]
    next_turn [of "turn g"]
  show ?thesis
    by (simp add: deal_one_def hand_deal_def Let_def upd_seat_def)
qed

lemma occ_frame [simp]: "occ (g\<lparr>game_shoe := sh, turn := t\<rparr>) = occ g"
  by (intro ext) (simp add: occ_def)

lemma unique_seats_frame [simp]: "unique_seats (g\<lparr>game_shoe := sh, turn := t\<rparr>) = unique_seats g"
  unfolding unique_seats_def occ_frame ..

lemma deal_one_succeeds:
  assumes ok: "game_ok g" and len: "length (cards_at g (turn g)) < 22"
  shows "\<exists>g' rnd' c. deal_one g rnd = Inr (g', rnd', [On_game_deal_card]) \<and> game_ok g' \<and>
    turn g' = Suc (turn g) mod 6 \<and>
    (\<forall>i < 6. cards_at g' i = (if i = turn g then cards_at g i @ [c] else cards_at g i))"
proof -
  note t = game_ok_turn [OF ok]
  obtain c s' rnd' where c: "valid_card c" "shoe_ok s'" and d: "deal_one g rnd =
      Inr ((upd_seat (turn g) (give_card c) g)\<lparr>game_shoe := s', turn := Suc (turn g) mod 6\<rparr>,
           rnd', [On_game_deal_card])"
    using deal_one_draws [OF ok len] by blast
  have "game_ok (upd_seat (turn g) (give_card c) g)"
  proof (rule upd_seat_ok [OF ok t])
    show "seat_ok (give_card c (seats g ! turn g))"
      by (rule give_card_ok [OF game_ok_seat [OF ok t] c(1) len])
  qed (use game_ok_dealer [OF ok t] t ok in \<open>auto simp: occ_def\<close>)
  then have "game_ok ((upd_seat (turn g) (give_card c) g)\<lparr>game_shoe := s', turn := Suc (turn g) mod 6\<rparr>)"
    using c(2) by (simp add: game_ok_def)
  with d t ok game_ok_hands [OF ok] show ?thesis
    by (intro exI [of _ "(upd_seat (turn g) (give_card c) g)\<lparr>game_shoe := s', turn := Suc (turn g) mod 6\<rparr>"]
        exI [of _ rnd'] exI [of _ c]) (auto simp: nth_upd_seat)
qed

lemma deal_one_throws:
  assumes ok: "game_ok g" and "\<not> length (cards_at g (turn g)) < 22"
  shows "deal_one g rnd = Inl Length_error"
proof -
  from ok have "shoe_ok (game_shoe g)" by (simp add: game_ok_def)
  from table_shoe.draw_full [OF this assms(2)] ok game_ok_turn [OF ok]
    game_ok_hands [OF ok, of "turn g"]
  show ?thesis by (simp add: deal_one_def hand_deal_def)
qed

lemma start_cases:
  assumes "game_ok g"
  shows "start g rnd ec = Inl Length_error \<or>
    (\<exists>g' rnd'. start g rnd ec = Inr (g', rnd', None, [On_game_deal_card]) \<and> game_ok g')"
proof (cases "length (cards_at g (turn g)) < 22")
  case True
  with deal_one_succeeds [OF assms True, of rnd] show ?thesis by (auto simp: start_def)
next
  case False
  with deal_one_throws [OF assms False, of rnd] show ?thesis by (simp add: start_def)
qed

lemma start_ok [lounge_inv]:
  "game_ok g \<Longrightarrow> start g rnd ec = Inr (g', rnd', ec', cbs) \<Longrightarrow> game_ok g'"
  using start_cases [of g rnd ec] by auto

subsection \<open>Dealing round the table\<close>

text \<open>\<open>k\<close> calls of \<^verbatim>\<open>start\<close> in a row, as long as none of them throws.\<close>

fun starts :: "nat \<Rightarrow> game \<Rightarrow> rng \<Rightarrow> (game \<times> rng) outcome" where
  "starts 0 g rnd = Inr (g, rnd)"
| "starts (Suc k) g rnd =
     (case starts k g rnd of
        Inl e \<Rightarrow> Inl e
      | Inr (g', rnd') \<Rightarrow>
          (case start g' rnd' None of
             Inl e \<Rightarrow> Inl e
           | Inr (g'', rnd'', ec, cbs) \<Rightarrow> Inr (g'', rnd'')))"

lemma mult_6: "0 < x \<Longrightarrow> x < 12 \<Longrightarrow> x mod 6 = 0 \<longleftrightarrow> x = (6::nat)"
  by presburger

lemma round_robin_step:
  "i < 6 \<Longrightarrow> (Suc k + 5 - i) div 6 = (k + 5 - i) div 6 + (if k mod 6 = i then 1 else (0::nat))"
proof -
  assume i: "i < 6"
  have "(k + (6 - i)) mod 6 = (k mod 6 + (6 - i)) mod 6" by (simp add: mod_add_left_eq)
  moreover have "(k mod 6 + (6 - i)) mod 6 = 0 \<longleftrightarrow> k mod 6 = i"
    using mult_6 [of "k mod 6 + (6 - i)"] i mod_less_divisor [of 6 k] by auto
  moreover have "k + (6 - i) = Suc (k + 5 - i)" using i by simp
  ultimately have "Suc (k + 5 - i) mod 6 = 0 \<longleftrightarrow> k mod 6 = i" by simp
  moreover have "Suc k + 5 - i = Suc (k + 5 - i)" using i by simp
  ultimately show ?thesis by (simp add: div_Suc)
qed

lemma starts_round_robin:
  assumes ok: "game_ok g" and t: "turn g = 0" and e: "\<And>i. i < 6 \<Longrightarrow> cards_at g i = []"
  shows "k \<le> 132 \<Longrightarrow> \<exists>g' rnd'. starts k g rnd = Inr (g', rnd') \<and> game_ok g' \<and> turn g' = k mod 6 \<and>
    (\<forall>i < 6. length (cards_at g' i) = (k + 5 - i) div 6)"
proof (induction k)
  case 0
  with ok t e show ?case by auto
next
  case (Suc k)
  then obtain g' rnd' where g': "starts k g rnd = Inr (g', rnd')" "game_ok g'" "turn g' = k mod 6"
      "\<And>i. i < 6 \<Longrightarrow> length (cards_at g' i) = (k + 5 - i) div 6" by auto
  have "k + 5 - k mod 6 = 6 * (k div 6) + 5"
    using mult_div_mod_eq [of 6 k] by linarith
  with Suc.prems have "(k + 5 - k mod 6) div 6 < 22" by simp
  then have "length (cards_at g' (turn g')) < 22" using g'(3) g'(4) [of "k mod 6"] by simp
  from deal_one_succeeds [OF g'(2) this, of rnd'] obtain g'' rnd'' c where
    d: "deal_one g' rnd' = Inr (g'', rnd'', [On_game_deal_card])" "game_ok g''"
      "turn g'' = Suc (turn g') mod 6"
      "\<forall>i < 6. cards_at g'' i = (if i = turn g' then cards_at g' i @ [c] else cards_at g' i)"
    by blast
  have "length (cards_at g'' i) = (Suc k + 5 - i) div 6" if "i < 6" for i
    using that d(4) g'(3) g'(4) [OF that] round_robin_step [OF that, of k] by auto
  with g'(1,3) d(1-3) show ?case by (simp add: start_def mod_Suc_eq)
qed

lemma starts_error_stays: "starts k g rnd = Inl e \<Longrightarrow> starts (k + d) g rnd = Inl e"
  by (induction d) simp_all

lemma starts_overflow:
  assumes "game_ok g" and "turn g = 0" and "\<And>i. i < 6 \<Longrightarrow> cards_at g i = []" and "132 < k"
  shows "starts k g rnd = Inl Length_error"
proof -
  obtain g' rnd' where g': "starts 132 g rnd = Inr (g', rnd')" "game_ok g'" "turn g' = 0"
      "\<And>i. i < 6 \<Longrightarrow> length (cards_at g' i) = (132 + 5 - i) div 6"
    using starts_round_robin [OF assms(1-3), of 132 rnd] by auto
  from g'(3) g'(4) [of 0] have "deal_one g' rnd' = Inl Length_error"
    by (intro deal_one_throws [OF g'(2)]) simp
  then have "starts (Suc 132) g rnd = Inl Length_error"
    unfolding starts.simps(2) using g'(1) by (simp add: start_def)
  from starts_error_stays [OF this, of "k - Suc 132"] assms(4) show ?thesis by simp
qed

section \<open>The table as a seating plan\<close>

text \<open>
  The abstract view of the table: which user sits there and in which state. The plan holds at
  most five users. \<open>seating\<close> reads it off a game, and the specification of the four operations
  that change it does not mention seats at all.
\<close>

type_synonym plan = "uptr \<Rightarrow> seat_state option"

definition seating :: "game \<Rightarrow> plan" where
  "seating g u = (let i = find g u in if i = 0 then None else Some (seat_state (seats g ! i)))"

definition plan_join :: "plan \<Rightarrow> uptr \<Rightarrow> plan \<times> bj_error option" where
  "plan_join m u =
     (if m u \<noteq> None then (m, Some Already_playing)
      else if card (dom m) < 5 then (m(u \<mapsto> Playing), None)
      else (m, Some No_open_seat))"

fun plan_leave :: "plan \<Rightarrow> uptr \<Rightarrow> plan \<times> bj_error option" where
  "plan_leave m u =
     (case m u of
        None \<Rightarrow> (m, Some Not_playing)
      | Some Waiting \<Rightarrow> (m(u := None), None)
      | Some Playing \<Rightarrow> (m(u \<mapsto> Leaving), None)
      | _ \<Rightarrow> (m, Some Already_leaving))"

text \<open>What \<^verbatim>\<open>leave\<close> returns: 2 for a user that waited, 1 for one that played, 0 with an error.\<close>

fun plan_leave_code :: "seat_state option \<Rightarrow> int" where
  "plan_leave_code (Some Waiting) = 2"
| "plan_leave_code (Some Playing) = 1"
| "plan_leave_code _ = 0"

definition plan_surrender :: "plan \<Rightarrow> uptr \<Rightarrow> plan \<times> int" where
  "plan_surrender m u = (if m u = None then (m, - 1) else (m(u := None), 1))"

definition plan_bet :: "plan \<Rightarrow> uptr \<Rightarrow> bj_error option" where
  "plan_bet m u =
     (case m u of
        None \<Rightarrow> Some Not_playing
      | Some st \<Rightarrow> if st = Playing \<or> st = Leaving then None else Some No_more_bets)"

lemma seating_eq:
  assumes "game_ok g"
  shows "seating g u = Some st \<longleftrightarrow> (\<exists>i. occ g i u \<and> seat_state (seats g ! i) = st)"
  using find_0_iff [OF assms, of u] occ_find [OF assms, of _ u] find_occ [of g u]
  by (auto simp: seating_def Let_def)

lemma seating_None: "game_ok g \<Longrightarrow> seating g u = None \<longleftrightarrow> find g u = 0"
  by (simp add: seating_def Let_def)

lemma seating_occ: "game_ok g \<Longrightarrow> occ g i u \<Longrightarrow> seating g u = Some (seat_state (seats g ! i))"
  by (auto simp: seating_eq)

text \<open>A user's own seat decides its entry of the plan; a change elsewhere does not.\<close>

lemma seating_upd_other:
  assumes ok: "game_ok g" and ok': "game_ok (upd_seat i f g)" and i: "i < 6"
    and old: "\<not> occ g i v"
    and new: "seat_state (f (seats g ! i)) = Open \<or> seat_u (f (seats g ! i)) \<noteq> Some v"
  shows "seating (upd_seat i f g) v = seating g v"
proof -
  have i': "i < length (seats g)" using ok i by simp
  have "occ (upd_seat i f g) j v \<longleftrightarrow> occ g j v" for j
    using old new by (auto simp: occ_upd_seat [OF i'])
  moreover have "seat_state (seats (upd_seat i f g) ! j) = seat_state (seats g ! j)"
    if "occ g j v" for j
    using that old by (auto simp: nth_upd_seat [OF i'])
  ultimately have "seating (upd_seat i f g) v = Some st \<longleftrightarrow> seating g v = Some st" for st
    by (auto simp: seating_eq [OF ok] seating_eq [OF ok'])
  then show ?thesis by (metis not_Some_eq)
qed

lemma seating_upd:
  assumes ok: "game_ok g" and ok': "game_ok (upd_seat i f g)" and i: "i < 6"
    and own: "\<And>v. v \<noteq> u \<Longrightarrow> \<not> occ g i v"
    and new: "seat_state (f (seats g ! i)) \<noteq> Open \<Longrightarrow> seat_u (f (seats g ! i)) = Some u"
    and free: "\<And>j. occ g j u \<Longrightarrow> j = i"
  shows "seating (upd_seat i f g) =
    (seating g)(u := if seat_state (f (seats g ! i)) = Open then None
                     else Some (seat_state (f (seats g ! i))))"
proof -
  have i': "i < length (seats g)" using ok i by simp
  note o = occ_upd_seat [OF i', of f]
  have other: "seating (upd_seat i f g) v = seating g v" if "v \<noteq> u" for v
    using that own new by (intro seating_upd_other [OF ok ok' i]) auto
  have "seating (upd_seat i f g) u = (if seat_state (f (seats g ! i)) = Open then None
      else Some (seat_state (f (seats g ! i))))"
  proof (cases "seat_state (f (seats g ! i)) = Open")
    case True
    then have "\<forall>j. \<not> occ (upd_seat i f g) j u" using free by (auto simp: o)
    with True show ?thesis by (simp add: seating_None [OF ok'] find_0_iff [OF ok'])
  next
    case False
    with new have "occ (upd_seat i f g) i u" by (simp add: o)
    with False show ?thesis using seating_occ [OF ok'] i' by (simp add: nth_upd_seat)
  qed
  with other show ?thesis by (auto simp: fun_eq_iff)
qed

lemma seating_upd_own:
  assumes ok: "game_ok g" and o: "occ g i u" and ok': "game_ok (upd_seat i f g)"
    and new: "seat_state (f (seats g ! i)) \<noteq> Open \<Longrightarrow> seat_u (f (seats g ! i)) = Some u"
  shows "seating (upd_seat i f g) =
    (seating g)(u := if seat_state (f (seats g ! i)) = Open then None
                     else Some (seat_state (f (seats g ! i))))"
proof (rule seating_upd [OF ok ok'])
  show "i < 6" using occ_not_dealer [OF ok o] by simp
  show "\<not> occ g i v" if "v \<noteq> u" for v using that o by (simp add: occ_def)
  show "j = i" if "occ g j u" for j by (rule game_ok_unique [OF ok that o])
qed (rule new)

text \<open>The plan is full exactly when no seat is open.\<close>

lemma card_seating:
  assumes ok: "game_ok g"
  shows "card (dom (seating g)) = card {i. 0 < i \<and> i < 6 \<and> seat_state (seats g ! i) \<noteq> Open}"
    (is "_ = card ?I")
proof -
  let ?f = "\<lambda>i. the (seat_u (seats g ! i))"
  have occ: "occ g i (?f i)" if "i \<in> ?I" for i
    using that ok game_ok_seat [OF ok, of i] game_ok_dealer [OF ok, of i]
    by (auto simp: occ_def seat_ok_def)
  have "dom (seating g) = ?f ` ?I"
  proof (intro set_eqI iffI)
    fix u assume "u \<in> dom (seating g)"
    then obtain i where i: "occ g i u" by (auto simp: seating_eq [OF ok])
    with occ_not_dealer [OF ok i] have "i \<in> ?I" "?f i = u" by (auto simp: occ_def)
    then show "u \<in> ?f ` ?I" by blast
  next
    fix u assume "u \<in> ?f ` ?I"
    with occ show "u \<in> dom (seating g)" by (auto simp: domIff seating_eq [OF ok])
  qed
  moreover have "inj_on ?f ?I"
  proof (rule inj_onI)
    fix i j assume "i \<in> ?I" "j \<in> ?I" "?f i = ?f j"
    then show "i = j" using game_ok_unique [OF ok occ [of i], of j] occ [of j] by simp
  qed
  ultimately show ?thesis by (simp add: card_image)
qed

lemma taken_subset: "{i. 0 < i \<and> i < 6 \<and> P i} \<subseteq> {1..<6::nat}"
  by auto

lemma taken_full: "{i. 0 < i \<and> i < 6 \<and> P i} = {1..<6::nat} \<longleftrightarrow> card {i. 0 < i \<and> i < 6 \<and> P i} = 5"
    (is "?A = ?B \<longleftrightarrow> _")
proof
  assume "?A = ?B"
  then have "card ?A = card ?B" by (rule arg_cong)
  then show "card ?A = 5" by simp
next
  assume "card ?A = 5"
  then show "?A = ?B" by (intro card_subset_eq) auto
qed

lemma card_seating_le: "game_ok g \<Longrightarrow> card (dom (seating g)) \<le> 5"
  using card_mono [OF _ taken_subset [of "\<lambda>i. seat_state (seats g ! i) \<noteq> Open"]]
  by (simp add: card_seating)

lemma open_seat_iff:
  assumes ok: "game_ok g"
  shows "first_idx (\<lambda>s. seat_state s = Open) (seats g) = None \<longleftrightarrow> \<not> card (dom (seating g)) < 5"
proof -
  let ?I = "{i. 0 < i \<and> i < 6 \<and> seat_state (seats g ! i) \<noteq> Open}"
  have d: "seat_state (seats g ! 0) = Dealer" using game_ok_dealer [OF ok, of 0] by simp
  have "first_idx (\<lambda>s. seat_state s = Open) (seats g) = None \<longleftrightarrow>
      (\<forall>i < 6. seat_state (seats g ! i) \<noteq> Open)"
    using ok by (simp add: first_idx_None_iff all_set_conv_all_nth)
  also have "\<dots> \<longleftrightarrow> {1..<6} \<subseteq> ?I"
    using d by (auto simp: subset_iff Suc_le_eq) (metis gr0I seat_state.distinct(7))
  also have "\<dots> \<longleftrightarrow> ?I = {1..<6}"
    using taken_subset [of "\<lambda>i. seat_state (seats g ! i) \<noteq> Open"] by blast
  also have "\<dots> \<longleftrightarrow> card ?I = 5"
    by (rule taken_full)
  also have "\<dots> \<longleftrightarrow> \<not> card (dom (seating g)) < 5"
    using card_seating [OF ok] card_seating_le [OF ok] by linarith
  finally show ?thesis .
qed

subsection \<open>The operations implement the plan\<close>

lemma join_plan:
  assumes ok: "game_ok g"
  shows "seating (fst (join g u ec)) = fst (plan_join (seating g) u)"
    and "fst (snd (join g u ec)) = snd (plan_join (seating g) u)"
proof -
  have "seating (fst (join g u ec)) = fst (plan_join (seating g) u) \<and>
    fst (snd (join g u ec)) = snd (plan_join (seating g) u)"
  proof (cases "find g u = 0")
    case False
    then show ?thesis by (simp add: join_def plan_join_def seating_def)
  next
    case True
    then have n: "seating g u = None" by (simp add: seating_None [OF ok])
    show ?thesis
    proof (cases "first_idx (\<lambda>s. seat_state s = Open) (seats g)")
      case None
      with True n show ?thesis using open_seat_iff [OF ok] by (simp add: join_def plan_join_def)
    next
      case (Some i)
      let ?f = "\<lambda>s. s\<lparr>seat_u := Some u, seat_state := Playing\<rparr>"
      have ok': "game_ok (upd_seat i ?f g)"
        using join_ok [OF ok, of u ec] True Some by (simp add: join_def)
      have "seating (upd_seat i ?f g) = (seating g)(u \<mapsto> Playing)"
        using open_seat [OF ok Some] True find_0_iff [OF ok, of u]
        by (subst seating_upd [OF ok ok', of u]) (auto simp: occ_def)
      with True n Some show ?thesis using open_seat_iff [OF ok] by (simp add: join_def plan_join_def)
    qed
  qed
  then show "seating (fst (join g u ec)) = fst (plan_join (seating g) u)"
    and "fst (snd (join g u ec)) = snd (plan_join (seating g) u)" by auto
qed

lemma leave_plan:
  assumes ok: "game_ok g"
  shows "\<exists>g'. leave g u None = Inr (g', snd (plan_leave (seating g) u), plan_leave_code (seating g u)) \<and>
    seating g' = fst (plan_leave (seating g) u) \<and> game_ok g'"
proof (cases "find g u = 0")
  case True
  with ok show ?thesis by (simp add: leave_def seating_def)
next
  case False
  note o = find_occ [OF False]
  note s = seating_occ [OF ok o] and st = occ_not_dealer [OF ok o]
  from o have u: "seat_u (seats g ! find g u) = Some u" by (simp add: occ_def)
  have "seating (upd_seat (find g u) f g) = (seating g)(u := if seat_state (f (seats g ! find g u)) = Open
      then None else Some (seat_state (f (seats g ! find g u))))"
    if "game_ok (upd_seat (find g u) f g)" "\<And>s. seat_u (f s) = seat_u s" for f
    using that u by (intro seating_upd_own [OF ok o]) auto
  from this [of "\<lambda>s. s\<lparr>seat_state := Open\<rparr>"] this [of "\<lambda>s. seat_clear (s\<lparr>seat_state := Leaving\<rparr>)"]
  show ?thesis
    using leave_ok [OF ok, of u None] ok False s st
    by (cases "seat_state (seats g ! find g u)") (simp_all add: leave_def Let_def)
qed

lemma surrender_plan:
  assumes ok: "game_ok g"
  shows "seating (fst (surrender g u)) = fst (plan_surrender (seating g) u) \<and>
    snd (surrender g u) = snd (plan_surrender (seating g) u)"
proof (cases "find g u = 0")
  case True
  then show ?thesis by (simp add: surrender_def plan_surrender_def seating_def)
next
  case False
  note o = find_occ [OF False]
  have "game_ok (upd_seat (find g u) (\<lambda>s. s\<lparr>seat_state := Open\<rparr>) g)"
    using surrender_ok [OF ok, of u] False by (simp add: surrender_def)
  from seating_upd_own [OF ok o this] False seating_occ [OF ok o] show ?thesis
    by (simp add: surrender_def plan_surrender_def)
qed

lemma bet_plan:
  assumes ok: "game_ok g"
  shows "if bet_overflows g u then bet g u None = Inl Undefined
    else \<exists>g'. bet g u None = Inr (g', plan_bet (seating g) u, if plan_bet (seating g) u = None then [On_game_bet] else []) \<and>
      seating g' = seating g \<and> game_ok g'"
proof (cases "\<not> bet_overflows g u \<and> (\<exists>i. occ g i u \<and> seat_state (seats g ! i) \<in> {Playing, Leaving})")
  case True
  then obtain i where o: "occ g i u" and st: "seat_state (seats g ! i) \<in> {Playing, Leaving}" by blast
  let ?g = "upd_seat i (\<lambda>s. s\<lparr>wager := wager s + 5, chips := chips s - 5\<rparr>) g"
  have b: "bet g u None = Inr (?g, None, [On_game_bet])"
    using True by (simp add: bet_cases [OF ok] occ_find [OF ok o])
  from bet_ok [OF ok b] have ok': "game_ok ?g" .
  have "seating ?g = seating g"
    using seating_upd_own [OF ok o ok'] o seating_occ [OF ok o] by (auto simp: occ_def fun_eq_iff)
  moreover have "plan_bet (seating g) u = None"
    using seating_occ [OF ok o] st by (auto simp: plan_bet_def)
  ultimately show ?thesis using True b ok' by simp
next
  case False
  have "plan_bet (seating g) u = Some (if find g u = 0 then Not_playing else No_more_bets)"
    if "\<not> (\<exists>i. occ g i u \<and> seat_state (seats g ! i) \<in> {Playing, Leaving})"
    using that find_occ [of g u] by (auto simp: plan_bet_def seating_def Let_def)
  with False ok show ?thesis by (auto simp: bet_cases [OF ok])
qed

lemma join_seat:
  assumes ok: "game_ok g"
  shows "snd (snd (join g u ec)) = (if fst (snd (join g u ec)) = None then find (fst (join g u ec)) u else 0)"
proof (cases "find g u = 0 \<and> first_idx (\<lambda>s. seat_state s = Open) (seats g) \<noteq> None")
  case True
  then obtain i where i: "first_idx (\<lambda>s. seat_state s = Open) (seats g) = Some i" and f: "find g u = 0" by blast
  from open_seat [OF ok i] ok have "i < length (seats g)" by simp
  then have "occ (fst (join g u ec)) i u" using i f by (simp add: join_def occ_upd_seat)
  from occ_find [OF join_ok [OF ok] this] i f show ?thesis by (simp add: join_def)
qed (auto simp: join_def split: option.splits)

lemma start_plan:
  assumes ok: "game_ok g" and st: "start g rnd ec = Inr (g', rnd', ec', cbs)"
  shows "seating g' = seating g"
proof -
  have len: "length (cards_at g (turn g)) < 22"
    using deal_one_throws [OF ok, of rnd] st by (cases ?thesis) (simp_all add: start_def)
  obtain c s' rnd1 where "deal_one g rnd =
      Inr ((upd_seat (turn g) (give_card c) g)\<lparr>game_shoe := s', turn := Suc (turn g) mod 6\<rparr>,
           rnd1, [On_game_deal_card])"
    by (rule deal_one_draws [OF ok len])
  with st have g': "g' = (upd_seat (turn g) (give_card c) g)\<lparr>game_shoe := s', turn := Suc (turn g) mod 6\<rparr>"
    by (simp add: start_def)
  have t: "turn g < length (seats g)" using ok game_ok_turn by simp
  have "seat_state (seats g' ! i) = seat_state (seats g ! i)" for i
    using t by (simp add: g' nth_upd_seat)
  moreover have "occ g' i u \<longleftrightarrow> occ g i u" for i u
    using t by (simp add: g' occ_upd_seat) (auto simp: occ_def)
  ultimately have "seating g' u = Some x \<longleftrightarrow> seating g u = Some x" for u x
    using start_ok [OF ok st] by (simp add: seating_eq ok)
  then show ?thesis by (intro ext) (metis not_Some_eq)
qed

lemma start_exact:
  assumes ok: "game_ok g"
  shows "if length (cards_at g (turn g)) = 22 then start g rnd ec = Inl Length_error
    else \<exists>g' rnd'. start g rnd ec = Inr (g', rnd', None, [On_game_deal_card]) \<and> seating g' = seating g \<and> game_ok g'"
proof (cases "length (cards_at g (turn g)) < 22")
  case True
  from deal_one_succeeds [OF ok True, of rnd] obtain g' rnd' where
    s: "start g rnd ec = Inr (g', rnd', None, [On_game_deal_card])" and "game_ok g'" by (auto simp: start_def)
  with start_plan [OF ok s] True show ?thesis by auto
next
  case False
  with game_ok_seat [OF ok game_ok_turn [OF ok]] have "length (cards_at g (turn g)) = 22" by (simp add: seat_ok_def)
  with deal_one_throws [OF ok False, of rnd] show ?thesis by (simp add: start_def)
qed

section \<open>Two evaluations of a hand\<close>

lemma raw_tally_eq:
  "list_all (\<lambda>c. 1 \<le> c \<and> c \<le> 10) cs \<Longrightarrow> raw_tally cs aces tot = tally cs aces tot"
proof (induction cs arbitrary: aces tot)
  case (Cons c cs)
  then have "card_value c = c"
    by (subst card_value_valid) (auto simp: valid_card_def)
  with Cons show ?case by (simp add: Let_def)
qed simp

section \<open>The contract of a seating plan\<close>

text \<open>
  What the table relies on when it seats users: the three operations act on an abstract plan as
  specified and keep the invariant. The consequences for a user's visit are proved from the plan
  alone.
\<close>

locale seating_plan =
  fixes inv :: "'g \<Rightarrow> bool"
    and plan :: "'g \<Rightarrow> plan"
    and sit :: "'g \<Rightarrow> uptr \<Rightarrow> 'g \<times> bj_error option"
    and stand_up :: "'g \<Rightarrow> uptr \<Rightarrow> 'g \<times> bj_error option"
    and give_up :: "'g \<Rightarrow> uptr \<Rightarrow> 'g"
  assumes sit_inv: "inv g \<Longrightarrow> inv (fst (sit g u))"
    and stand_inv: "inv g \<Longrightarrow> inv (fst (stand_up g u))"
    and give_inv: "inv g \<Longrightarrow> inv (give_up g u)"
    and sit_plan: "inv g \<Longrightarrow> (plan (fst (sit g u)), snd (sit g u)) = plan_join (plan g) u"
    and stand_plan: "inv g \<Longrightarrow> (plan (fst (stand_up g u)), snd (stand_up g u)) = plan_leave (plan g) u"
    and give_plan: "inv g \<Longrightarrow> plan (give_up g u) = fst (plan_surrender (plan g) u)"
begin

lemma sit_twice:
  assumes "inv g" and "snd (sit g u) = None"
  shows "snd (sit (fst (sit g u)) u) = Some Already_playing"
  using sit_plan [OF assms(1), of u] sit_plan [OF sit_inv [OF assms(1)], of u u] assms(2)
  by (auto simp: plan_join_def split: if_splits)

lemma sit_after_standing:
  assumes "inv g" and "snd (sit g u) = None"
  shows "let g1 = fst (sit g u); g2 = fst (stand_up g1 u)
    in snd (stand_up g1 u) = None \<and> plan g2 u = Some Leaving \<and> snd (sit g2 u) = Some Already_playing"
proof -
  let ?g1 = "fst (sit g u)"
  let ?g2 = "fst (stand_up ?g1 u)"
  have i1: "inv ?g1" and i2: "inv ?g2" using assms(1) by (simp_all add: sit_inv stand_inv)
  have "plan ?g1 u = Some Playing"
    using sit_plan [OF assms(1), of u] assms(2) by (auto simp: plan_join_def split: if_splits)
  with stand_plan [OF i1, of u] have "snd (stand_up ?g1 u) = None" "plan ?g2 u = Some Leaving"
    by auto
  with sit_plan [OF i2, of u] show ?thesis by (simp add: plan_join_def Let_def)
qed

lemma give_up_frees:
  assumes "inv g" and "plan g u \<noteq> None" and "finite (dom (plan g))" and "card (dom (plan g)) \<le> 5"
    and "plan g v = None"
  shows "snd (sit (give_up g u) v) = None"
proof -
  have "plan (give_up g u) = (plan g)(u := None)"
    using give_plan [OF assms(1), of u] assms(2) by (simp add: plan_surrender_def)
  moreover have "card (dom (plan g) - {u}) < card (dom (plan g))"
    using assms(2,3) by (intro card_Diff1_less) auto
  ultimately show ?thesis
    using sit_plan [OF give_inv [OF assms(1)], of u v] assms(4,5)
    by (auto simp: plan_join_def split: if_splits)
qed

end

interpretation bj: seating_plan game_ok seating
  "\<lambda>g u. (fst (join g u None), fst (snd (join g u None)))"
  "\<lambda>g u. case leave g u None of Inr (g', ec, n) \<Rightarrow> (g', ec) | Inl e \<Rightarrow> (g, None)"
  "\<lambda>g u. fst (surrender g u)"
proof
  fix g u
  assume ok: "game_ok g"
  from leave_plan [OF ok, of u] obtain g' where
    l: "leave g u None = Inr (g', snd (plan_leave (seating g) u), plan_leave_code (seating g u))"
      "seating g' = fst (plan_leave (seating g) u)" "game_ok g'" by blast
  from l show "game_ok (fst (case leave g u None of Inr (g', ec, n) \<Rightarrow> (g', ec) | Inl e \<Rightarrow> (g, None)))" by simp
  from l show "(seating (fst (case leave g u None of Inr (g', ec, n) \<Rightarrow> (g', ec) | Inl e \<Rightarrow> (g, None))),
      snd (case leave g u None of Inr (g', ec, n) \<Rightarrow> (g', ec) | Inl e \<Rightarrow> (g, None))) = plan_leave (seating g) u"
    by (simp del: plan_leave.simps)
qed (simp_all add: join_ok surrender_ok join_plan surrender_plan)

section \<open>Reachable games\<close>

text \<open>Every game the table can get to: any operation, by any user, with any random draws.\<close>

inductive game_reach :: "game \<Rightarrow> bool" where
  fresh: "make_game decks mem rnd = Inr (g, rnd') \<Longrightarrow> game_reach g"
| joins: "game_reach g \<Longrightarrow> game_reach (fst (join g u ec))"
| leaves: "game_reach g \<Longrightarrow> leave g u ec = Inr (g', ec', n) \<Longrightarrow> game_reach g'"
| surrenders: "game_reach g \<Longrightarrow> game_reach (fst (surrender g u))"
| bets: "game_reach g \<Longrightarrow> bet g u ec = Inr (g', ec', cbs) \<Longrightarrow> game_reach g'"
| deals: "game_reach g \<Longrightarrow> start g rnd ec = Inr (g', rnd', ec', cbs) \<Longrightarrow> game_reach g'"

lemma game_reach_ok: "game_reach g \<Longrightarrow> game_ok g"
proof (induction rule: game_reach.induct)
  case (fresh decks mem rnd g rnd')
  then have "1 \<le> decks" "decks \<le> 6" by (auto simp: make_game_def split: sum.splits if_splits)
  with fresh make_game_ok [of decks mem rnd] show ?case by auto
qed (auto intro: lounge_inv)

lemma finite_seating: "game_ok g \<Longrightarrow> finite (dom (seating g))"
proof -
  assume ok: "game_ok g"
  have "dom (seating g) \<subseteq> (\<lambda>i. the (seat_u (seats g ! i))) ` {..<6}"
    using ok by (force simp: seating_eq occ_def)
  then show ?thesis by (rule finite_subset) simp
qed

lemma game_ok_fresh:
  assumes "seats g = fresh_seats mem" and "turn g < 6" and "shoe_ok (game_shoe g)"
  shows "game_ok g"
proof -
  have "list_all seat_ok (seats g)"
    using assms(1) by (auto simp: list_all_length seat_ok_def nth_fresh_seats fits_32)
  moreover have "unique_seats g"
    using fresh_seats_unoccupied [OF assms(1)] by (auto simp: unique_seats_def)
  ultimately show ?thesis
    using assms by (auto simp: game_ok_def nth_fresh_seats)
qed

text \<open>The game of a table with one deck before anybody came, for the closed instances below.\<close>

definition sample_game :: game where
  "sample_game =
     \<lparr>game_s = Wait, game_shoe = \<lparr>shoe_cards = fill_cards 52, shoe_pos = 0\<rparr>,
      seats = fresh_seats (\<lambda>_. 0), turn = 0\<rparr>"

lemma sample_shoe_ok: "shoe_ok \<lparr>shoe_cards = fill_cards 52, shoe_pos = n\<rparr> \<longleftrightarrow> n \<le> 52"
  by (auto simp: shoe_ok_def)

lemma sample_game_ok: "game_ok sample_game"
  by (rule game_ok_fresh) (auto simp: sample_game_def sample_shoe_ok)

section \<open>Properties\<close>

text \<open>
  C2: \<^verbatim>\<open>join\<close>, \<^verbatim>\<open>leave\<close>, \<^verbatim>\<open>surrender\<close>, \<^verbatim>\<open>bet\<close> and \<^verbatim>\<open>start\<close> implement the seating plan. On every
  well-formed game \<^verbatim>\<open>join\<close>, \<^verbatim>\<open>leave\<close> and \<^verbatim>\<open>surrender\<close> have exactly the effect on who sits at the
  table, and the error and the result, that the plan of at most five users prescribes, and the assertion
  in \<^verbatim>\<open>leave\<close> holds. \<^verbatim>\<open>bet\<close> and \<^verbatim>\<open>start\<close> leave the plan as it is: \<^verbatim>\<open>bet\<close> gives the error that the
  plan prescribes and reports a bet when there is none, but is undefined when it takes the wager or the
  chips out of the range of an \<^verbatim>\<open>int\<close>; \<^verbatim>\<open>start\<close> sets no error and reports a card, but throws \<^verbatim>\<open>length_error\<close> exactly
  when the hand whose turn it is holds 22 cards.
\<close>

theorem game_refines_plan:
  assumes "game_ok g"
  shows "(seating (fst (join g u None)), fst (snd (join g u None))) = plan_join (seating g) u \<and>
    snd (snd (join g u None)) = (if snd (plan_join (seating g) u) = None then find (fst (join g u None)) u else 0) \<and>
    (\<exists>g'. leave g u None = Inr (g', snd (plan_leave (seating g) u), plan_leave_code (seating g u)) \<and>
       seating g' = fst (plan_leave (seating g) u) \<and> game_ok g') \<and>
    (seating (fst (surrender g u)), snd (surrender g u)) = plan_surrender (seating g) u \<and>
    (if bet_overflows g u then bet g u None = Inl Undefined
     else \<exists>g'. bet g u None = Inr (g', plan_bet (seating g) u, if plan_bet (seating g) u = None then [On_game_bet] else []) \<and>
       seating g' = seating g \<and> game_ok g') \<and>
    (if length (cards_at g (turn g)) = 22 then start g rnd None = Inl Length_error
     else \<exists>g' rnd'. start g rnd None = Inr (g', rnd', None, [On_game_deal_card]) \<and> seating g' = seating g \<and> game_ok g')"
proof (intro conjI)
  show "snd (snd (join g u None)) = (if snd (plan_join (seating g) u) = None then find (fst (join g u None)) u else 0)"
    using join_seat [OF assms, of u None] by (simp add: join_plan [OF assms])
  show "if length (cards_at g (turn g)) = 22 then start g rnd None = Inl Length_error
     else \<exists>g' rnd'. start g rnd None = Inr (g', rnd', None, [On_game_deal_card]) \<and> seating g' = seating g \<and> game_ok g'"
    by (rule start_exact [OF assms])
qed (rule leave_plan [OF assms] bet_plan [OF assms]
    | simp add: join_plan surrender_plan assms prod_eq_iff del: plan_leave.simps)+

theorem game_refines_plan_witness:
  "(seating (fst (join sample_game 7 None)), fst (snd (join sample_game 7 None))) =
     plan_join (seating sample_game) 7"
  using game_refines_plan [OF sample_game_ok, of 7] by blast

text \<open>
  Every game the table can reach is well formed: six seats with the dealer's at index 0 and
  only there, no user in two seats, at most five users, every hand within its storage and made of
  cards of a deck, the turn in range and the shoe holding whole decks.
\<close>

theorem reachable_games_ok:
  assumes "game_reach g"
  shows "game_ok g \<and> card (dom (seating g)) \<le> 5"
  using game_reach_ok [OF assms] card_seating_le by blast

theorem reachable_games_ok_witness:
  "\<exists>g rnd'. make_game 1 (\<lambda>_. 0) (\<lambda>_. 0) = Inr (g, rnd') \<and>
     game_ok (fst (join g 7 None)) \<and> card (dom (seating (fst (join g 7 None)))) \<le> 5"
proof -
  obtain g rnd' where g: "make_game 1 (\<lambda>_. 0) (\<lambda>_. 0) = Inr (g, rnd')"
    using make_game_ok [of 1 "\<lambda>_. 0" "\<lambda>_. 0"] by auto
  then have "game_reach g" by (rule game_reach.fresh)
  from reachable_games_ok [OF game_reach.joins [OF this], of 7 None] g show ?thesis by blast
qed

text \<open>
  C36: cards go round the table and nothing ever takes them back: on a fresh game the first 132
  calls of \<^verbatim>\<open>start\<close> succeed and give seat \<open>i\<close> its share \<open>(k + 5 - i) div 6\<close>, and every longer
  sequence ends with a \<^verbatim>\<open>length_error\<close> from the full \<^verbatim>\<open>static_string<22>\<close>.
\<close>

theorem start_overflows_after_132:
  assumes "game_ok g" and "seats g = fresh_seats mem" and "turn g = 0"
  shows "(k \<le> 132 \<longrightarrow> (\<exists>g' rnd'. starts k g rnd = Inr (g', rnd') \<and>
      (\<forall>i < 6. length (cards_at g' i) = (k + 5 - i) div 6))) \<and>
    (132 < k \<longrightarrow> starts k g rnd = Inl Length_error)"
proof -
  have e: "cards_at g i = []" if "i < 6" for i
    using assms(2) that by (auto simp: nth_fresh_seats)
  show ?thesis
    using starts_round_robin [OF assms(1,3) e, of k rnd] starts_overflow [OF assms(1,3) e, of k rnd]
    by blast
qed

theorem start_overflows_after_132_witness: "starts 133 sample_game (\<lambda>_. 0) = Inl Length_error"
  using start_overflows_after_132 [OF sample_game_ok, of "\<lambda>_. 0" 133 "\<lambda>_. 0"]
  by (simp add: sample_game_def)

text \<open>
  A player who asks to watch is stuck: after a successful \<^verbatim>\<open>join\<close>, \<^verbatim>\<open>leave\<close> succeeds and
  marks the seat as leaving, and no further \<^verbatim>\<open>join\<close> of that user can succeed, because nothing but
  \<^verbatim>\<open>surrender\<close> gives the seat up.
\<close>

theorem rejoin_after_leave_fails:
  assumes "game_ok g" and "fst (snd (join g u None)) = None"
  shows "\<exists>g2 n. leave (fst (join g u None)) u None = Inr (g2, None, n) \<and> seating g2 u = Some Leaving \<and>
    fst (snd (join g2 u None)) = Some Already_playing"
proof -
  obtain g2 ec n where l: "leave (fst (join g u None)) u None = Inr (g2, ec, n)"
    by (rule leave_returns [OF join_ok [OF assms(1)]])
  with bj.sit_after_standing [of g u] assms show ?thesis by simp
qed

theorem rejoin_after_leave_fails_witness:
  "\<exists>g2 n. leave (fst (join sample_game 7 None)) 7 None = Inr (g2, None, n) \<and> seating g2 7 = Some Leaving"
proof -
  have "fst (snd (join sample_game 7 None)) = None"
    by code_simp
  from rejoin_after_leave_fails [OF sample_game_ok this] show ?thesis by blast
qed

text \<open>
  Giving a seat up always makes room: after the \<^verbatim>\<open>surrender\<close> of a seated user, any user that
  is not at the table can \<^verbatim>\<open>join\<close>, whatever the number of players before.
\<close>

theorem surrender_makes_room:
  assumes "game_ok g" and "seating g u \<noteq> None" and "seating g v = None"
  shows "fst (snd (join (fst (surrender g u)) v None)) = None"
  using bj.give_up_frees [of g u v] assms finite_seating card_seating_le by simp

theorem surrender_makes_room_witness:
  "fst (snd (join (fst (surrender (fst (join sample_game 7 None)) 7)) 8 None)) = None"
proof (rule surrender_makes_room)
  show "game_ok (fst (join sample_game 7 None))" by (rule join_ok [OF sample_game_ok])
  show "seating (fst (join sample_game 7 None)) 7 \<noteq> None" by code_simp
  show "seating (fst (join sample_game 7 None)) 8 = None" by code_simp
qed

text \<open>
  A \<^verbatim>\<open>bet\<close> of a user that plays (or is leaving) moves five chips from its stack to its wager,
  reports exactly one bet to the callback, sets no error and changes nothing else at the table, as
  long as both numbers stay within an \<^verbatim>\<open>int\<close>.
\<close>

theorem bet_moves_five_chips:
  assumes "game_ok g" and "seating g u = Some st" and "st = Playing \<or> st = Leaving" and "\<not> bet_overflows g u"
  shows "let i = find g u in
    bet g u None = Inr (g\<lparr>seats := (seats g)[i := (seats g ! i)\<lparr>wager := wager (seats g ! i) + 5,
      chips := chips (seats g ! i) - 5\<rparr>]\<rparr>, None, [On_game_bet])"
proof -
  from assms(1,2) have f: "find g u \<noteq> 0" by (auto simp: seating_def Let_def split: if_splits)
  from find_occ [OF f] assms(1,2) have "seat_state (seats g ! find g u) = st" and "find g u < 6"
    using f by (simp_all add: seating_def Let_def occ_def)
  with find_occ [OF f] assms(3) have "\<exists>i. occ g i u \<and> seat_state (seats g ! i) \<in> {Playing, Leaving}" by auto
  with assms(1,4) show ?thesis by (simp add: bet_cases Let_def upd_seat_def)
qed

theorem bet_moves_five_chips_witness:
  "\<exists>g'. bet (fst (join sample_game 7 None)) 7 None = Inr (g', None, [On_game_bet]) \<and> wager (seats g' ! 1) = 5"
proof -
  let ?g = "fst (join sample_game 7 None)"
  have s: "seating ?g 7 = Some Playing" by code_simp
  have f: "find ?g 7 = 1" by code_simp
  have w: "wager (seats ?g ! 1) = 0" "chips (seats ?g ! 1) = 0" by code_simp+
  have "\<not> bet_overflows ?g 7"
    using occ_find [OF join_ok [OF sample_game_ok], of 7 None _ 7] f w by (auto simp: bet_overflows_def)
  from bet_moves_five_chips [OF join_ok [OF sample_game_ok] s _ this] show ?thesis
    unfolding Let_def f using w game_ok_length [OF join_ok [OF sample_game_ok, of 7 None]] by simp
qed

lemma full_table_first_open:
  assumes ok: "game_ok g" and full: "card (dom (seating g)) = 5" and i: "i < 6"
  shows "first_idx (\<lambda>s. seat_state s = Open) (seats (upd_seat i (\<lambda>s. s\<lparr>seat_state := Open\<rparr>) g)) = Some i"
proof -
  let ?g = "upd_seat i (\<lambda>s. s\<lparr>seat_state := Open\<rparr>) g"
  have i': "i < length (seats g)" using ok i by simp
  have no: "seat_state (seats g ! j) \<noteq> Open" if "j < 6" for j
    using open_seat_iff [OF ok] full that ok by (simp add: first_idx_None_iff all_set_conv_all_nth)
  have "seats ?g ! i \<in> set (seats ?g)" using i' by simp
  moreover have "seat_state (seats ?g ! i) = Open" using i' by (simp add: nth_upd_seat)
  ultimately have "first_idx (\<lambda>s. seat_state s = Open) (seats ?g) \<noteq> None"
    unfolding first_idx_None_iff by blast
  then obtain j where j: "first_idx (\<lambda>s. seat_state s = Open) (seats ?g) = Some j" by blast
  have jl: "j < 6" and js: "seat_state (seats ?g ! j) = Open"
    using first_idx_SomeD [OF j] ok by simp_all
  have "j = i"
  proof (rule ccontr)
    assume "j \<noteq> i"
    then have "seats ?g ! j = seats g ! j" by (simp add: upd_seat_def)
    with js no [OF jl] show False by simp
  qed
  with j show ?thesis by simp
qed

text \<open>
  A seat is handed over with everything in it: on a full table, when a user surrenders and
  another joins, the newcomer gets that seat with the previous player's cards, chips and wager,
  since neither \<^verbatim>\<open>surrender\<close> nor \<^verbatim>\<open>join\<close> clears it.
\<close>

theorem newcomer_inherits_seat:
  assumes "game_ok g" and "seating g u \<noteq> None" and "seating g v = None"
    and "card (dom (seating g)) = 5"
  shows "let i = find g u; g' = fst (join (fst (surrender g u)) v None) in
    seats g' ! i = (seats g ! i)\<lparr>seat_u := Some v, seat_state := Playing\<rparr> \<and>
    wager (seats g' ! i) = wager (seats g ! i) \<and> chips (seats g' ! i) = chips (seats g ! i) \<and>
    hands (seats g' ! i) = hands (seats g ! i)"
proof -
  let ?i = "find g u" and ?g = "fst (surrender g u)"
  from assms(1,2) have f: "?i \<noteq> 0" by (auto simp: seating_def Let_def split: if_splits)
  with find_occ [of g u] assms(1) have i: "?i < 6" by (simp add: occ_def)
  have g: "?g = upd_seat ?i (\<lambda>s. s\<lparr>seat_state := Open\<rparr>) g" using f by (simp add: surrender_def)
  have "seating ?g v = None"
    using surrender_plan [OF assms(1), of u] assms(2,3) by (simp add: plan_surrender_def)
  then have "find ?g v = 0" using seating_None [OF surrender_ok [OF assms(1)]] by simp
  with full_table_first_open [OF assms(1,4) i]
  have "fst (join ?g v None) = upd_seat ?i (\<lambda>s. s\<lparr>seat_u := Some v, seat_state := Playing\<rparr>) ?g"
    by (simp add: join_def g)
  with i assms(1) show ?thesis by (simp add: Let_def g nth_upd_seat)
qed

text \<open>A full table whose first player has placed a bet.\<close>

definition full_game :: game where
  "full_game = (let g = foldl (\<lambda>g u. fst (join g u None)) sample_game [11, 12, 13, 14, 15] in
     case bet g 11 None of Inr (g', ec, cbs) \<Rightarrow> g' | Inl e \<Rightarrow> g)"

lemma full_game_ok: "game_ok full_game"
proof -
  have "game_ok (foldl (\<lambda>g u. fst (join g u None)) sample_game [11, 12, 13, 14, 15])"
    by (auto intro!: join_ok sample_game_ok)
  then show ?thesis by (auto simp: full_game_def Let_def intro: bet_ok split: sum.splits prod.splits)
qed

theorem newcomer_inherits_seat_witness:
  "wager (seats (fst (join (fst (surrender full_game 11)) 16 None)) ! 1) = 5"
proof -
  have f: "find full_game 11 = 1" by code_simp
  have u: "seating full_game 11 \<noteq> None" by code_simp
  have v: "seating full_game 16 = None" by code_simp
  have w: "wager (seats full_game ! 1) = 5" by code_simp
  have "first_idx (\<lambda>s. seat_state s = Open) (seats full_game) = None" by code_simp
  then have c: "card (dom (seating full_game)) = 5"
    using open_seat_iff [OF full_game_ok] card_seating_le [OF full_game_ok] by simp
  from newcomer_inherits_seat [OF full_game_ok u v c]
  have "wager (seats (fst (join (fst (surrender full_game 11)) 16 None)) ! 1) = wager (seats full_game ! 1)"
    unfolding Let_def f by blast
  then show ?thesis unfolding w .
qed

text \<open>
  The chips of the first player on a seat are never initialised: for every value of an \<^verbatim>\<open>int\<close> there
  is a state of the memory behind a new table for which the player that joins finds that number.
\<close>

theorem first_player_chips_arbitrary:
  assumes "fits_int 32 n"
  shows "\<exists>mem g rnd'. make_game 1 mem rnd = Inr (g, rnd') \<and> fst (snd (join g u None)) = None \<and>
     chips (seats (fst (join g u None)) ! find (fst (join g u None)) u) = n"
proof -
  obtain g rnd' where g: "make_game 1 (\<lambda>_. n) rnd = Inr (g, rnd')" "game_ok g" "seats g = fresh_seats (\<lambda>_. n)"
    using make_game_ok [of 1 "\<lambda>_. n" rnd] by auto
  let ?f = "\<lambda>s. s\<lparr>seat_u := Some u, seat_state := Playing\<rparr>"
  have z: "find g u = 0"
    using fresh_seats_unoccupied [OF g(3)] by (simp add: find_0_iff [OF g(2)])
  have "first_idx (\<lambda>s. seat_state s = Open) (seats g) = Some 1"
    by (simp add: g(3) fresh_seats_def upt_rec)
  with z have j: "join g u None = (upd_seat 1 ?f g, None, 1)" by (simp add: join_def)
  have "occ (upd_seat 1 ?f g) 1 u" using g(2) by (simp add: occ_upd_seat)
  moreover have "game_ok (upd_seat 1 ?f g)" using join_ok [OF g(2), of u None] j by simp
  ultimately have "find (upd_seat 1 ?f g) u = 1" by (rule occ_find [rotated])
  moreover have "signed_take_bit 31 n = n" using assms by (simp add: fits_int_def signed_take_bit_int_eq_self)
  ultimately show ?thesis using j g
    by (intro exI [of _ "\<lambda>_. n"] exI [of _ g] exI [of _ rnd']) (simp add: nth_upd_seat nth_fresh_seats)
qed

theorem first_player_chips_arbitrary_witness:
  "\<exists>mem g rnd'. make_game 1 mem (\<lambda>_. 0) = Inr (g, rnd') \<and>
     chips (seats (fst (join g 7 None)) ! find (fst (join g 7 None)) 7) = - (2 ^ 31)"
  using first_player_chips_arbitrary [of "- (2 ^ 31)" "\<lambda>_. 0" 7] by (auto simp: fits_int_def)

text \<open>
  The \<^verbatim>\<open>eval\<close> of the table's own hand adds card codes instead of card values: it agrees with
  the library's evaluation on hands of clubs up to the ten, and a king and an ace of clubs, a
  blackjack, is not even twenty-one for it.
\<close>

theorem table_eval_misreads_cards:
  "hand_value = card_value \<and>
   (\<forall>h l. hand_cards h = lh_cards l \<and> list_all (\<lambda>c. 1 \<le> c \<and> c \<le> 10) (hand_cards h) \<longrightarrow>
      busted (hand_eval h) = lh_busted (lib_eval l) \<and>
      twenty_one (hand_eval h) = lh_twenty_one (lib_eval l) \<and>
      blackjack (hand_eval h) = lh_blackjack (lib_eval l)) \<and>
   lh_blackjack (lib_eval (lib_new_hand\<lparr>lh_cards := [13, 1]\<rparr>)) \<and>
   \<not> twenty_one (hand_eval (new_hand\<lparr>hand_cards := [13, 1]\<rparr>))"
proof (intro conjI allI impI; (elim conjE)?)
  show "hand_value = card_value" by (simp add: fun_eq_iff hand_value_def card_value_def)
  show "lh_blackjack (lib_eval (lib_new_hand\<lparr>lh_cards := [13, 1]\<rparr>))" by code_simp
  show "\<not> twenty_one (hand_eval (new_hand\<lparr>hand_cards := [13, 1]\<rparr>))" by code_simp
qed (simp_all add: hand_eval_def lib_eval_def raw_tally_eq Let_def split: prod.splits)

theorem table_eval_misreads_cards_witness:
  "twenty_one (hand_eval (new_hand\<lparr>hand_cards := [10, 1]\<rparr>)) =
     lh_twenty_one (lib_eval (lib_new_hand\<lparr>lh_cards := [10, 1]\<rparr>))"
  using table_eval_misreads_cards by (auto simp: new_hand_def lib_new_hand_def)

end
