(* ===== verification/Message.thy ===== *)
theory Message
  imports Lounge_Json "HOL-Library.Word"
begin

text \<open>
  \<^verbatim>\<open>server/core/message.hpp\<close> and \<^verbatim>\<open>message.cpp\<close>: the reference-counted handle to a flat copy of a
  buffer. The memory is explicit: the live handle objects with the pointer each holds, and the
  allocated blocks with their bytes, their 64-bit count and the number of units they were
  allocated with. Using an object that is not alive, or memory that is not allocated, is
  \<open>Undefined\<close>. The invariant ties the counts to the handles; the refinement says that handles
  behave like values, which is how the other theories treat a message.
\<close>

section \<open>The code\<close>

type_synonym addr = "64 word"

text \<open>\<^verbatim>\<open>sizeof(impl)\<close>: a \<^verbatim>\<open>const_buffer\<close> (pointer and size) and the count, on a 64-bit platform.\<close>

definition sizeof_impl :: nat where
  "sizeof_impl = 24"

text \<open>\<^verbatim>\<open>(2 * sizeof(impl) + n - 1) / sizeof(impl)\<close> in \<^verbatim>\<open>std::size_t\<close>.\<close>

definition alloc_units :: "nat \<Rightarrow> nat" where
  "alloc_units n = ((2 * sizeof_impl + n - 1) mod 2 ^ 64) div sizeof_impl"

record impl =
  cb :: string
  count :: "64 word"
  units :: nat

record heap =
  handles :: "addr \<rightharpoonup> addr"
  blocks :: "addr \<rightharpoonup> impl"

definition empty_heap :: heap where
  "empty_heap = \<lparr>handles = Map.empty, blocks = Map.empty\<rparr>"

text \<open>An object may be constructed only where none lives.\<close>

definition can_construct :: "heap \<Rightarrow> addr \<Rightarrow> bool" where
  "can_construct m h \<longleftrightarrow> h \<noteq> 0 \<and> handles m h = None"

definition msg_null :: "addr \<Rightarrow> heap \<Rightarrow> heap outcome" where
  "msg_null h m =
     (if can_construct m h then Inr (m\<lparr>handles := (handles m)(h \<mapsto> 0)\<rparr>) else Inl Undefined)"

text \<open>The constructor from buffers; \<open>a\<close> is the address the allocator returns.\<close>

definition msg_make :: "addr \<Rightarrow> addr \<Rightarrow> string list \<Rightarrow> heap \<Rightarrow> heap outcome" where
  "msg_make h a bufs m =
     (if can_construct m h then
        (let n = sum_list (map length bufs) in
         Inr (m\<lparr>handles := (handles m)(h \<mapsto> a),
                blocks := (blocks m)(a \<mapsto> \<lparr>cb = concat bufs, count = 1, units = alloc_units n\<rparr>)\<rparr>))
      else Inl Undefined)"

definition msg_copy :: "addr \<Rightarrow> addr \<Rightarrow> heap \<Rightarrow> heap outcome" where
  "msg_copy h src m =
     (if can_construct m h then
        (case handles m src of
           None \<Rightarrow> Inl Undefined
         | Some p \<Rightarrow>
             if p = 0 then Inr (m\<lparr>handles := (handles m)(h \<mapsto> 0)\<rparr>)
             else (case blocks m p of
                None \<Rightarrow> Inl Undefined
              | Some b \<Rightarrow> Inr (m\<lparr>handles := (handles m)(h \<mapsto> p),
                                blocks := (blocks m)(p \<mapsto> b\<lparr>count := count b + 1\<rparr>)\<rparr>)))
      else Inl Undefined)"

definition msg_move :: "addr \<Rightarrow> addr \<Rightarrow> heap \<Rightarrow> heap outcome" where
  "msg_move h src m =
     (if can_construct m h then
        (case handles m src of
           None \<Rightarrow> Inl Undefined
         | Some p \<Rightarrow> Inr (m\<lparr>handles := (handles m)(h \<mapsto> p, src \<mapsto> 0)\<rparr>))
      else Inl Undefined)"

text \<open>
  The destructor. Deallocating with a number of units other than the one allocated is undefined.
\<close>

definition msg_destroy :: "addr \<Rightarrow> heap \<Rightarrow> heap outcome" where
  "msg_destroy h m =
     (case handles m h of
        None \<Rightarrow> Inl Undefined
      | Some p \<Rightarrow>
          if p = 0 then Inr (m\<lparr>handles := (handles m)(h := None)\<rparr>)
          else (case blocks m p of
             None \<Rightarrow> Inl Undefined
           | Some b \<Rightarrow>
               if count b - 1 = 0 then
                 if units b = alloc_units (length (cb b))
                 then Inr (m\<lparr>handles := (handles m)(h := None), blocks := (blocks m)(p := None)\<rparr>)
                 else Inl Undefined
               else Inr (m\<lparr>handles := (handles m)(h := None),
                           blocks := (blocks m)(p \<mapsto> b\<lparr>count := count b - 1\<rparr>)\<rparr>)))"

definition msg_swap :: "addr \<Rightarrow> addr \<Rightarrow> heap \<Rightarrow> heap outcome" where
  "msg_swap l r m =
     (case (handles m l, handles m r) of
        (Some p, Some q) \<Rightarrow> Inr (m\<lparr>handles := (handles m)(l \<mapsto> q, r \<mapsto> p)\<rparr>)
      | _ \<Rightarrow> Inl Undefined)"

text \<open>The bytes behind \<^verbatim>\<open>begin\<close>, which is a null pointer access for a null message.\<close>

definition msg_data :: "addr \<Rightarrow> heap \<Rightarrow> string outcome" where
  "msg_data h m =
     (case handles m h of
        None \<Rightarrow> Inl Undefined
      | Some p \<Rightarrow>
          if p = 0 then Inl Undefined
          else (case blocks m p of None \<Rightarrow> Inl Undefined | Some b \<Rightarrow> Inr (cb b)))"

text \<open>
  \<^verbatim>\<open>make_message\<close>. The serializer is a parameter: \<open>sr jv n\<close> is what \<^verbatim>\<open>read\<close> puts into a buffer of
  \<open>n\<close> bytes and whether it is done then. A null message is \<open>None\<close>.
\<close>

type_synonym serializer = "json \<Rightarrow> nat \<Rightarrow> string \<times> bool"

type_synonym message = "string option"

definition make_message :: "serializer \<Rightarrow> json \<Rightarrow> message" where
  "make_message sr jv =
     (let (buf, is_done) = sr jv 16384 in
      if \<not> is_done then None else Some buf)"

section \<open>The invariant of the counts\<close>

definition owners :: "heap \<Rightarrow> addr \<Rightarrow> addr set" where
  "owners m a = {h. handles m h = Some a}"

definition heap_ok :: "heap \<Rightarrow> bool" where
  "heap_ok m \<longleftrightarrow>
     handles m 0 = None \<and> blocks m 0 = None \<and>
     (\<forall>h p. handles m h = Some p \<longrightarrow> p \<noteq> 0 \<longrightarrow> blocks m p \<noteq> None) \<and>
     (\<forall>a b. blocks m a = Some b \<longrightarrow>
        owners m a \<noteq> {} \<and> count b = of_nat (card (owners m a)) \<and>
        units b = alloc_units (length (cb b)))"

lemma heap_okD:
  assumes "heap_ok m"
  shows "handles m 0 = None" "blocks m 0 = None"
    "handles m h = Some p \<Longrightarrow> p \<noteq> 0 \<Longrightarrow> \<exists>b. blocks m p = Some b"
    "blocks m a = Some b \<Longrightarrow> owners m a \<noteq> {}"
    "blocks m a = Some b \<Longrightarrow> count b = of_nat (card (owners m a))"
    "blocks m a = Some b \<Longrightarrow> units b = alloc_units (length (cb b))"
  using assms unfolding heap_ok_def by blast+

text \<open>
  A count cannot wrap around: every owner is an object at an address of its own, and none lives at
  the null address.
\<close>

lemma card_owners_bound:
  assumes "heap_ok m"
  shows "card (owners m a) < 2 ^ 64"
proof -
  have "owners m a \<subseteq> UNIV - {0}" using heap_okD(1) [OF assms] by (auto simp: owners_def)
  then have "card (owners m a) \<le> card (UNIV - {0 :: addr})" by (rule card_mono [rotated]) simp
  also have "\<dots> < card (UNIV :: addr set)" by (rule psubset_card_mono) auto
  also have "\<dots> = 2 ^ 64" by (simp add: card_word)
  finally show ?thesis .
qed

lemma of_nat_eq_1_iff:
  assumes "n < 2 ^ 64"
  shows "(of_nat n :: addr) = 1 \<longleftrightarrow> n = 1"
proof -
  have "unat (of_nat n :: addr) = n" using assms by (simp add: unsigned_of_nat take_bit_nat_eq_self)
  then show ?thesis by (metis of_nat_1 unsigned_1)
qed

lemma count_last:
  assumes "heap_ok m" and "blocks m a = Some b"
  shows "count b = 1 \<longleftrightarrow> card (owners m a) = 1"
  using heap_okD(5) [OF assms] of_nat_eq_1_iff [OF card_owners_bound [OF assms(1)]] by simp

text \<open>How the owners of a block change with one handle.\<close>

lemma owners_upd:
  "owners (m\<lparr>handles := (handles m)(h \<mapsto> p)\<rparr>) a =
     (if p = a then insert h (owners m a) else owners m a - {h})"
  "owners (m\<lparr>handles := (handles m)(h := None)\<rparr>) a = owners m a - {h}"
  "owners (m\<lparr>blocks := bs\<rparr>) a = owners m a"
  "owners (m\<lparr>handles := hs, blocks := bs\<rparr>) a = owners (m\<lparr>handles := hs\<rparr>) a"
  by (auto simp: owners_def)

lemma finite_owners [simp]: "finite (owners m a)"
  by simp

lemma owners_iff [simp]: "h \<in> owners m a \<longleftrightarrow> handles m h = Some a"
  by (simp add: owners_def)

lemma heap_okI:
  assumes "handles m 0 = None" "blocks m 0 = None"
    and "\<And>h p. handles m h = Some p \<Longrightarrow> p \<noteq> 0 \<Longrightarrow> blocks m p \<noteq> None"
    and "\<And>a b. blocks m a = Some b \<Longrightarrow> owners m a \<noteq> {} \<and> count b = of_nat (card (owners m a)) \<and>
        units b = alloc_units (length (cb b))"
  shows "heap_ok m"
  using assms unfolding heap_ok_def by blast

lemma empty_heap_ok [lounge_inv]: "heap_ok empty_heap"
  by (simp add: heap_ok_def empty_heap_def)

lemma msg_null_ok [lounge_inv]:
  assumes "heap_ok m" and "msg_null h m = Inr m'"
  shows "heap_ok m'"
proof -
  from assms(2) have h: "h \<noteq> 0" "handles m h = None"
    and m': "m' = m\<lparr>handles := (handles m)(h \<mapsto> 0)\<rparr>"
    by (auto simp: msg_null_def can_construct_def split: if_splits)
  have "owners m' a = owners m a" if "a \<noteq> 0" for a
    using h(2) that by (auto simp: m' owners_upd)
  moreover have "a \<noteq> 0" if "blocks m a = Some b" for a b
    using heap_okD(2) [OF assms(1)] that by auto
  ultimately show ?thesis using h heap_okD [OF assms(1)]
    by (intro heap_okI) (auto simp: m' split: if_splits)
qed

lemma msg_make_ok [lounge_inv]:
  assumes ok: "heap_ok m" and op: "msg_make h a bufs m = Inr m'" and a: "a \<noteq> 0" "blocks m a = None"
  shows "heap_ok m'"
proof -
  from op have h: "h \<noteq> 0" "handles m h = None"
    and m': "m' = m\<lparr>handles := (handles m)(h \<mapsto> a), blocks := (blocks m)(a \<mapsto>
        \<lparr>cb = concat bufs, count = 1, units = alloc_units (sum_list (map length bufs))\<rparr>)\<rparr>"
    by (auto simp: msg_make_def can_construct_def Let_def split: if_splits)
  have "owners m a = {}"
  proof (rule ccontr)
    assume "owners m a \<noteq> {}"
    then obtain h' where "handles m h' = Some a" by (auto simp: owners_def)
    with heap_okD(3) [OF ok this a(1)] a(2) show False by simp
  qed
  then have new: "owners m' a = {h}" by (simp add: m' owners_upd)
  have other: "owners m' a' = owners m a'" if "a' \<noteq> a" for a'
    using h(2) that by (auto simp: m' owners_upd)
  show ?thesis
  proof (rule heap_okI)
    fix a' b assume b: "blocks m' a' = Some b"
    show "owners m' a' \<noteq> {} \<and> count b = of_nat (card (owners m' a')) \<and>
        units b = alloc_units (length (cb b))"
    proof (cases "a' = a")
      case True
      with b new show ?thesis by (auto simp: m' length_concat)
    next
      case False
      with b have "blocks m a' = Some b" by (simp add: m')
      with heap_okD(4-6) [OF ok this] other [OF False] show ?thesis by simp
    qed
  qed (use h a heap_okD(1-3) [OF ok] in \<open>auto simp: m' split: if_splits\<close>)
qed

lemma msg_copy_ok [lounge_inv]:
  assumes ok: "heap_ok m" and op: "msg_copy h src m = Inr m'"
  shows "heap_ok m'"
proof (cases "handles m src = Some 0")
  case True
  with op have "msg_null h m = Inr m'" by (auto simp: msg_copy_def msg_null_def split: if_splits)
  with ok show ?thesis by (rule msg_null_ok)
next
  case False
  with op obtain p b where h: "h \<noteq> 0" "handles m h = None" and p: "handles m src = Some p" "p \<noteq> 0"
    and b: "blocks m p = Some b"
    and m': "m' = m\<lparr>handles := (handles m)(h \<mapsto> p), blocks := (blocks m)(p \<mapsto> b\<lparr>count := count b + 1\<rparr>)\<rparr>"
    by (auto simp: msg_copy_def can_construct_def split: if_splits option.splits)
  have new: "owners m' p = insert h (owners m p)" by (simp add: m' owners_upd)
  have c: "card (owners m' p) = Suc (card (owners m p))" using h by (simp add: new)
  have other: "owners m' a' = owners m a'" if "a' \<noteq> p" for a'
    using h(2) that by (auto simp: m' owners_upd)
  show ?thesis
  proof (rule heap_okI)
    fix a' b' assume b': "blocks m' a' = Some b'"
    show "owners m' a' \<noteq> {} \<and> count b' = of_nat (card (owners m' a')) \<and>
        units b' = alloc_units (length (cb b'))"
    proof (cases "a' = p")
      case True
      with b' c new heap_okD(5,6) [OF ok b] show ?thesis by (auto simp: m')
    next
      case False
      with b' have "blocks m a' = Some b'" by (simp add: m')
      with heap_okD(4-6) [OF ok this] other [OF False] show ?thesis by simp
    qed
  qed (use h p heap_okD(1-3) [OF ok] in \<open>auto simp: m' split: if_splits\<close>)
qed

text \<open>What destroying a handle does to the heap: the last owner of a block takes it along.\<close>

lemma msg_destroy_effect:
  assumes ok: "heap_ok m" and op: "msg_destroy h m = Inr m'"
  obtains p where "handles m h = Some p" "handles m' = (handles m)(h := None)" "\<And>a. owners m' a = owners m a - {h}"
    "p = 0 \<and> blocks m' = blocks m \<or>
     p \<noteq> 0 \<and> (\<exists>b. blocks m p = Some b \<and>
       blocks m' = (blocks m)(p := if card (owners m p) = 1 then None else Some (b\<lparr>count := count b - 1\<rparr>)))"
proof -
  from op obtain p where p: "handles m h = Some p" by (auto simp: msg_destroy_def split: option.splits)
  have own: "owners m' a = owners m a - {h}" for a
    using op by (auto simp: msg_destroy_def owners_upd split: option.splits if_splits)
  have hs: "handles m' = (handles m)(h := None)"
    using op by (auto simp: msg_destroy_def split: option.splits if_splits)
  have "p = 0 \<and> blocks m' = blocks m \<or>
     p \<noteq> 0 \<and> (\<exists>b. blocks m p = Some b \<and>
       blocks m' = (blocks m)(p := if card (owners m p) = 1 then None else Some (b\<lparr>count := count b - 1\<rparr>)))"
  proof (cases "p = 0")
    case True
    with op p show ?thesis by (auto simp: msg_destroy_def)
  next
    case False
    from heap_okD(3) [OF ok p False] obtain b where b: "blocks m p = Some b" by blast
    have "count b - 1 = 0 \<longleftrightarrow> card (owners m p) = 1" using count_last [OF ok b] by (simp add: eq_diff_eq)
    with op p False b show ?thesis by (auto simp: msg_destroy_def split: if_splits)
  qed
  with that p own hs show ?thesis by blast
qed

text \<open>One owner less is one count less, down to the last.\<close>

lemma heap_ok_release:
  assumes ok: "heap_ok m" and p: "handles m h = Some p" "p \<noteq> 0" and b: "blocks m p = Some b"
    and hs: "handles m' = (handles m)(h := None)" and own: "\<And>a. owners m' a = owners m a - {h}"
    and bs: "blocks m' = (blocks m)(p := if card (owners m p) = 1 then None else Some (b\<lparr>count := count b - 1\<rparr>))"
  shows "heap_ok m'"
proof (rule heap_okI)
  have c: "card (owners m' p) = card (owners m p) - 1" using p by (simp add: own)
  have pos: "0 < card (owners m p)" using heap_okD(4) [OF ok b] by (simp add: card_gt_0_iff)
  show "blocks m' p' \<noteq> None" if h': "handles m' h' = Some p'" "p' \<noteq> 0" for h' p'
  proof -
    have "card (owners m p) \<noteq> 1" if "p' = p"
    proof
      assume "card (owners m p) = 1"
      with c have "owners m' p = {}" by simp
      with h'(1) that owners_iff [of h' m' p] show False by simp
    qed
    with h' heap_okD(3) [OF ok] show ?thesis by (auto simp: hs bs split: if_splits)
  qed
  show "owners m' a' \<noteq> {} \<and> count b' = of_nat (card (owners m' a')) \<and> units b' = alloc_units (length (cb b'))"
    if b': "blocks m' a' = Some b'" for a' b'
  proof (cases "a' = p")
    case True
    with b' have n1: "card (owners m p) \<noteq> 1" and b'': "b' = b\<lparr>count := count b - 1\<rparr>"
      by (auto simp: bs split: if_splits)
    have "card (owners m' p) \<noteq> 0" using n1 pos c by simp
    then have "owners m' p \<noteq> {}" by fastforce
    with True b'' c pos heap_okD(5,6) [OF ok b] show ?thesis by (simp add: of_nat_diff)
  next
    case False
    with b' have "blocks m a' = Some b'" by (simp add: bs)
    moreover have "owners m' a' = owners m a'" using p False by (auto simp: own)
    ultimately show ?thesis using heap_okD(4-6) [OF ok] by simp
  qed
qed (use heap_okD(1,2) [OF ok] p in \<open>auto simp: hs bs\<close>)

lemma msg_destroy_ok [lounge_inv]:
  assumes ok: "heap_ok m" and op: "msg_destroy h m = Inr m'"
  shows "heap_ok m'"
  using ok op
proof (rule msg_destroy_effect)
  fix p
  assume p: "handles m h = Some p" and hs: "handles m' = (handles m)(h := None)"
    and own: "\<And>a. owners m' a = owners m a - {h}"
    and bs: "p = 0 \<and> blocks m' = blocks m \<or>
     p \<noteq> 0 \<and> (\<exists>b. blocks m p = Some b \<and>
       blocks m' = (blocks m)(p := if card (owners m p) = 1 then None else Some (b\<lparr>count := count b - 1\<rparr>)))"
  show "heap_ok m'"
  proof (cases "p = 0")
    case True
    have "owners m' a = owners m a" if "blocks m a = Some b" for a b
      using p own heap_okD(2) [OF ok] that True by auto
    with heap_okD [OF ok] bs True show ?thesis by (intro heap_okI) (auto simp: hs split: if_splits)
  next
    case False
    with bs heap_ok_release [OF ok p False _ hs own] show ?thesis by blast
  qed
qed

text \<open>A permutation of the pointers among the live handles changes no count.\<close>

lemma heap_ok_rearrange:
  assumes ok: "heap_ok m" and z: "hs 0 = None"
    and card: "\<And>a. a \<noteq> 0 \<Longrightarrow> card {h. hs h = Some a} = card (owners m a)"
  shows "heap_ok (m\<lparr>handles := hs\<rparr>)"
proof -
  let ?m = "m\<lparr>handles := hs\<rparr>"
  have own: "owners ?m a = {h. hs h = Some a}" for a by (simp add: owners_def)
  have nz: "a \<noteq> 0" if "blocks m a = Some b" for a b using heap_okD(2) [OF ok] that by auto
  show ?thesis
  proof (rule heap_okI)
    fix h p assume h: "handles ?m h = Some p" "p \<noteq> 0"
    then have "card {h. hs h = Some p} \<noteq> 0" by auto
    with card [OF h(2)] have "owners m p \<noteq> {}" by auto
    then obtain h' where "handles m h' = Some p" by auto
    with heap_okD(3) [OF ok this h(2)] show "blocks ?m p \<noteq> None" by simp
  next
    fix a b assume "blocks ?m a = Some b"
    then have b: "blocks m a = Some b" by simp
    have c: "card (owners ?m a) = card (owners m a)" using card [OF nz [OF b]] by (simp add: own)
    moreover have "card (owners m a) \<noteq> 0" using heap_okD(4) [OF ok b] by simp
    ultimately show "owners ?m a \<noteq> {} \<and> count b = of_nat (card (owners ?m a)) \<and>
        units b = alloc_units (length (cb b))"
      using heap_okD(5,6) [OF ok b] by (metis card.empty)
  qed (use z heap_okD(2) [OF ok] in simp_all)
qed

lemma msg_move_ok [lounge_inv]:
  assumes ok: "heap_ok m" and op: "msg_move h src m = Inr m'"
  shows "heap_ok m'"
proof -
  from op obtain p where h: "h \<noteq> 0" "handles m h = None" and p: "handles m src = Some p"
    and m': "m' = m\<lparr>handles := (handles m)(h \<mapsto> p, src \<mapsto> 0)\<rparr>"
    by (auto simp: msg_move_def can_construct_def split: if_splits option.splits)
  have "{x. ((handles m)(h \<mapsto> p, src \<mapsto> 0)) x = Some a} =
      (if a = p then insert h (owners m a - {src}) else owners m a)" if "a \<noteq> 0" for a
    using h p that by (auto simp: owners_def)
  then have "card {x. ((handles m)(h \<mapsto> p, src \<mapsto> 0)) x = Some a} = card (owners m a)" if "a \<noteq> 0" for a
    using h p that card_Suc_Diff1 [OF finite_owners, of src m p] by simp
  moreover have "((handles m)(h \<mapsto> p, src \<mapsto> 0)) 0 = None"
    using h p heap_okD(1) [OF ok] by auto
  ultimately show ?thesis unfolding m' by (rule heap_ok_rearrange [OF ok, rotated])
qed

lemma msg_swap_ok [lounge_inv]:
  assumes ok: "heap_ok m" and op: "msg_swap l r m = Inr m'"
  shows "heap_ok m'"
proof -
  from op obtain p q where p: "handles m l = Some p" "handles m r = Some q"
    and m': "m' = m\<lparr>handles := (handles m)(l \<mapsto> q, r \<mapsto> p)\<rparr>"
    by (auto simp: msg_swap_def split: option.splits)
  let ?hs = "(handles m)(l \<mapsto> q, r \<mapsto> p)"
  let ?f = "\<lambda>x. if x = l then r else if x = r then l else x"
  have "bij_betw ?f {x. ?hs x = Some a} (owners m a)" for a
    by (rule bij_betw_byWitness [where f' = ?f]) (use p in \<open>auto simp: owners_def split: if_splits\<close>)
  then have "card {x. ?hs x = Some a} = card (owners m a)" for a
    by (rule bij_betw_same_card)
  moreover have "?hs 0 = None" using p heap_okD(1) [OF ok] by auto
  ultimately show ?thesis unfolding m' by (rule heap_ok_rearrange [OF ok, rotated])
qed

section \<open>Handles as values\<close>

datatype msg_op =
    Op_null addr
  | Op_make addr addr "string list"
  | Op_copy addr addr
  | Op_move addr addr
  | Op_destroy addr
  | Op_swap addr addr

fun run_op :: "msg_op \<Rightarrow> heap \<Rightarrow> heap outcome" where
  "run_op (Op_null h) m = msg_null h m"
| "run_op (Op_make h a bufs) m = msg_make h a bufs m"
| "run_op (Op_copy h src) m = msg_copy h src m"
| "run_op (Op_move h src) m = msg_move h src m"
| "run_op (Op_destroy h) m = msg_destroy h m"
| "run_op (Op_swap l r) m = msg_swap l r m"

text \<open>The contract of the allocator: a new address.\<close>

fun allocator_grants :: "msg_op \<Rightarrow> heap \<Rightarrow> bool" where
  "allocator_grants (Op_make h a bufs) m \<longleftrightarrow> a \<noteq> 0 \<and> blocks m a = None"
| "allocator_grants _ m \<longleftrightarrow> True"

text \<open>The specification: variables that hold message values, with no sharing.\<close>

type_synonym msg_vars = "addr \<rightharpoonup> message"

definition bytes_at :: "(addr \<rightharpoonup> impl) \<Rightarrow> addr \<Rightarrow> message" where
  "bytes_at bs p = (if p = 0 then None else map_option cb (bs p))"

definition msg_abs :: "heap \<Rightarrow> msg_vars" where
  "msg_abs m h = map_option (bytes_at (blocks m)) (handles m h)"

lemma bytes_at_simps [simp]:
  "bytes_at bs 0 = None"
  "p \<noteq> 0 \<Longrightarrow> bytes_at (bs(p \<mapsto> b)) p = Some (cb b)"
  "bs p = Some b \<Longrightarrow> cb b' = cb b \<Longrightarrow> bytes_at (bs(p \<mapsto> b')) = bytes_at bs"
  by (auto simp: bytes_at_def fun_eq_iff)

fun val_pre :: "msg_op \<Rightarrow> msg_vars \<Rightarrow> bool" where
  "val_pre (Op_null h) s \<longleftrightarrow> h \<noteq> 0 \<and> s h = None"
| "val_pre (Op_make h a bufs) s \<longleftrightarrow> h \<noteq> 0 \<and> s h = None"
| "val_pre (Op_copy h src) s \<longleftrightarrow> h \<noteq> 0 \<and> s h = None \<and> s src \<noteq> None"
| "val_pre (Op_move h src) s \<longleftrightarrow> h \<noteq> 0 \<and> s h = None \<and> s src \<noteq> None"
| "val_pre (Op_destroy h) s \<longleftrightarrow> s h \<noteq> None"
| "val_pre (Op_swap l r) s \<longleftrightarrow> s l \<noteq> None \<and> s r \<noteq> None"

fun val_op :: "msg_op \<Rightarrow> msg_vars \<Rightarrow> msg_vars" where
  "val_op (Op_null h) s = s(h \<mapsto> None)"
| "val_op (Op_make h a bufs) s = s(h \<mapsto> Some (concat bufs))"
| "val_op (Op_copy h src) s = s(h := s src)"
| "val_op (Op_move h src) s = s(h := s src, src \<mapsto> None)"
| "val_op (Op_destroy h) s = s(h := None)"
| "val_op (Op_swap l r) s = s(l := s r, r := s l)"

lemma msg_abs_None_iff [simp]: "msg_abs m h = None \<longleftrightarrow> handles m h = None"
  by (simp add: msg_abs_def)

lemma run_op_ok:
  "heap_ok m \<Longrightarrow> allocator_grants op m \<Longrightarrow> run_op op m = Inr m' \<Longrightarrow> heap_ok m'"
  by (cases op) (auto intro: lounge_inv)

lemma run_op_defined:
  assumes ok: "heap_ok m"
  shows "(\<exists>m'. run_op op m = Inr m') \<longleftrightarrow> val_pre op (msg_abs m)"
proof (cases op)
  case (Op_null h)
  then show ?thesis by (simp add: msg_null_def can_construct_def)
next
  case (Op_make h a bufs)
  then show ?thesis by (simp add: msg_make_def can_construct_def Let_def)
next
  case (Op_copy h src)
  have "blocks m p \<noteq> None" if "handles m src = Some p" "p \<noteq> 0" for p
    using heap_okD(3) [OF ok that] by blast
  with Op_copy show ?thesis by (auto simp: msg_copy_def can_construct_def split: option.splits)
next
  case (Op_move h src)
  then show ?thesis by (auto simp: msg_move_def can_construct_def split: option.splits)
next
  case (Op_destroy h)
  have "blocks m p \<noteq> None" if "handles m h = Some p" "p \<noteq> 0" for p
    using heap_okD(3) [OF ok that] by blast
  with Op_destroy heap_okD(6) [OF ok] show ?thesis by (auto simp: msg_destroy_def split: option.splits)
next
  case (Op_swap l r)
  then show ?thesis by (auto simp: msg_swap_def split: option.splits)
qed

text \<open>The handles that live on do not see a block being freed or allocated.\<close>

lemma destroy_bytes:
  assumes ok: "heap_ok m" and op: "msg_destroy x m = Inr m'" and h: "handles m' h = Some p"
  shows "bytes_at (blocks m') p = bytes_at (blocks m) p"
proof (cases "p = 0")
  case False
  with heap_okD(3) [OF msg_destroy_ok [OF ok op] h False] have "blocks m' p \<noteq> None" by auto
  with op show ?thesis by (auto simp: msg_destroy_def bytes_at_def split: option.splits if_splits)
qed simp

lemma make_bytes:
  assumes ok: "heap_ok m" and a: "blocks m a = None" and h: "handles m h = Some p"
  shows "bytes_at ((blocks m)(a \<mapsto> b)) p = bytes_at (blocks m) p"
proof (cases "p = 0")
  case False
  with heap_okD(3) [OF ok h False] a have "p \<noteq> a" by auto
  then show ?thesis by (simp add: bytes_at_def)
qed simp

lemma run_op_abs:
  assumes ok: "heap_ok m" and al: "allocator_grants op m" and op: "run_op op m = Inr m'"
  shows "msg_abs m' = val_op op (msg_abs m)"
proof (cases op)
  case (Op_null h)
  with op show ?thesis by (auto simp: msg_null_def msg_abs_def fun_eq_iff split: if_splits)
next
  case (Op_make h a bufs)
  show ?thesis
  proof
    fix x
    from Op_make al have a: "a \<noteq> 0" "blocks m a = None" by simp_all
    show "msg_abs m' x = val_op op (msg_abs m) x"
      using Op_make op a make_bytes [OF ok a(2)]
      by (cases "handles m x") (auto simp: msg_make_def msg_abs_def Let_def split: if_splits)
  qed
next
  case (Op_copy h src)
  with op show ?thesis
    by (auto simp: msg_copy_def msg_abs_def fun_eq_iff split: if_splits option.splits)
next
  case (Op_move h src)
  with op show ?thesis
    by (auto simp: msg_move_def msg_abs_def fun_eq_iff split: if_splits option.splits)
next
  case (Op_destroy h)
  with op have d: "msg_destroy h m = Inr m'" by simp
  have hs: "handles m' = (handles m)(h := None)"
    using d by (auto simp: msg_destroy_def split: option.splits if_splits)
  show ?thesis
  proof
    fix x
    show "msg_abs m' x = val_op op (msg_abs m) x"
      using Op_destroy hs destroy_bytes [OF ok d, of x]
      by (cases "handles m x") (auto simp: msg_abs_def)
  qed
next
  case (Op_swap l r)
  with op show ?thesis by (auto simp: msg_swap_def msg_abs_def fun_eq_iff split: option.splits)
qed

text \<open>Sequences of operations, with the allocator keeping its contract at every step.\<close>

fun exec_ops :: "(msg_op \<Rightarrow> 's \<Rightarrow> 's outcome) \<Rightarrow> msg_op list \<Rightarrow> 's \<Rightarrow> 's outcome" where
  "exec_ops run [] s = Inr s"
| "exec_ops run (x # xs) s = (case run x s of Inl e \<Rightarrow> Inl e | Inr s' \<Rightarrow> exec_ops run xs s')"

fun grants_all :: "(msg_op \<Rightarrow> 's \<Rightarrow> 's outcome) \<Rightarrow> (msg_op \<Rightarrow> 's \<Rightarrow> bool) \<Rightarrow> msg_op list \<Rightarrow> 's \<Rightarrow> bool" where
  "grants_all run g [] s \<longleftrightarrow> True"
| "grants_all run g (x # xs) s \<longleftrightarrow>
     g x s \<and> (case run x s of Inl e \<Rightarrow> True | Inr s' \<Rightarrow> grants_all run g xs s')"

fun pre_all :: "msg_op list \<Rightarrow> msg_vars \<Rightarrow> bool" where
  "pre_all [] v \<longleftrightarrow> True"
| "pre_all (x # xs) v \<longleftrightarrow> val_pre x v \<and> pre_all xs (val_op x v)"

text \<open>
  The interface of a store of message handles: what a user of \<^verbatim>\<open>message\<close> relies on. Its operations
  succeed when the value semantics allows them and then do what the value semantics says.
\<close>

locale message_store =
  fixes ok :: "'s \<Rightarrow> bool" and abst :: "'s \<Rightarrow> msg_vars"
    and run :: "msg_op \<Rightarrow> 's \<Rightarrow> 's outcome" and grants :: "msg_op \<Rightarrow> 's \<Rightarrow> bool"
  assumes run_keeps: "ok s \<Longrightarrow> grants x s \<Longrightarrow> run x s = Inr s' \<Longrightarrow> ok s'"
    and run_iff: "ok s \<Longrightarrow> (\<exists>s'. run x s = Inr s') \<longleftrightarrow> val_pre x (abst s)"
    and run_value: "ok s \<Longrightarrow> grants x s \<Longrightarrow> run x s = Inr s' \<Longrightarrow> abst s' = val_op x (abst s)"
begin

lemma exec_value:
  assumes "ok s" and "grants_all run grants xs s" and "exec_ops run xs s = Inr s'"
  shows "ok s' \<and> abst s' = fold val_op xs (abst s)"
  using assms
proof (induction xs arbitrary: s)
  case (Cons x xs)
  from Cons.prems(3) obtain t where t: "run x s = Inr t" and rest: "exec_ops run xs t = Inr s'"
    by (auto split: sum.splits)
  from Cons.prems(2) t have "grants x s" "grants_all run grants xs t" by simp_all
  with Cons.IH [OF run_keeps [OF Cons.prems(1) _ t] _ rest] run_value [OF Cons.prems(1) _ t]
  show ?case by simp
qed simp

lemma exec_defined:
  assumes "ok s" and "grants_all run grants xs s"
  shows "(\<exists>s'. exec_ops run xs s = Inr s') \<longleftrightarrow> pre_all xs (abst s)"
  using assms
proof (induction xs arbitrary: s)
  case (Cons x xs)
  show ?case
  proof (cases "run x s")
    case (Inl e)
    with run_iff [OF Cons.prems(1), of x] show ?thesis by simp
  next
    case (Inr t)
    with Cons.prems have g: "grants x s" "grants_all run grants xs t" by simp_all
    from run_iff [OF Cons.prems(1), of x] Inr have "val_pre x (abst s)" by blast
    with Inr Cons.IH [OF run_keeps [OF Cons.prems(1) g(1) Inr] g(2)]
      run_value [OF Cons.prems(1) g(1) Inr]
    show ?thesis by simp
  qed
qed simp

end

interpretation counted: message_store heap_ok msg_abs run_op allocator_grants
  by unfold_locales (use run_op_ok run_op_defined run_op_abs in blast)+

section \<open>Properties\<close>

lemma msg_abs_empty [simp]: "msg_abs empty_heap = Map.empty"
  by (simp add: msg_abs_def empty_heap_def fun_eq_iff)

text \<open>
  C15: reference counting is invisible. A program of constructions, copies, moves, swaps and
  destructions of messages runs without touching dead memory exactly when the same program on
  plain values uses its variables within their lifetimes, and every handle then holds the value
  its variable has.
\<close>

theorem message_handles_are_values:
  assumes "grants_all run_op allocator_grants ops empty_heap"
  shows "case exec_ops run_op ops empty_heap of
      Inr m \<Rightarrow> pre_all ops Map.empty \<and> msg_abs m = fold val_op ops Map.empty
    | Inl e \<Rightarrow> \<not> pre_all ops Map.empty"
  using counted.exec_defined [OF empty_heap_ok assms] counted.exec_value [OF empty_heap_ok assms]
  by (auto split: sum.splits)

text \<open>
  No message leaks and none is freed early: whatever program of message operations has run,
  the count of a block is the number of handles to it, the handles to a block are never all gone
  while it is allocated, and when no handle is left no block is.
\<close>

theorem message_counts_exact:
  assumes "grants_all run_op allocator_grants ops empty_heap"
    and "exec_ops run_op ops empty_heap = Inr m"
  shows "(\<forall>a b. blocks m a = Some b \<longrightarrow>
             unat (count b) = card {h. handles m h = Some a} \<and> 0 < unat (count b)) \<and>
         (\<forall>h p. handles m h = Some p \<longrightarrow> p \<noteq> 0 \<longrightarrow> blocks m p \<noteq> None) \<and>
         (handles m = Map.empty \<longrightarrow> blocks m = Map.empty)"
proof -
  have ok: "heap_ok m" using counted.exec_value [OF empty_heap_ok assms] by simp
  have "unat (count b) = card (owners m a) \<and> 0 < card (owners m a)" if "blocks m a = Some b" for a b
    using heap_okD(4,5) [OF ok that] card_owners_bound [OF ok, of a]
    by (simp add: unsigned_of_nat take_bit_nat_eq_self card_gt_0_iff)
  moreover have "blocks m p \<noteq> None" if "handles m h = Some p" "p \<noteq> 0" for h p
    using heap_okD(3) [OF ok that] by blast
  moreover have "blocks m = Map.empty" if "handles m = Map.empty"
  proof
    fix a
    have "owners m a = {}" using that by (simp add: owners_def)
    with heap_okD(4) [OF ok, of a] show "blocks m a = None" by (cases "blocks m a") auto
  qed
  ultimately show ?thesis by (auto simp: owners_def)
qed

text \<open>A broadcast: one message, copied for two users, the original destroyed first.\<close>

definition broadcast_ops :: "msg_op list" where
  "broadcast_ops =
     [Op_make 8 64 [''{'', ''}''], Op_copy 16 8, Op_copy 24 8, Op_destroy 8, Op_move 32 16]"

lemma broadcast_runs:
  "grants_all run_op allocator_grants broadcast_ops empty_heap"
  "pre_all broadcast_ops Map.empty"
  "grants_all run_op allocator_grants (broadcast_ops @ [Op_destroy 16, Op_destroy 24, Op_destroy 32]) empty_heap"
  by (simp_all add: broadcast_ops_def empty_heap_def msg_make_def msg_copy_def msg_destroy_def
      msg_move_def can_construct_def Let_def)

theorem message_handles_are_values_witness:
  "\<exists>m. exec_ops run_op broadcast_ops empty_heap = Inr m \<and> msg_abs m 24 = Some (Some ''{}'')"
  using message_handles_are_values [OF broadcast_runs(1)] broadcast_runs(2)
  by (auto simp: broadcast_ops_def split: sum.splits)

theorem message_counts_exact_witness:
  "\<exists>m. exec_ops run_op (broadcast_ops @ [Op_destroy 16, Op_destroy 24, Op_destroy 32]) empty_heap = Inr m \<and>
     blocks m = Map.empty"
proof -
  obtain m where m: "exec_ops run_op (broadcast_ops @ [Op_destroy 16, Op_destroy 24, Op_destroy 32]) empty_heap = Inr m"
    and h: "handles m = Map.empty"
    by (simp add: broadcast_ops_def empty_heap_def msg_make_def msg_copy_def msg_destroy_def
        msg_move_def can_construct_def Let_def)
  from message_counts_exact [OF broadcast_runs(3) m] h m show ?thesis by simp
qed

text \<open>
  The memory a message allocates holds the header and the bytes behind it, and wastes less
  than the size of one header, for every size that does not overflow the computation.
\<close>

theorem alloc_units_fit:
  assumes "n + 48 \<le> 2 ^ 64"
  shows "sizeof_impl + n \<le> alloc_units n * sizeof_impl \<and>
    alloc_units n * sizeof_impl < sizeof_impl + n + sizeof_impl"
proof -
  have "alloc_units n = (n + 47) div 24" using assms by (simp add: alloc_units_def sizeof_impl_def add.commute)
  moreover have "(n + 47) = (n + 47) div 24 * 24 + (n + 47) mod 24" by simp
  moreover have "(n + 47) mod 24 < 24" by simp
  ultimately show ?thesis unfolding sizeof_impl_def by linarith
qed

theorem alloc_units_fit_witness: "sizeof_impl + 16384 \<le> alloc_units 16384 * sizeof_impl"
  using alloc_units_fit [of 16384] by simp

end
