(* ===== verification/Rpc.thy ===== *)
theory Rpc
  imports Lounge_Json
begin

text \<open>
  \<^verbatim>\<open>server/core/rpc.hpp\<close> and \<^verbatim>\<open>rpc.cpp\<close>: the JSON-RPC error codes and their messages, the
  exception \<^verbatim>\<open>rpc_error\<close> and its JSON form, the request object \<^verbatim>\<open>rpc_call\<close> with its extraction
  from a JSON value and its two completions, and the \<^verbatim>\<open>checked_*\<close> accessors. A completion
  returns the messages it sends, as pairs of a user and a JSON value.
\<close>

section \<open>Codes and errors\<close>

datatype rpc_code =
    Parse_error
  | Invalid_request
  | Method_not_found
  | Invalid_params
  | Internal_error
  | Expected_object
  | Expected_string_version
  | Unknown_version
  | Invalid_null_id
  | Expected_strnum_id
  | Expected_id
  | Missing_method
  | Expected_string_method
  | Expected_structured_params
  | Missing_params
  | Expected_array_params

fun rpc_code_value :: "rpc_code \<Rightarrow> int" where
  "rpc_code_value Parse_error = - 32700"
| "rpc_code_value Invalid_request = - 32600"
| "rpc_code_value Method_not_found = - 32601"
| "rpc_code_value Invalid_params = - 32602"
| "rpc_code_value Internal_error = - 32603"
| "rpc_code_value Expected_object = 1"
| "rpc_code_value Expected_string_version = 2"
| "rpc_code_value Unknown_version = 3"
| "rpc_code_value Invalid_null_id = 4"
| "rpc_code_value Expected_strnum_id = 5"
| "rpc_code_value Expected_id = 6"
| "rpc_code_value Missing_method = 7"
| "rpc_code_value Expected_string_method = 8"
| "rpc_code_value Expected_structured_params = 9"
| "rpc_code_value Missing_params = 10"
| "rpc_code_value Expected_array_params = 11"

text \<open>The messages of the \<^verbatim>\<open>switch\<close>, one for every enumerator.\<close>

fun rpc_code_message :: "rpc_code \<Rightarrow> string" where
  "rpc_code_message Parse_error =
     ''An error occurred on the server while parsing the JSON text.''"
| "rpc_code_message Invalid_request = ''The JSON sent is not a valid Request object''"
| "rpc_code_message Method_not_found = ''The method does not exist or is not available''"
| "rpc_code_message Invalid_params = ''Invalid method parameters''"
| "rpc_code_message Internal_error = ''Internal JSON-RPC error''"
| "rpc_code_message Expected_object = ''Expected object in JSON-RPC request''"
| "rpc_code_message Expected_string_version = ''Expected string version in JSON-RPC request''"
| "rpc_code_message Unknown_version = ''Uknown version in JSON-RPC request''"
| "rpc_code_message Invalid_null_id = ''Invalid null id in JSON-RPC request''"
| "rpc_code_message Expected_strnum_id = ''Expected string or number id in JSON-RPC request''"
| "rpc_code_message Expected_id = ''Missing id in JSON-RPC request version 1''"
| "rpc_code_message Missing_method = ''Missing method in JSON-RPC request''"
| "rpc_code_message Expected_string_method = ''Expected string method in JSON-RPC request''"
| "rpc_code_message Expected_structured_params =
     ''Expected structured params in JSON-RPC request version 2''"
| "rpc_code_message Missing_params = ''Missing params in JSON-RPC request version 1''"
| "rpc_code_message Expected_array_params =
     ''Expected array params in JSON-RPC request version 1''"

text \<open>The enumerators are finitely many, and listed.\<close>

instantiation rpc_code :: enum
begin

definition enum_rpc_code :: "rpc_code list" where
  "enum_rpc_code =
     [Parse_error, Invalid_request, Method_not_found, Invalid_params, Internal_error,
      Expected_object, Expected_string_version, Unknown_version, Invalid_null_id,
      Expected_strnum_id, Expected_id, Missing_method, Expected_string_method,
      Expected_structured_params, Missing_params, Expected_array_params]"

definition enum_all_rpc_code :: "(rpc_code \<Rightarrow> bool) \<Rightarrow> bool" where
  "enum_all_rpc_code P \<longleftrightarrow> list_all P Enum.enum"

definition enum_ex_rpc_code :: "(rpc_code \<Rightarrow> bool) \<Rightarrow> bool" where
  "enum_ex_rpc_code P \<longleftrightarrow> list_ex P Enum.enum"

instance
proof
  have all: "c \<in> set Enum.enum" for c :: rpc_code by (cases c) (simp_all add: enum_rpc_code_def)
  then show univ: "(UNIV :: rpc_code set) = set Enum.enum" by blast
  show "distinct (Enum.enum :: rpc_code list)" by (simp add: enum_rpc_code_def)
  show "Enum.enum_all P \<longleftrightarrow> Ball UNIV P" "Enum.enum_ex P \<longleftrightarrow> Bex UNIV P" for P :: "rpc_code \<Rightarrow> bool"
    by (simp_all add: enum_all_rpc_code_def enum_ex_rpc_code_def list_all_iff list_ex_iff univ)
qed

end

text \<open>\<^verbatim>\<open>rpc_error_codes::message\<close>: the \<^verbatim>\<open>switch\<close> on the cast value, then the fall-through.\<close>

definition rpc_message :: "int \<Rightarrow> string" where
  "rpc_message ev =
     (case List.find (\<lambda>c. rpc_code_value c = ev) Enum.enum of
        Some c \<Rightarrow> rpc_code_message c
      | None \<Rightarrow>
          if ev \<ge> - 32099 \<and> ev \<le> - 32000
          then ''An implementation defined server error was received''
          else ''Unknown RPC error #'' @ int_to_string ev)"

text \<open>An \<^verbatim>\<open>error_code\<close> is its value with the message its category gives.\<close>

type_synonym error_code = "int \<times> string"

definition make_error_code :: "rpc_code \<Rightarrow> error_code" where
  "make_error_code c = (rpc_code_value c, rpc_message (rpc_code_value c))"

text \<open>The constructors of \<^verbatim>\<open>rpc_error\<close>, which \<^verbatim>\<open>rpc_call::fail\<close> throws.\<close>

definition rpc_error_code_msg :: "rpc_code \<Rightarrow> string \<Rightarrow> exn" where
  "rpc_error_code_msg c msg = Rpc_error (rpc_code_value c) msg"

definition rpc_error_of_code :: "rpc_code \<Rightarrow> exn" where
  "rpc_error_of_code c = rpc_error_code_msg c (snd (make_error_code c))"

definition rpc_error_default :: exn where
  "rpc_error_default = rpc_error_of_code Internal_error"

definition rpc_error_msg :: "string \<Rightarrow> exn" where
  "rpc_error_msg msg = rpc_error_code_msg Invalid_params msg"

definition rpc_error_of_ec :: "error_code \<Rightarrow> exn" where
  "rpc_error_of_ec ec = Rpc_error (fst ec) (snd ec)"

definition rpc_error_to_json :: "int \<Rightarrow> string \<Rightarrow> json option \<Rightarrow> json" where
  "rpc_error_to_json code msg rid =
     (let obj = obj_set ''jsonrpc'' (JStr ''2.0'') [];
          err = obj_set ''message'' (JStr msg) (obj_set ''code'' (JInt code) []);
          obj1 = obj_set ''error'' (JObj err) obj
      in JObj (case rid of None \<Rightarrow> obj1 | Some i \<Rightarrow> obj_set ''id'' i obj1))"

section \<open>Requests\<close>

record rpc_call =
  rid :: "json option"
  ru :: uptr
  version :: int
  "method" :: string
  params :: json
  result :: json

definition make_rpc_call :: "uptr \<Rightarrow> rpc_call" where
  "make_rpc_call u =
     \<lparr>rid = None, ru = u, version = 2, method = [], params = JNull, result = JNull\<rparr>"

text \<open>
  The five blocks of \<^verbatim>\<open>rpc_call::extract\<close>. Each works on the call as the blocks before left it
  and either sets an error, ending the function, or goes on.
\<close>

definition extract_id :: "members \<Rightarrow> rpc_call \<Rightarrow> rpc_call" where
  "extract_id obj c = (case map_of obj ''id'' of None \<Rightarrow> c | Some j \<Rightarrow> c\<lparr>rid := Some j\<rparr>)"

definition extract_version :: "members \<Rightarrow> rpc_call \<Rightarrow> rpc_call \<times> rpc_code option" where
  "extract_version obj c =
     (case map_of obj ''jsonrpc'' of
        None \<Rightarrow> (c\<lparr>version := 1\<rparr>, None)
      | Some (JStr s) \<Rightarrow>
          if s \<noteq> ''2.0'' then (c, Some Unknown_version) else (c\<lparr>version := 2\<rparr>, None)
      | Some _ \<Rightarrow> (c, Some Expected_string_version))"

definition validate_id :: "rpc_call \<Rightarrow> rpc_code option" where
  "validate_id c =
     (if version c = 2 then
        (case rid c of
           None \<Rightarrow> None
         | Some j \<Rightarrow>
             if is_null j then Some Invalid_null_id
             else if \<not> is_number j \<and> \<not> is_string j then Some Expected_strnum_id
             else None)
      else if rid c = None then Some Expected_id else None)"

definition extract_method :: "members \<Rightarrow> rpc_call \<Rightarrow> rpc_call \<times> rpc_code option" where
  "extract_method obj c =
     (case map_of obj ''method'' of
        None \<Rightarrow> (c, Some Missing_method)
      | Some (JStr s) \<Rightarrow> (c\<lparr>method := s\<rparr>, None)
      | Some _ \<Rightarrow> (c, Some Expected_string_method))"

definition extract_params :: "members \<Rightarrow> rpc_call \<Rightarrow> rpc_call \<times> rpc_code option" where
  "extract_params obj c =
     (case map_of obj ''params'' of
        None \<Rightarrow> (c, if version c = 2 then None else Some Missing_params)
      | Some p \<Rightarrow>
          if version c = 2 then
            if \<not> is_object p \<and> \<not> is_array p then (c, Some Expected_structured_params)
            else (c\<lparr>params := p\<rparr>, None)
          else
            if \<not> is_array p then (c, Some Expected_array_params)
            else (c\<lparr>params := p\<rparr>, None))"

fun extract_call :: "rpc_call \<Rightarrow> json \<Rightarrow> rpc_call \<times> rpc_code option" where
  "extract_call c (JObj obj) =
     (let c0 = extract_id obj c in
      case extract_version obj c0 of
        (c1, Some e) \<Rightarrow> (c1, Some e)
      | (c1, None) \<Rightarrow>
          (case validate_id c1 of
             Some e \<Rightarrow> (c1, Some e)
           | None \<Rightarrow>
               (case extract_method obj c1 of
                  (c2, Some e) \<Rightarrow> (c2, Some e)
                | (c2, None) \<Rightarrow> extract_params obj c2)))"
| "extract_call c _ = (c, Some Expected_object)"

text \<open>The two completions: what they send and to whom.\<close>

definition complete :: "rpc_call \<Rightarrow> (uptr \<times> json) list" where
  "complete c =
     (case rid c of
        None \<Rightarrow> []
      | Some i \<Rightarrow>
          [(ru c, JObj (obj_emplace ''result'' (result c) (obj_emplace ''id'' i [])))])"

definition complete_error :: "rpc_call \<Rightarrow> int \<Rightarrow> string \<Rightarrow> (uptr \<times> json) list" where
  "complete_error c code msg =
     (case rid c of
        None \<Rightarrow> []
      | Some _ \<Rightarrow> [(ru c, rpc_error_to_json code msg (rid c))])"

section \<open>Checked access\<close>

fun checked_object :: "json \<Rightarrow> members outcome" where
  "checked_object (JObj ms) = Inr ms"
| "checked_object _ = Inl (rpc_error_msg ''expected object'')"

fun checked_array :: "json \<Rightarrow> json list outcome" where
  "checked_array (JArr js) = Inr js"
| "checked_array _ = Inl (rpc_error_msg ''expected array'')"

fun checked_string :: "json \<Rightarrow> string outcome" where
  "checked_string (JStr s) = Inr s"
| "checked_string _ = Inl (rpc_error_msg ''expected string'')"

text \<open>
  The test is \<^verbatim>\<open>is_number\<close>, the access is \<^verbatim>\<open>get_uint64\<close>, which does not check: it is undefined
  on a number of another kind.
\<close>

definition checked_uint64 :: "json \<Rightarrow> nat outcome" where
  "checked_uint64 jv =
     (if \<not> is_number jv then Inl (rpc_error_msg ''expected number'')
      else case jv of JUint n \<Rightarrow> Inr n | _ \<Rightarrow> Inl Undefined)"

fun checked_bool :: "json \<Rightarrow> bool outcome" where
  "checked_bool (JBool b) = Inr b"
| "checked_bool _ = Inl (rpc_error_msg ''expected bool'')"

definition checked_null :: "json \<Rightarrow> unit outcome" where
  "checked_null jv = (if \<not> is_null jv then Inl (rpc_error_msg ''expected null'') else Inr ())"

definition checked_value :: "json \<Rightarrow> string \<Rightarrow> json outcome" where
  "checked_value jv key =
     (case checked_object jv of
        Inl e \<Rightarrow> Inl e
      | Inr obj \<Rightarrow>
          (case map_of obj key of
             None \<Rightarrow> Inl (rpc_error_msg (''key '' @ [CHR 0x27] @ key @ [CHR 0x27] @ '' not found''))
           | Some v \<Rightarrow> Inr v))"

text \<open>The overloads with a key: the member, then the test for its kind.\<close>

definition with_key :: "(json \<Rightarrow> 'a outcome) \<Rightarrow> json \<Rightarrow> string \<Rightarrow> 'a outcome" where
  "with_key f jv key = (case checked_value jv key of Inl e \<Rightarrow> Inl e | Inr v \<Rightarrow> f v)"

definition checked_object_key :: "json \<Rightarrow> string \<Rightarrow> members outcome" where
  "checked_object_key = with_key checked_object"

definition checked_array_key :: "json \<Rightarrow> string \<Rightarrow> json list outcome" where
  "checked_array_key = with_key checked_array"

definition checked_string_key :: "json \<Rightarrow> string \<Rightarrow> string outcome" where
  "checked_string_key = with_key checked_string"

definition checked_uint64_key :: "json \<Rightarrow> string \<Rightarrow> nat outcome" where
  "checked_uint64_key = with_key checked_uint64"

definition checked_bool_key :: "json \<Rightarrow> string \<Rightarrow> bool outcome" where
  "checked_bool_key = with_key checked_bool"

definition checked_null_key :: "json \<Rightarrow> string \<Rightarrow> unit outcome" where
  "checked_null_key = with_key checked_null"

section \<open>Properties\<close>

named_theorems rpc_defs \<open>the blocks of the extraction\<close>

declare extract_id_def [rpc_defs] extract_version_def [rpc_defs] validate_id_def [rpc_defs]
  extract_method_def [rpc_defs] extract_params_def [rpc_defs]

lemmas rpc_splits = option.splits json.splits prod.splits if_splits

lemma rpc_error_makers [simp]:
  "rpc_error_msg m = Rpc_error (- 32602) m"
  "rpc_error_code_msg c m = Rpc_error (rpc_code_value c) m"
  by (simp_all add: rpc_error_msg_def rpc_error_code_msg_def)

lemma is_object_conv: "is_object j \<longleftrightarrow> (\<exists>ms. j = JObj ms)"
  and is_array_conv: "is_array j \<longleftrightarrow> (\<exists>js. j = JArr js)"
  and is_string_conv: "is_string j \<longleftrightarrow> (\<exists>s. j = JStr s)"
  and is_null_conv: "is_null j \<longleftrightarrow> j = JNull"
  by (cases j; simp)+

lemma extract_block_keeps:
  "extract_version obj c = (c', e) \<Longrightarrow> ru c' = ru c \<and> result c' = result c \<and> rid c' = rid c"
  "extract_method obj c = (c', e) \<Longrightarrow> ru c' = ru c \<and> result c' = result c \<and> rid c' = rid c"
  "ru (fst (extract_params obj c)) = ru c \<and> result (fst (extract_params obj c)) = result c \<and>
   rid (fst (extract_params obj c)) = rid c"
  by (auto simp: extract_version_def extract_method_def extract_params_def
      split: option.splits json.splits if_splits)

lemma extract_call_keeps:
  "ru (fst (extract_call c jv)) = ru c \<and> result (fst (extract_call c jv)) = result c \<and>
   rid (fst (extract_call c jv)) = (case member_of jv ''id'' of None \<Rightarrow> rid c | Some i \<Rightarrow> Some i)"
proof (cases jv)
  case (JObj obj)
  have "rid (extract_id obj c) = (case map_of obj ''id'' of None \<Rightarrow> rid c | Some i \<Rightarrow> Some i)"
    "ru (extract_id obj c) = ru c" "result (extract_id obj c) = result c"
    by (simp_all add: extract_id_def split: option.splits)
  then show ?thesis
    by (auto simp: JObj Let_def extract_block_keeps(3) dest!: extract_block_keeps(1,2)
        split: prod.splits option.split)
qed simp_all

text \<open>
  What the two versions of the protocol ask of a request, as the specification of \<^verbatim>\<open>extract\<close>.
\<close>

definition v2_request :: "json \<Rightarrow> bool" where
  "v2_request jv \<longleftrightarrow>
     member_of jv ''jsonrpc'' = Some (JStr ''2.0'') \<and>
     pred_option (\<lambda>i. is_number i \<or> is_string i) (member_of jv ''id'') \<and>
     pred_option (\<lambda>p. is_object p \<or> is_array p) (member_of jv ''params'')"

definition v1_request :: "json \<Rightarrow> bool" where
  "v1_request jv \<longleftrightarrow>
     member_of jv ''jsonrpc'' = None \<and> member_of jv ''id'' \<noteq> None \<and>
     (\<exists>ps. member_of jv ''params'' = Some (JArr ps))"

lemma extract_accepts_iff:
  "extract_call (make_rpc_call u) jv = (c, None) \<longleftrightarrow>
     (\<exists>m. member_of jv ''method'' = Some (JStr m) \<and> (v2_request jv \<or> v1_request jv) \<and>
        c = \<lparr>rid = member_of jv ''id'', ru = u,
              version = (if member_of jv ''jsonrpc'' = None then 1 else 2), method = m,
              params = (case member_of jv ''params'' of None \<Rightarrow> JNull | Some p \<Rightarrow> p),
              result = JNull\<rparr>)"
proof (cases "is_object jv")
  case False
  then have "snd (extract_call (make_rpc_call u) jv) = Some Expected_object" by (cases jv) auto
  moreover have "member_of jv ''method'' = None" using False by (cases jv) auto
  ultimately show ?thesis by auto
next
  case True
  then obtain obj where jv: "jv = JObj obj" by (auto simp: is_object_conv)
  show ?thesis
    unfolding jv extract_call.simps rpc_defs v2_request_def v1_request_def make_rpc_call_def
      member_of.simps Let_def
    by (cases "map_of obj ''jsonrpc''"; cases "map_of obj ''id''"; cases "map_of obj ''method''";
        cases "map_of obj ''params''")
      (auto simp: is_array_conv is_null_conv split: json.splits if_splits)
qed

text \<open>
  C22: \<^verbatim>\<open>extract\<close> succeeds on exactly the requests of one of the two versions that name a method, and
  the call it fills in has the id, version, method and parameters of the request, the user it was
  made for and an empty result.
\<close>

theorem extract_accepts_exactly:
  "extract_call (make_rpc_call u) jv = (c, None) \<longleftrightarrow>
     (\<exists>m. member_of jv ''method'' = Some (JStr m) \<and> (v2_request jv \<or> v1_request jv) \<and>
        c = \<lparr>rid = member_of jv ''id'', ru = u,
              version = (if member_of jv ''jsonrpc'' = None then 1 else 2), method = m,
              params = (case member_of jv ''params'' of None \<Rightarrow> JNull | Some p \<Rightarrow> p),
              result = JNull\<rparr>)"
  by (rule extract_accepts_iff)

text \<open>
  Whatever \<^verbatim>\<open>extract\<close> finds wrong with a request, the id of the request is in the call: a
  request with an id is answered, by a success and by an error alike, with exactly one message to
  its user that carries that id, and a request without one is not answered. A success response has
  no \<^verbatim>\<open>jsonrpc\<close> member.
\<close>

theorem responses_echo_id:
  "let c = fst (extract_call (make_rpc_call u) jv) in
   (case member_of jv ''id'' of
      None \<Rightarrow> complete c = [] \<and> complete_error c code msg = []
    | Some i \<Rightarrow>
        complete (c\<lparr>result := r\<rparr>) = [(u, JObj [(''id'', i), (''result'', r)])] \<and>
        complete_error c code msg =
          [(u, JObj [(''jsonrpc'', JStr ''2.0''),
                     (''error'', JObj [(''code'', JInt code), (''message'', JStr msg)]),
                     (''id'', i)])])"
proof -
  let ?c = "fst (extract_call (make_rpc_call u) jv)"
  have "rid ?c = member_of jv ''id''" "ru ?c = u"
    by (simp_all add: extract_call_keeps make_rpc_call_def split: option.splits)
  then show ?thesis
    by (simp add: complete_def complete_error_def rpc_error_to_json_def obj_emplace_def Let_def
        split: option.splits)
qed

lemma rpc_code_value_inj [simp]: "rpc_code_value c = rpc_code_value d \<longleftrightarrow> c = d"
  by (cases c; cases d; simp)

text \<open>
  The numeric codes of the enumerators are distinct, the message of every code is the one its
  enumerator has in the \<^verbatim>\<open>switch\<close>, and an unknown code outside the server range can be read back
  from its message.
\<close>

theorem rpc_messages_by_code:
  "(rpc_code_value c = rpc_code_value d \<longleftrightarrow> c = d) \<and>
   rpc_message (rpc_code_value c) = rpc_code_message c \<and>
   digits_value (drop 19 (rpc_message (12 + int n))) = 12 + n"
proof -
  have "List.find (\<lambda>x. x = c) Enum.enum \<noteq> None"
    by (auto simp: find_None_iff enum_UNIV)
  then have "List.find (\<lambda>x. x = c) Enum.enum = Some c"
    by (auto simp: find_Some_iff)
  moreover have "List.find (\<lambda>x. rpc_code_value x = 12 + int n) Enum.enum = None"
    by (simp add: enum_rpc_code_def)
  ultimately show ?thesis by (simp add: rpc_message_def int_to_string_def nat_add_distrib)
qed

lemma checked_value_Inr_iff:
  "checked_value jv k = Inr v \<longleftrightarrow> member_of jv k = Some v"
  by (cases jv) (auto simp: checked_value_def split: option.splits)

lemma checked_value_Inl:
  "checked_value jv k = Inl e \<Longrightarrow> is_rpc_error e"
  by (cases jv) (auto simp: checked_value_def split: option.splits)

lemma with_key_Inr_iff:
  "with_key f jv k = Inr x \<longleftrightarrow> (\<exists>v. member_of jv k = Some v \<and> f v = Inr x)"
  by (auto simp: with_key_def checked_value_Inr_iff [symmetric] split: sum.splits)

lemma with_key_Inl:
  assumes "with_key f jv k = Inl e" and "\<And>v e. f v = Inl e \<Longrightarrow> is_rpc_error e"
  shows "is_rpc_error e"
  using assms by (auto simp: with_key_def dest: checked_value_Inl split: sum.splits)

lemma checked_kind_Inl:
  "checked_object v = Inl e \<Longrightarrow> is_rpc_error e" "checked_array v = Inl e \<Longrightarrow> is_rpc_error e"
  "checked_string v = Inl e \<Longrightarrow> is_rpc_error e" "checked_bool v = Inl e \<Longrightarrow> is_rpc_error e"
  "checked_null v = Inl e \<Longrightarrow> is_rpc_error e"
  by (cases v; auto simp: checked_null_def)+

text \<open>
  The accessors for objects, arrays, strings and booleans return a member exactly when it is
  there with that kind, and throw an \<^verbatim>\<open>rpc_error\<close>, which the dispatcher answers, in every other
  case; the accessor for unsigned numbers reads past the type on every number that is signed or
  floating.
\<close>

theorem checked_accessors:
  "(checked_object_key jv k = Inr ms \<longleftrightarrow> member_of jv k = Some (JObj ms)) \<and>
   (checked_array_key jv k = Inr js \<longleftrightarrow> member_of jv k = Some (JArr js)) \<and>
   (checked_string_key jv k = Inr s \<longleftrightarrow> member_of jv k = Some (JStr s)) \<and>
   (checked_bool_key jv k = Inr b \<longleftrightarrow> member_of jv k = Some (JBool b)) \<and>
   (checked_uint64_key jv k = Inr n \<longleftrightarrow> member_of jv k = Some (JUint n)) \<and>
   (checked_string_key jv k = Inl e \<longrightarrow> is_rpc_error e) \<and>
   (checked_uint64_key jv k = Inl Undefined \<longleftrightarrow>
      (\<exists>v. member_of jv k = Some v \<and> is_number v \<and> (\<forall>n. v \<noteq> JUint n)))"
proof -
  have kinds: "checked_object v = Inr ms \<longleftrightarrow> v = JObj ms" "checked_array v = Inr js \<longleftrightarrow> v = JArr js"
    "checked_string v = Inr s \<longleftrightarrow> v = JStr s" "checked_bool v = Inr b \<longleftrightarrow> v = JBool b"
    "checked_uint64 v = Inr n \<longleftrightarrow> v = JUint n"
    "checked_uint64 v = Inl Undefined \<longleftrightarrow> is_number v \<and> (\<forall>n. v \<noteq> JUint n)" for v
    by (cases v; auto simp: checked_uint64_def)+
  have "checked_uint64_key jv k = Inl Undefined \<longleftrightarrow>
      (\<exists>v. member_of jv k = Some v \<and> is_number v \<and> (\<forall>n. v \<noteq> JUint n))"
    using checked_value_Inl [of jv k Undefined]
    by (auto simp: checked_uint64_key_def with_key_def kinds checked_value_Inr_iff [symmetric]
        split: sum.splits)
  then show ?thesis
    by (auto simp: checked_object_key_def checked_array_key_def checked_string_key_def
        checked_bool_key_def with_key_Inr_iff kinds checked_uint64_key_def
        intro: with_key_Inl checked_kind_Inl(3))
qed

theorem checked_accessors_witness:
  "checked_uint64_key (JObj [(''n'', JInt 5)]) ''n'' = Inl Undefined"
  using checked_accessors [of "JObj [(''n'', JInt 5)]" "''n''"] by simp

end
