(* ===== verification/Lounge_State.thy ===== *)
theory Lounge_State
  imports Message Rpc
begin

text \<open>
  The state the channels share: the \<^verbatim>\<open>user\<close> objects (\<^verbatim>\<open>user.hpp\<close>), the \<^verbatim>\<open>channel\<close> objects
  (\<^verbatim>\<open>channel.hpp\<close>), the vector and the counters of the \<^verbatim>\<open>channel_list_impl\<close>, and what has been
  handed to the users' sessions for sending, in order. A function that may throw maps a state to
  an outcome and a state, so that what it did before throwing is visible.
\<close>

section \<open>Actions\<close>

type_synonym ('w, 'a) act = "'w \<Rightarrow> 'a outcome \<times> 'w"

definition ret :: "'a \<Rightarrow> ('w, 'a) act" where
  "ret x w = (Inr x, w)"

definition throw :: "exn \<Rightarrow> ('w, 'a) act" where
  "throw e w = (Inl e, w)"

definition bind_act :: "('w, 'a) act \<Rightarrow> ('a \<Rightarrow> ('w, 'b) act) \<Rightarrow> ('w, 'b) act" where
  "bind_act m f w = (case m w of (Inl e, w') \<Rightarrow> (Inl e, w') | (Inr x, w') \<Rightarrow> f x w')"

definition seq_act :: "('w, 'a) act \<Rightarrow> ('w, 'b) act \<Rightarrow> ('w, 'b) act" where
  "seq_act m n = bind_act m (\<lambda>_. n)"

text \<open>The value of an outcome as an action, and a change of the state.\<close>

definition lift_act :: "'a outcome \<Rightarrow> ('w, 'a) act" where
  "lift_act r w = (r, w)"

definition modify :: "('w \<Rightarrow> 'w) \<Rightarrow> ('w, unit) act" where
  "modify f w = (Inr (), f w)"

text \<open>\<^verbatim>\<open>try ... catch(rpc_error const& e)\<close>: any other exception goes through.\<close>

definition catch_rpc :: "('w, 'a) act \<Rightarrow> (int \<Rightarrow> string \<Rightarrow> ('w, 'a) act) \<Rightarrow> ('w, 'a) act" where
  "catch_rpc m h w =
     (case m w of
        (Inl (Rpc_error c s), w') \<Rightarrow> h c s w'
      | (Inl e, w') \<Rightarrow> (Inl e, w')
      | (Inr x, w') \<Rightarrow> (Inr x, w'))"

lemma ret_eq [simp]: "ret x w = (Inr x, w)"
  by (simp add: ret_def)

lemma throw_eq [simp]: "throw e w = (Inl e, w)"
  by (simp add: throw_def)

lemma modify_eq [simp]: "modify f w = (Inr (), f w)"
  by (simp add: modify_def)

lemma lift_eq [simp]: "lift_act r w = (r, w)"
  by (simp add: lift_act_def)

lemma bind_act_Inr_iff:
  "bind_act m f w = (Inr y, w2) \<longleftrightarrow> (\<exists>x w1. m w = (Inr x, w1) \<and> f x w1 = (Inr y, w2))"
  by (auto simp: bind_act_def split: prod.splits sum.splits)

lemma bind_act_simps:
  "m w = (Inr x, w1) \<Longrightarrow> bind_act m f w = f x w1"
  "m w = (Inl e, w1) \<Longrightarrow> bind_act m f w = (Inl e, w1)"
  by (simp_all add: bind_act_def)

lemma seq_act_simps:
  "m w = (Inr x, w1) \<Longrightarrow> seq_act m n w = n w1"
  "m w = (Inl e, w1) \<Longrightarrow> seq_act m n w = (Inl e, w1)"
  by (simp_all add: seq_act_def bind_act_def)

lemma bind_ret [simp]: "bind_act (ret x) f w = f x w"
  by (simp add: bind_act_def)

lemma bind_throw [simp]: "bind_act (throw e) f w = (Inl e, w)"
  by (simp add: bind_act_def)

lemma bind_modify [simp]: "bind_act (modify g) f w = f () (g w)"
  by (simp add: bind_act_def)

lemma bind_lift [simp]:
  "bind_act (lift_act (Inr x)) f w = f x w" "bind_act (lift_act (Inl e)) f w = (Inl e, w)"
  by (simp_all add: bind_act_def)

lemma seq_ret [simp]: "seq_act (ret x) n w = n w"
  by (simp add: seq_act_def)

lemma seq_throw [simp]: "seq_act (throw e) n w = (Inl e, w)"
  by (simp add: seq_act_def)

lemma seq_modify [simp]: "seq_act (modify g) n w = n (g w)"
  by (simp add: seq_act_def)

text \<open>A property of states that an action keeps whatever its outcome is.\<close>

definition keeps :: "('w \<Rightarrow> bool) \<Rightarrow> ('w, 'a) act \<Rightarrow> bool" where
  "keeps P m \<longleftrightarrow> (\<forall>w. P w \<longrightarrow> P (snd (m w)))"

named_theorems keeps_intros \<open>actions that keep an invariant\<close>

lemma keepsD: "keeps P m \<Longrightarrow> P w \<Longrightarrow> P (snd (m w))"
  by (simp add: keeps_def)

lemma keeps_ret [keeps_intros]: "keeps P (ret x)"
  and keeps_throw [keeps_intros]: "keeps P (throw e)"
  and keeps_lift [keeps_intros]: "keeps P (lift_act r)"
  by (simp_all add: keeps_def)

lemma keeps_modify: "(\<And>w. P w \<Longrightarrow> P (f w)) \<Longrightarrow> keeps P (modify f)"
  by (simp add: keeps_def)

lemma keeps_bind [keeps_intros]:
  assumes "keeps P m" and "\<And>x. keeps P (f x)"
  shows "keeps P (bind_act m f)"
  using assms by (auto simp: keeps_def bind_act_def split: prod.splits sum.splits)

lemma keeps_seq [keeps_intros]: "keeps P m \<Longrightarrow> keeps P n \<Longrightarrow> keeps P (seq_act m n)"
  by (simp add: seq_act_def keeps_bind)

lemma keeps_catch [keeps_intros]:
  assumes "keeps P m" and "\<And>c s. keeps P (h c s)"
  shows "keeps P (catch_rpc m h)"
  using assms by (auto simp: keeps_def catch_rpc_def split: prod.splits sum.splits exn.splits)

lemma keeps_if [keeps_intros]: "keeps P m \<Longrightarrow> keeps P n \<Longrightarrow> keeps P (if b then m else n)"
  by simp

section \<open>The state\<close>

type_synonym cptr = nat

text \<open>
  A user object: its name, empty until it identifies, the set of channels it is in, and whether a
  strong reference exists, which \<^verbatim>\<open>weak_from(u).lock()\<close> tests and the destructor runs without.
\<close>

record user_obj =
  uname :: string
  uchans :: "cptr list"
  ualive :: bool

datatype chan_kind = Room_impl | System_channel | Table

record channel =
  chan_uid :: "64 word"
  cid :: nat
  cname :: string
  cusers :: "uptr list"
  ckind :: chan_kind

record world =
  usrs :: "uptr \<rightharpoonup> user_obj"
  chans :: "cptr \<rightharpoonup> channel"
  cvec :: "cptr option list"
  next_uid :: "64 word"
  next_cid :: "64 word"
  sent :: "(uptr \<times> message) list"

text \<open>
  The parts of the program that are not the repository's: the JSON serializer and the checked
  numeric conversion \<^verbatim>\<open>json::number_cast<std::size_t>\<close>.
\<close>

record env =
  env_sr :: serializer
  env_number_cast :: "json \<Rightarrow> nat outcome"

text \<open>What \<^verbatim>\<open>number_cast\<close> documents: a value or a \<^verbatim>\<open>system_error\<close>, and a value for a natural number.\<close>

definition number_cast_ok :: "(json \<Rightarrow> nat outcome) \<Rightarrow> bool" where
  "number_cast_ok nc \<longleftrightarrow>
     (\<forall>j e. nc j = Inl e \<longrightarrow> e = System_error) \<and>
     (\<forall>n. n < 2 ^ 64 \<longrightarrow> nc (JUint n) = Inr n) \<and>
     (\<forall>j. \<not> is_number j \<longrightarrow> nc j = Inl System_error)"

text \<open>\<^verbatim>\<open>user::send\<close> of a message and of a JSON value.\<close>

definition user_send :: "uptr \<Rightarrow> message \<Rightarrow> ('a world_scheme, unit) act" where
  "user_send u m = modify (\<lambda>w. w\<lparr>sent := sent w @ [(u, m)]\<rparr>)"

definition user_send_json :: "env \<Rightarrow> uptr \<Rightarrow> json \<Rightarrow> ('a world_scheme, unit) act" where
  "user_send_json E u jv = user_send u (make_message (env_sr E) jv)"

text \<open>The completions of \<^verbatim>\<open>rpc_call\<close> on the state.\<close>

fun send_all :: "env \<Rightarrow> (uptr \<times> json) list \<Rightarrow> ('a world_scheme, unit) act" where
  "send_all E [] = ret ()"
| "send_all E (x # xs) = seq_act (user_send_json E (fst x) (snd x)) (send_all E xs)"

definition do_complete :: "env \<Rightarrow> rpc_call \<Rightarrow> ('a world_scheme, unit) act" where
  "do_complete E c = send_all E (complete c)"

definition do_complete_error :: "env \<Rightarrow> rpc_call \<Rightarrow> int \<Rightarrow> string \<Rightarrow> ('a world_scheme, unit) act" where
  "do_complete_error E c code msg = send_all E (complete_error c code msg)"

lemma send_all_eq:
  "send_all E xs w =
     (Inr (), w\<lparr>sent := sent w @ map (\<lambda>x. (fst x, make_message (env_sr E) (snd x))) xs\<rparr>)"
  by (induction xs arbitrary: w) (simp_all add: user_send_json_def user_send_def)

end
