(* ===== verification/Channel.thy ===== *)
theory Channel
  imports Lounge_State
begin

text \<open>
  \<^verbatim>\<open>server/core/channel.cpp\<close>, \<^verbatim>\<open>user.cpp\<close> and \<^verbatim>\<open>channel_list.cpp\<close>: membership of users in channels,
  kept on both sides, the broadcasts that go with it, the destructor of a user, the vector of
  channels with its counters, and the dispatch of a request to a channel. The virtual functions
  of a channel are parameters of the operations that call them, and the contract they keep is a
  locale.
\<close>

section \<open>The code\<close>

subsection \<open>user\<close>

definition get_user :: "uptr \<Rightarrow> ('a world_scheme, user_obj) act" where
  "get_user u w = (case usrs w u of None \<Rightarrow> (Inl Undefined, w) | Some x \<Rightarrow> (Inr x, w))"

definition get_chan :: "cptr \<Rightarrow> ('a world_scheme, channel) act" where
  "get_chan c w = (case chans w c of None \<Rightarrow> (Inl Undefined, w) | Some x \<Rightarrow> (Inr x, w))"

definition set_user :: "uptr \<Rightarrow> user_obj \<Rightarrow> ('a world_scheme, unit) act" where
  "set_user u x = modify (\<lambda>w. w\<lparr>usrs := (usrs w)(u \<mapsto> x)\<rparr>)"

definition set_chan :: "cptr \<Rightarrow> channel \<Rightarrow> ('a world_scheme, unit) act" where
  "set_chan c x = modify (\<lambda>w. w\<lparr>chans := (chans w)(c \<mapsto> x)\<rparr>)"

definition user_on_insert :: "uptr \<Rightarrow> cptr \<Rightarrow> ('a world_scheme, unit) act" where
  "user_on_insert u c =
     bind_act (get_user u) (\<lambda>x.
       let (cs, fresh) = flat_insert c (uchans x) in
       seq_act (set_user u (x\<lparr>uchans := cs\<rparr>))
         (if fresh then ret () else throw Assert_failed))"

definition user_on_erase :: "uptr \<Rightarrow> cptr \<Rightarrow> ('a world_scheme, unit) act" where
  "user_on_erase u c =
     bind_act (get_user u) (\<lambda>x.
       let (cs, n) = flat_erase c (uchans x) in
       seq_act (set_user u (x\<lparr>uchans := cs\<rparr>))
         (if n = 1 then ret () else throw Assert_failed))"

subsection \<open>channel\<close>

text \<open>
  \<^verbatim>\<open>channel::send(message)\<close>: the users are collected first, then the message goes to those that
  can be locked. A weak pointer from a destroyed user is undefined.
\<close>

fun send_to :: "uptr list \<Rightarrow> message \<Rightarrow> ('a world_scheme, unit) act" where
  "send_to [] m = ret ()"
| "send_to (u # us) m =
     bind_act (get_user u) (\<lambda>x.
       if ualive x then seq_act (user_send u m) (send_to us m) else send_to us m)"

definition chan_send :: "env \<Rightarrow> cptr \<Rightarrow> json \<Rightarrow> ('a world_scheme, unit) act" where
  "chan_send E c jv =
     bind_act (get_chan c) (\<lambda>x. send_to (cusers x) (make_message (env_sr E) jv))"

definition is_joined :: "cptr \<Rightarrow> uptr \<Rightarrow> ('a world_scheme, bool) act" where
  "is_joined c u = bind_act (get_chan c) (\<lambda>x. ret (u \<in> set (cusers x)))"

definition member_json :: "channel \<Rightarrow> string \<Rightarrow> string \<Rightarrow> json" where
  "member_json c verb user =
     JObj (obj_set ''user'' (JStr user) (obj_set ''name'' (JStr (cname c))
       (obj_set ''verb'' (JStr verb) (obj_set ''cid'' (JUint (cid c)) []))))"

text \<open>A virtual function of a channel that is called for a user.\<close>

type_synonym 'w hook = "cptr \<Rightarrow> uptr \<Rightarrow> ('w, unit) act"

definition chan_insert ::
    "'a world_scheme hook \<Rightarrow> env \<Rightarrow> cptr \<Rightarrow> uptr \<Rightarrow> ('a world_scheme, bool) act" where
  "chan_insert on_ins E c u =
     bind_act (get_chan c) (\<lambda>x.
       let (us, inserted) = flat_insert u (cusers x) in
       seq_act (set_chan c (x\<lparr>cusers := us\<rparr>))
         (if \<not> inserted then ret False
          else bind_act (get_user u) (\<lambda>y.
            seq_act (chan_send E c (member_json x ''join'' (uname y)))
              (seq_act (user_on_insert u c)
                (seq_act (on_ins c u) (ret True))))))"

definition chan_erase ::
    "'a world_scheme hook \<Rightarrow> env \<Rightarrow> cptr \<Rightarrow> uptr \<Rightarrow> ('a world_scheme, bool) act" where
  "chan_erase on_era E c u =
     bind_act (get_chan c) (\<lambda>x.
       let (us, n) = flat_erase u (cusers x) in
       seq_act (set_chan c (x\<lparr>cusers := us\<rparr>))
         (if n = 0 then ret False
          else bind_act (get_user u) (\<lambda>y.
            let jv = member_json x ''leave'' (uname y) in
            seq_act (chan_send E c jv)
              (seq_act (if ualive y then user_send_json E u jv else ret ())
                (seq_act (user_on_erase u c)
                  (seq_act (on_era c u) (ret True)))))))"

definition checked_user :: "rpc_call \<Rightarrow> ('a world_scheme, unit) act" where
  "checked_user r =
     bind_act (get_user (ru r)) (\<lambda>y.
       if uname y = [] then throw (rpc_error_msg ''No identity set'') else ret ())"

definition do_join :: "'a world_scheme hook \<Rightarrow> env \<Rightarrow> cptr \<Rightarrow> rpc_call \<Rightarrow> ('a world_scheme, unit) act" where
  "do_join on_ins E c r =
     seq_act (checked_user r)
       (bind_act (chan_insert on_ins E c (ru r)) (\<lambda>ok.
          if \<not> ok then throw (rpc_error_msg ''Already in channel'') else do_complete E r))"

definition do_leave :: "'a world_scheme hook \<Rightarrow> env \<Rightarrow> cptr \<Rightarrow> rpc_call \<Rightarrow> ('a world_scheme, unit) act" where
  "do_leave on_era E c r =
     bind_act (chan_erase on_era E c (ru r)) (\<lambda>ok.
       if \<not> ok then throw (rpc_error_msg ''Not in channel'') else do_complete E r)"

definition chan_dispatch ::
    "'a world_scheme hook \<Rightarrow> 'a world_scheme hook \<Rightarrow> (cptr \<Rightarrow> rpc_call \<Rightarrow> ('a world_scheme, unit) act) \<Rightarrow>
     env \<Rightarrow> cptr \<Rightarrow> rpc_call \<Rightarrow> ('a world_scheme, unit) act" where
  "chan_dispatch on_ins on_era on_disp E c r =
     (if method r = ''join'' then do_join on_ins E c r
      else if method r = ''leave'' then do_leave on_era E c r
      else on_disp c r)"

text \<open>
  The destructor of a user: the loop erases the user from its last channel until it is in none.
  \<open>None\<close> is a loop that does not end.
\<close>

partial_function (option) user_dtor_loop ::
    "'a world_scheme hook \<Rightarrow> env \<Rightarrow> uptr \<Rightarrow> 'a world_scheme \<Rightarrow> (unit outcome \<times> 'a world_scheme) option" where
  "user_dtor_loop on_era E u w =
     (case usrs w u of
        None \<Rightarrow> Some (Inl Undefined, w)
      | Some x \<Rightarrow>
          if uchans x = [] then Some (Inr (), w)
          else (case chan_erase on_era E (last (uchans x)) u w of
             (Inl e, w') \<Rightarrow> Some (Inl e, w')
           | (Inr _, w') \<Rightarrow> user_dtor_loop on_era E u w'))"

text \<open>
  Destroying a user whose last strong reference is gone: the destructor, then its memory.
\<close>

definition user_destroy ::
    "'a world_scheme hook \<Rightarrow> env \<Rightarrow> uptr \<Rightarrow> 'a world_scheme \<Rightarrow> (unit outcome \<times> 'a world_scheme) option" where
  "user_destroy on_era E u w =
     (case usrs w u of
        None \<Rightarrow> Some (Inl Undefined, w)
      | Some x \<Rightarrow>
          (case user_dtor_loop on_era E u (w\<lparr>usrs := (usrs w)(u \<mapsto> x\<lparr>ualive := False\<rparr>)\<rparr>) of
             None \<Rightarrow> None
           | Some (Inl e, w') \<Rightarrow> Some (Inl e, w')
           | Some (Inr _, w') \<Rightarrow> Some (Inr (), w'\<lparr>usrs := (usrs w')(u := None)\<rparr>)))"

subsection \<open>channel_list\<close>

definition cl_init :: "world" where
  "cl_init = \<lparr>usrs = Map.empty, chans = Map.empty, cvec = [None], next_uid = 1000, next_cid = 1000,
     sent = []\<rparr>"

definition cl_at :: "nat \<Rightarrow> 'a world_scheme \<Rightarrow> cptr option" where
  "cl_at i w = (if i \<ge> length (cvec w) then None else cvec w ! i)"

definition cl_next_uid :: "('a world_scheme, 64 word) act" where
  "cl_next_uid w = (let n = next_uid w + 1 in (Inr n, w\<lparr>next_uid := n\<rparr>))"

definition cl_next_cid :: "('a world_scheme, 64 word) act" where
  "cl_next_cid w = (let n = next_cid w + 1 in (Inr n, w\<lparr>next_cid := n\<rparr>))"

text \<open>\<^verbatim>\<open>vector::resize\<close>, which \<^verbatim>\<open>insert\<close> calls with \<^verbatim>\<open>max(cid + 1, size)\<close> before it sets the element.\<close>

definition resize_vec :: "nat \<Rightarrow> cptr option list \<Rightarrow> cptr option list" where
  "resize_vec n xs = take n xs @ replicate (n - length xs) None"

definition cl_insert :: "cptr \<Rightarrow> ('a world_scheme, unit) act" where
  "cl_insert c =
     bind_act (get_chan c) (\<lambda>x.
       seq_act (modify (\<lambda>w. w\<lparr>cvec := resize_vec (max (cid x + 1) (length (cvec w))) (cvec w)\<rparr>))
         (\<lambda>w. if cvec w ! cid x \<noteq> None then (Inl Assert_failed, w)
              else (Inr (), w\<lparr>cvec := (cvec w)[cid x := Some c]\<rparr>)))"

definition cl_erase :: "cptr \<Rightarrow> ('a world_scheme, unit) act" where
  "cl_erase c =
     bind_act (get_chan c) (\<lambda>x w.
       if cid x < length (cvec w) then (Inr (), w\<lparr>cvec := (cvec w)[cid x := None]\<rparr>)
       else (Inl Assert_failed, w))"

text \<open>
  The constructors of \<^verbatim>\<open>channel\<close>, with a channel id from the list or a reserved one, for an object
  at address \<open>c\<close>, and the template \<^verbatim>\<open>insert<T>\<close> that puts a new object into the list.
\<close>

definition channel_ctor :: "cptr \<Rightarrow> string \<Rightarrow> chan_kind \<Rightarrow> ('a world_scheme, unit) act" where
  "channel_ctor c nm k =
     bind_act cl_next_uid (\<lambda>uid. bind_act cl_next_cid (\<lambda>ci.
       set_chan c \<lparr>chan_uid = uid, cid = unat ci, cname = nm, cusers = [], ckind = k\<rparr>))"

definition channel_ctor_reserved :: "cptr \<Rightarrow> nat \<Rightarrow> string \<Rightarrow> chan_kind \<Rightarrow> ('a world_scheme, unit) act" where
  "channel_ctor_reserved c reserved nm k =
     bind_act cl_next_uid (\<lambda>uid.
       set_chan c \<lparr>chan_uid = uid, cid = reserved, cname = nm, cusers = [], ckind = k\<rparr>)"

definition channel_dtor :: "cptr \<Rightarrow> ('a world_scheme, unit) act" where
  "channel_dtor c =
     bind_act (get_chan c) (\<lambda>x.
       if cusers x \<noteq> [] then throw Assert_failed
       else seq_act (cl_erase c) (modify (\<lambda>w. w\<lparr>chans := (chans w)(c := None)\<rparr>)))"

definition insert_channel :: "cptr \<Rightarrow> nat \<Rightarrow> string \<Rightarrow> chan_kind \<Rightarrow> ('a world_scheme, unit) act" where
  "insert_channel c reserved nm k = seq_act (channel_ctor_reserved c reserved nm k) (cl_insert c)"

definition cl_dispatch ::
    "(cptr \<Rightarrow> rpc_call \<Rightarrow> ('a world_scheme, unit) act) \<Rightarrow> env \<Rightarrow> rpc_call \<Rightarrow> ('a world_scheme, unit) act" where
  "cl_dispatch disp E r =
     bind_act (lift_act (checked_value (params r) ''cid'')) (\<lambda>j.
       bind_act (lift_act (env_number_cast E j)) (\<lambda>i w.
         (case cl_at i w of
            None \<Rightarrow> (Inl (rpc_error_code_msg Invalid_params ''Unknown cid''), w)
          | Some c \<Rightarrow> disp c r w)))"

section \<open>Membership\<close>

definition alive :: "(uptr \<rightharpoonup> user_obj) \<Rightarrow> uptr \<Rightarrow> bool" where
  "alive us u \<longleftrightarrow> pred_option ualive (us u) \<and> us u \<noteq> None"

text \<open>
  The invariant: both sides of the membership are sorted vectors, name live objects only, and
  agree.
\<close>

definition members_ok :: "(uptr \<rightharpoonup> user_obj) \<Rightarrow> (cptr \<rightharpoonup> channel) \<Rightarrow> bool" where
  "members_ok us cs \<longleftrightarrow>
     (\<forall>c x. cs c = Some x \<longrightarrow> flat_set (cusers x) \<and>
        (\<forall>u \<in> set (cusers x). \<exists>y. us u = Some y \<and> c \<in> set (uchans y))) \<and>
     (\<forall>u y. us u = Some y \<longrightarrow> flat_set (uchans y) \<and>
        (\<forall>c \<in> set (uchans y). \<exists>x. cs c = Some x \<and> u \<in> set (cusers x)))"

definition world_ok :: "'a world_scheme \<Rightarrow> bool" where
  "world_ok w \<longleftrightarrow> members_ok (usrs w) (chans w)"

text \<open>The abstract state: which user is in which channel.\<close>

definition joined :: "'a world_scheme \<Rightarrow> (cptr \<times> uptr) set" where
  "joined w = {(c, u). \<exists>x. chans w c = Some x \<and> u \<in> set (cusers x)}"

lemma members_okD:
  assumes "members_ok us cs"
  shows "cs c = Some x \<Longrightarrow> flat_set (cusers x)"
    "cs c = Some x \<Longrightarrow> u \<in> set (cusers x) \<Longrightarrow> \<exists>y. us u = Some y \<and> c \<in> set (uchans y)"
    "us u = Some y \<Longrightarrow> flat_set (uchans y)"
    "us u = Some y \<Longrightarrow> c \<in> set (uchans y) \<Longrightarrow> \<exists>x. cs c = Some x \<and> u \<in> set (cusers x)"
  using assms unfolding members_ok_def by blast+

lemma members_ok_sym:
  assumes "members_ok us cs" and "cs c = Some x" and "us u = Some y"
  shows "c \<in> set (uchans y) \<longleftrightarrow> u \<in> set (cusers x)"
  using members_okD [OF assms(1)] assms(2,3) by fastforce

lemma members_ok_insert:
  assumes ok: "members_ok us cs" and x: "cs c = Some x" and y: "us u = Some y"
  shows "members_ok (us(u \<mapsto> y\<lparr>uchans := fst (flat_insert c (uchans y))\<rparr>))
    (cs(c \<mapsto> x\<lparr>cusers := fst (flat_insert u (cusers x))\<rparr>))"
proof -
  note D = members_okD [OF ok]
  show ?thesis unfolding members_ok_def
    using D(1) [OF x] D(3) [OF y] D x y
    by (auto simp: flat_set_simps split: if_splits) (metis option.inject)+
qed

lemma members_ok_erase:
  assumes ok: "members_ok us cs" and x: "cs c = Some x" and y: "us u = Some y"
  shows "members_ok (us(u \<mapsto> y\<lparr>uchans := fst (flat_erase c (uchans y))\<rparr>))
    (cs(c \<mapsto> x\<lparr>cusers := fst (flat_erase u (cusers x))\<rparr>))"
proof -
  note D = members_okD [OF ok]
  show ?thesis unfolding members_ok_def
    using D(1) [OF x] D(3) [OF y] D x y
    by (auto simp: flat_set_simps split: if_splits) (metis option.inject)+
qed

lemma members_ok_user_upd:
  assumes "members_ok us cs" and "us u = Some y" and "uchans y' = uchans y"
  shows "members_ok (us(u \<mapsto> y')) cs"
  using assms unfolding members_ok_def by (auto split: if_splits) (metis option.inject)+

lemma members_ok_remove:
  assumes ok: "members_ok us cs" and no: "\<And>c x. cs c = Some x \<Longrightarrow> u \<notin> set (cusers x)"
  shows "members_ok (us(u := None)) cs"
  unfolding members_ok_def
proof (intro conjI allI impI ballI)
  fix c x v assume x: "cs c = Some x" and v: "v \<in> set (cusers x)"
  with no [OF x] have "v \<noteq> u" by auto
  with members_okD(2) [OF ok x v] show "\<exists>y. (us(u := None)) v = Some y \<and> c \<in> set (uchans y)" by simp
next
  fix v y c assume "(us(u := None)) v = Some y" and c: "c \<in> set (uchans y)"
  then have "us v = Some y" by (simp split: if_splits)
  from members_okD(4) [OF ok this c] show "\<exists>x. cs c = Some x \<and> v \<in> set (cusers x)" .
next
  fix v y assume "(us(u := None)) v = Some y"
  then show "flat_set (uchans y)" using members_okD(3) [OF ok] by (simp split: if_splits)
qed (rule members_okD(1) [OF ok])

lemma get_user_eq [simp]: "usrs w u = Some y \<Longrightarrow> get_user u w = (Inr y, w)"
  by (simp add: get_user_def)

lemma get_chan_eq [simp]: "chans w c = Some x \<Longrightarrow> get_chan c w = (Inr x, w)"
  by (simp add: get_chan_def)

lemma bind_get_user [simp]: "usrs w u = Some y \<Longrightarrow> bind_act (get_user u) f w = f y w"
  by (simp add: bind_act_def)

lemma bind_get_chan [simp]: "chans w c = Some x \<Longrightarrow> bind_act (get_chan c) f w = f x w"
  by (simp add: bind_act_def)

lemma send_to_eq:
  assumes "\<forall>u \<in> set us. usrs w u \<noteq> None"
  shows "send_to us m w =
    (Inr (), w\<lparr>sent := sent w @ map (\<lambda>u. (u, m)) (filter (alive (usrs w)) us)\<rparr>)"
  using assms
proof (induction us arbitrary: w)
  case (Cons u us)
  then obtain y where y: "usrs w u = Some y" by auto
  with Cons show ?case
    by (auto simp: alive_def user_send_def)
qed simp

lemma chan_send_eq:
  assumes ok: "world_ok w" and x: "chans w c = Some x"
  shows "chan_send E c jv w =
    (Inr (), w\<lparr>sent := sent w @ map (\<lambda>u. (u, make_message (env_sr E) jv))
        (filter (alive (usrs w)) (cusers x))\<rparr>)"
proof -
  have "\<forall>u \<in> set (cusers x). usrs w u \<noteq> None"
    using members_okD(2) [OF ok [unfolded world_ok_def] x] by auto
  with x show ?thesis by (simp add: chan_send_def send_to_eq)
qed

section \<open>The contract of the virtual functions\<close>

text \<open>
  What \<^verbatim>\<open>channel\<close> relies on in its virtual functions for a user: they return, and they leave the
  users, the channels, the list and what was sent as they are (the table posts to its strand, the
  other channels do nothing).
\<close>

definition core :: "'a world_scheme \<Rightarrow> world" where
  "core w = \<lparr>usrs = usrs w, chans = chans w, cvec = cvec w, next_uid = next_uid w,
     next_cid = next_cid w, sent = sent w\<rparr>"

lemma core_eqD:
  assumes "core w = core v"
  shows "usrs w = usrs v" "chans w = chans v" "cvec w = cvec v" "next_uid w = next_uid v"
    "next_cid w = next_cid v" "sent w = sent v"
  using assms by (simp_all add: core_def)

lemma world_ok_core: "core w = core v \<Longrightarrow> world_ok w = world_ok v"
  by (simp add: world_ok_def core_def)

lemma joined_core: "core w = core v \<Longrightarrow> joined w = joined v"
  by (simp add: joined_def core_def)

text \<open>The state after a user has been inserted to or erased from a channel, but for the hook.\<close>

definition after_insert :: "env \<Rightarrow> cptr \<Rightarrow> channel \<Rightarrow> uptr \<Rightarrow> user_obj \<Rightarrow> 'a world_scheme \<Rightarrow> 'a world_scheme" where
  "after_insert E c x u y w =
     w\<lparr>usrs := (usrs w)(u \<mapsto> y\<lparr>uchans := fst (flat_insert c (uchans y))\<rparr>),
       chans := (chans w)(c \<mapsto> x\<lparr>cusers := fst (flat_insert u (cusers x))\<rparr>),
       sent := sent w @ map (\<lambda>v. (v, make_message (env_sr E) (member_json x ''join'' (uname y))))
         (filter (alive (usrs w)) (fst (flat_insert u (cusers x))))\<rparr>"

definition after_erase :: "env \<Rightarrow> cptr \<Rightarrow> channel \<Rightarrow> uptr \<Rightarrow> user_obj \<Rightarrow> 'a world_scheme \<Rightarrow> 'a world_scheme" where
  "after_erase E c x u y w =
     w\<lparr>usrs := (usrs w)(u \<mapsto> y\<lparr>uchans := fst (flat_erase c (uchans y))\<rparr>),
       chans := (chans w)(c \<mapsto> x\<lparr>cusers := fst (flat_erase u (cusers x))\<rparr>),
       sent := sent w @ map (\<lambda>v. (v, make_message (env_sr E) (member_json x ''leave'' (uname y))))
         (filter (alive (usrs w)) (fst (flat_erase u (cusers x))) @ (if ualive y then [u] else []))\<rparr>"

lemma after_insert_ok:
  assumes "world_ok w" and "chans w c = Some x" and "usrs w u = Some y"
  shows "world_ok (after_insert E c x u y w)" "joined (after_insert E c x u y w) = insert (c, u) (joined w)"
    "dom (usrs (after_insert E c x u y w)) = dom (usrs w)"
  using assms members_ok_insert
  by (auto simp: world_ok_def after_insert_def joined_def flat_set_simps split: if_splits)

lemma after_erase_ok:
  assumes "world_ok w" and "chans w c = Some x" and "usrs w u = Some y"
  shows "world_ok (after_erase E c x u y w)" "joined (after_erase E c x u y w) = joined w - {(c, u)}"
    "dom (usrs (after_erase E c x u y w)) = dom (usrs w)"
proof -
  have "flat_set (cusers x)" using members_okD(1) [OF assms(1) [unfolded world_ok_def] assms(2)] .
  then show "joined (after_erase E c x u y w) = joined w - {(c, u)}"
    using assms by (auto simp: after_erase_def joined_def flat_set_simps split: if_splits)
  show "world_ok (after_erase E c x u y w)" "dom (usrs (after_erase E c x u y w)) = dom (usrs w)"
    using assms members_ok_erase by (auto simp: world_ok_def after_erase_def)
qed

locale channel_hook =
  fixes hook :: "'a world_scheme hook"
  assumes hook_returns: "c \<in> dom (chans w) \<Longrightarrow> \<exists>w'. hook c u w = (Inr (), w') \<and> core w' = core w"
begin

lemma insert_present:
  assumes "chans w c = Some x" and "u \<in> set (cusers x)"
  shows "chan_insert hook E c u w = (Inr False, w)"
  using assms by (simp add: chan_insert_def flat_insert_def set_chan_def fun_upd_idem)

lemma insert_fresh:
  assumes ok: "world_ok w" and x: "chans w c = Some x" and y: "usrs w u = Some y"
    and new: "u \<notin> set (cusers x)"
  shows "\<exists>w'. chan_insert hook E c u w = (Inr True, w') \<and> core w' = core (after_insert E c x u y w)"
proof -
  let ?x = "x\<lparr>cusers := insort u (cusers x)\<rparr>"
  let ?w1 = "w\<lparr>chans := (chans w)(c \<mapsto> ?x)\<rparr>"
  let ?m = "make_message (env_sr E) (member_json x ''join'' (uname y))"
  let ?w2 = "?w1\<lparr>sent := sent w @ map (\<lambda>u. (u, ?m)) (filter (alive (usrs w)) (insort u (cusers x)))\<rparr>"
  have "\<forall>v \<in> set (insort u (cusers x)). usrs ?w1 v \<noteq> None"
    using members_okD(2) [OF ok [unfolded world_ok_def] x] y by (auto simp: set_insort_key)
  then have s: "chan_send E c (member_json x ''join'' (uname y)) ?w1 = (Inr (), ?w2)"
    by (simp add: chan_send_def send_to_eq)
  have "c \<notin> set (uchans y)" using members_ok_sym [OF ok [unfolded world_ok_def] x y] new by simp
  then have o: "user_on_insert u c ?w2 = (Inr (), after_insert E c x u y w)"
    using y new by (simp add: user_on_insert_def set_user_def flat_insert_def after_insert_def)
  obtain w' where h: "hook c u (after_insert E c x u y w) = (Inr (), w')"
    and w': "core w' = core (after_insert E c x u y w)"
    using hook_returns [of c "after_insert E c x u y w" u] by (auto simp: after_insert_def)
  have "chan_insert hook E c u w = (Inr True, w')"
    using x y new s o h by (simp add: chan_insert_def flat_insert_def set_chan_def seq_act_def bind_act_def)
  with w' show ?thesis by blast
qed

lemma erase_absent:
  assumes "chans w c = Some x" and "u \<notin> set (cusers x)"
  shows "chan_erase hook E c u w = (Inr False, w)"
  using assms by (simp add: chan_erase_def flat_erase_def set_chan_def fun_upd_idem)

lemma erase_present:
  assumes ok: "world_ok w" and x: "chans w c = Some x" and y: "usrs w u = Some y"
    and old: "u \<in> set (cusers x)"
  shows "\<exists>w'. chan_erase hook E c u w = (Inr True, w') \<and> core w' = core (after_erase E c x u y w)"
proof -
  let ?x = "x\<lparr>cusers := remove1 u (cusers x)\<rparr>"
  let ?w1 = "w\<lparr>chans := (chans w)(c \<mapsto> ?x)\<rparr>"
  let ?jv = "member_json x ''leave'' (uname y)"
  let ?m = "make_message (env_sr E) ?jv"
  let ?w2 = "?w1\<lparr>sent := sent w @ map (\<lambda>u. (u, ?m)) (filter (alive (usrs w)) (remove1 u (cusers x)))\<rparr>"
  let ?w3 = "?w2\<lparr>sent := sent ?w2 @ (if ualive y then [(u, ?m)] else [])\<rparr>"
  have "\<forall>v \<in> set (remove1 u (cusers x)). usrs ?w1 v \<noteq> None"
    using members_okD(2) [OF ok [unfolded world_ok_def] x] y by (auto dest: set_remove1_subset [THEN subsetD])
  then have s: "chan_send E c ?jv ?w1 = (Inr (), ?w2)"
    by (simp add: chan_send_def send_to_eq)
  have t: "(if ualive y then user_send_json E u ?jv else ret ()) ?w2 = (Inr (), ?w3)"
    by (simp add: user_send_json_def user_send_def)
  have "c \<in> set (uchans y)" using members_ok_sym [OF ok [unfolded world_ok_def] x y] old by simp
  then have o: "user_on_erase u c ?w3 = (Inr (), after_erase E c x u y w)"
    using y old by (simp add: user_on_erase_def set_user_def flat_erase_def after_erase_def)
  obtain w' where h: "hook c u (after_erase E c x u y w) = (Inr (), w')"
    and w': "core w' = core (after_erase E c x u y w)"
    using hook_returns [of c "after_erase E c x u y w" u] by (auto simp: after_erase_def)
  have "chan_erase hook E c u w = (Inr True, w')"
    using x y old s t o h
    by (simp add: chan_erase_def flat_erase_def set_chan_def seq_act_def bind_act_def Let_def)
  with w' show ?thesis by blast
qed

text \<open>What both operations do to the abstract state, in one statement each.\<close>

lemma insert_refines:
  assumes "world_ok w" and "chans w c = Some x" and "usrs w u = Some y"
  shows "\<exists>w'. chan_insert hook E c u w = (Inr ((c, u) \<notin> joined w), w') \<and> world_ok w' \<and>
    joined w' = insert (c, u) (joined w) \<and> dom (usrs w') = dom (usrs w)"
proof (cases "u \<in> set (cusers x)")
  case True
  with assms insert_present [OF assms(2) True] show ?thesis by (auto simp: joined_def)
next
  case False
  from insert_fresh [OF assms False] obtain w' where
    w': "chan_insert hook E c u w = (Inr True, w')" "core w' = core (after_insert E c x u y w)" by blast
  with after_insert_ok [OF assms] world_ok_core [OF w'(2)] joined_core [OF w'(2)] core_eqD(1) [OF w'(2)]
    assms(2) False
  show ?thesis by (auto simp: joined_def)
qed

lemma erase_refines:
  assumes "world_ok w" and "chans w c = Some x" and "usrs w u = Some y"
  shows "\<exists>w'. chan_erase hook E c u w = (Inr ((c, u) \<in> joined w), w') \<and> world_ok w' \<and>
    joined w' = joined w - {(c, u)} \<and> dom (usrs w') = dom (usrs w)"
proof (cases "u \<in> set (cusers x)")
  case False
  with assms erase_absent [OF assms(2) False] show ?thesis by (auto simp: joined_def)
next
  case True
  from erase_present [OF assms True] obtain w' where
    w': "chan_erase hook E c u w = (Inr True, w')" "core w' = core (after_erase E c x u y w)" by blast
  with after_erase_ok [OF assms] world_ok_core [OF w'(2)] joined_core [OF w'(2)] core_eqD(1) [OF w'(2)]
    assms(2) True
  show ?thesis by (auto simp: joined_def)
qed

text \<open>
  The loop of the destructor ends, because every round takes the user out of one channel on both
  sides, and it touches no other user.
\<close>

lemma dtor_loop_ends:
  assumes "world_ok w" and "usrs w u = Some y"
  shows "\<exists>w'. user_dtor_loop hook E u w = Some (Inr (), w') \<and> world_ok w' \<and>
    usrs w' = (usrs w)(u \<mapsto> y\<lparr>uchans := []\<rparr>) \<and> joined w' = joined w - UNIV \<times> {u} \<and>
    dom (chans w') = dom (chans w) \<and> cvec w' = cvec w"
  using assms
proof (induction "length (uchans y)" arbitrary: w y)
  case 0
  then have "uchans y = []" by simp
  moreover have "joined w - UNIV \<times> {u} = joined w"
    using members_ok_sym [OF "0.prems"(1) [unfolded world_ok_def] _ "0.prems"(2)] \<open>uchans y = []\<close>
    by (auto simp: joined_def)
  moreover have "(usrs w)(u \<mapsto> y\<lparr>uchans := []\<rparr>) = usrs w"
    using "0.prems"(2) \<open>uchans y = []\<close> by (auto simp: fun_upd_idem)
  ultimately show ?case using "0.prems" by (subst user_dtor_loop.simps) simp
next
  case (Suc n)
  let ?c = "last (uchans y)"
  from Suc.hyps(2) have ne: "uchans y \<noteq> []" by auto
  then have c: "?c \<in> set (uchans y)" by simp
  from members_okD(4) [OF Suc.prems(1) [unfolded world_ok_def] Suc.prems(2) c]
  obtain x where x: "chans w ?c = Some x" "u \<in> set (cusers x)" by blast
  from erase_present [OF Suc.prems(1) x(1) Suc.prems(2) x(2)]
  obtain w1 where w1: "chan_erase hook E ?c u w = (Inr True, w1)"
    "core w1 = core (after_erase E ?c x u y w)" by blast
  let ?y = "y\<lparr>uchans := fst (flat_erase ?c (uchans y))\<rparr>"
  have ok1: "world_ok w1" and j1: "joined w1 = joined w - {(?c, u)}"
    using after_erase_ok [OF Suc.prems(1) x(1) Suc.prems(2)] world_ok_core [OF w1(2)]
      joined_core [OF w1(2)] by simp_all
  have u1: "usrs w1 = (usrs w)(u \<mapsto> ?y)" and d1: "dom (chans w1) = dom (chans w)"
    and v1: "cvec w1 = cvec w"
    using core_eqD [OF w1(2)] x by (auto simp: after_erase_def)
  have "length (uchans ?y) = n"
    using Suc.hyps(2) c by (simp add: flat_erase_def length_remove1)
  from Suc.hyps(1) [OF this [symmetric] ok1] u1 obtain w' where
    w': "user_dtor_loop hook E u w1 = Some (Inr (), w')" "world_ok w'"
      "usrs w' = (usrs w1)(u \<mapsto> ?y\<lparr>uchans := []\<rparr>)" "joined w' = joined w1 - UNIV \<times> {u}"
      "dom (chans w') = dom (chans w1)" "cvec w' = cvec w1"
    by auto
  have "user_dtor_loop hook E u w = Some (Inr (), w')"
    using Suc.prems(2) ne w1(1) w'(1) by (subst user_dtor_loop.simps) simp
  with w' u1 j1 d1 v1 show ?case by auto
qed

lemma destroy_ends:
  assumes ok: "world_ok w" and y: "usrs w u = Some y"
  shows "\<exists>w'. user_destroy hook E u w = Some (Inr (), w') \<and> world_ok w' \<and>
    usrs w' = (usrs w)(u := None) \<and> joined w' = joined w - UNIV \<times> {u} \<and>
    dom (chans w') = dom (chans w) \<and> cvec w' = cvec w"
proof -
  let ?w = "w\<lparr>usrs := (usrs w)(u \<mapsto> y\<lparr>ualive := False\<rparr>)\<rparr>"
  have "world_ok ?w" using ok y members_ok_user_upd [of "usrs w" "chans w" u y] by (simp add: world_ok_def)
  then obtain w1 where w1: "user_dtor_loop hook E u ?w = Some (Inr (), w1)" "world_ok w1"
    "usrs w1 = (usrs ?w)(u \<mapsto> y\<lparr>ualive := False, uchans := []\<rparr>)" "joined w1 = joined ?w - UNIV \<times> {u}"
    "dom (chans w1) = dom (chans ?w)" "cvec w1 = cvec ?w"
    using dtor_loop_ends [of ?w u "y\<lparr>ualive := False\<rparr>" E] by auto
  let ?w' = "w1\<lparr>usrs := (usrs w1)(u := None)\<rparr>"
  have "(c, u) \<notin> joined w1" for c using w1(4) by auto
  then have "members_ok ((usrs w1)(u := None)) (chans w1)"
    by (intro members_ok_remove [OF w1(2) [unfolded world_ok_def]]) (auto simp: joined_def)
  then have "world_ok ?w'" by (simp add: world_ok_def)
  with w1 y show ?thesis by (auto simp: user_destroy_def joined_def)
qed

end

section \<open>Actions of a user that is alive\<close>

text \<open>The states in which the user of a request exists: its \<^verbatim>\<open>rpc_call\<close> owns it.\<close>

definition ready :: "uptr \<Rightarrow> 'a world_scheme \<Rightarrow> bool" where
  "ready u w \<longleftrightarrow> world_ok w \<and> u \<in> dom (usrs w)"

lemma ready_core: "core w = core v \<Longrightarrow> ready u w = ready u v"
  using world_ok_core [of w v] by (simp add: ready_def core_def)

lemma ready_sent [simp]: "ready u (w\<lparr>sent := s\<rparr>) = ready u w"
  by (simp add: ready_def world_ok_def)

lemma keeps_send [keeps_intros]:
  "keeps (ready u) (user_send v m)" "keeps (ready u) (user_send_json E v jv)"
  "keeps (ready u) (send_all E xs)" "keeps (ready u) (do_complete E r)"
  "keeps (ready u) (do_complete_error E r code msg)"
  by (simp_all add: keeps_def user_send_def user_send_json_def send_all_eq do_complete_def
      do_complete_error_def)

lemma get_user_state [simp]: "snd (get_user u w) = w"
  and get_chan_state [simp]: "snd (get_chan c w) = w"
  by (simp_all add: get_user_def get_chan_def split: option.splits)

lemma keeps_get [keeps_intros]: "keeps P (get_user u)" "keeps P (get_chan c)"
  by (simp_all add: keeps_def)

text \<open>What further messages do not break is kept by all that sends.\<close>

definition sent_closed :: "('a world_scheme \<Rightarrow> bool) \<Rightarrow> bool" where
  "sent_closed P \<longleftrightarrow> (\<forall>w s. P w \<longrightarrow> P (w\<lparr>sent := sent w @ s\<rparr>))"

lemma sent_closedD: "sent_closed P \<Longrightarrow> P w \<Longrightarrow> P (w\<lparr>sent := sent w @ s\<rparr>)"
  by (simp add: sent_closed_def)

lemma sent_closedI [simp, intro]: "(\<And>w s. P (w\<lparr>sent := s\<rparr>) = P w) \<Longrightarrow> sent_closed P"
  by (simp add: sent_closed_def)

lemma keeps_sending:
  assumes P: "sent_closed P"
  shows "keeps P (user_send u m)" "keeps P (user_send_json E u jv)" "keeps P (send_to us m)"
    "keeps P (chan_send E c jv)" "keeps P (send_all E xs)" "keeps P (do_complete E r)"
    "keeps P (do_complete_error E r code msg)"
proof -
  show us: "keeps P (user_send u m)" for u m by (simp add: keeps_def user_send_def sent_closedD [OF P])
  show "keeps P (user_send_json E u jv)" unfolding user_send_json_def by (rule us)
  show st: "keeps P (send_to us m)" for us m
  proof (induction us)
    case Nil
    show ?case unfolding send_to.simps by (rule keeps_ret)
  next
    case (Cons v vs)
    show ?case unfolding send_to.simps by (intro keeps_intros us Cons.IH)
  qed
  show "keeps P (chan_send E c jv)" unfolding chan_send_def by (intro keeps_intros st)
  show "keeps P (send_all E xs)" "keeps P (do_complete E r)" "keeps P (do_complete_error E r code msg)"
    by (simp_all add: keeps_def send_all_eq do_complete_def do_complete_error_def sent_closedD [OF P])
qed

lemma keeps_chan_send [keeps_intros]: "keeps (ready u) (chan_send E c jv)"
proof -
  have "ready u (snd (chan_send E c jv w))" if "ready u w" for w
  proof (cases "chans w c")
    case None
    with that show ?thesis by (simp add: chan_send_def bind_act_def get_chan_def)
  next
    case (Some x)
    with that show ?thesis by (simp add: chan_send_eq ready_def world_ok_def)
  qed
  then show ?thesis unfolding keeps_def by blast
qed

lemma keeps_checked_user [keeps_intros]: "keeps (ready u) (checked_user r)"
  unfolding checked_user_def by (intro keeps_intros)

context channel_hook
begin

lemma keeps_insert: "keeps (ready u) (chan_insert hook E c u)"
proof -
  have "ready u (snd (chan_insert hook E c u w))" if w: "ready u w" for w
  proof (cases "chans w c")
    case None
    with w show ?thesis by (simp add: chan_insert_def bind_act_def get_chan_def)
  next
    case (Some x)
    from w obtain y where "world_ok w" "usrs w u = Some y" by (auto simp: ready_def)
    from insert_refines [OF this(1) Some this(2), of E] w show ?thesis
      by (elim exE conjE) (simp add: ready_def)
  qed
  then show ?thesis unfolding keeps_def by blast
qed

lemma keeps_erase: "keeps (ready u) (chan_erase hook E c u)"
proof -
  have "ready u (snd (chan_erase hook E c u w))" if w: "ready u w" for w
  proof (cases "chans w c")
    case None
    with w show ?thesis by (simp add: chan_erase_def bind_act_def get_chan_def)
  next
    case (Some x)
    from w obtain y where "world_ok w" "usrs w u = Some y" by (auto simp: ready_def)
    from erase_refines [OF this(1) Some this(2), of E] w show ?thesis
      by (elim exE conjE) (simp add: ready_def)
  qed
  then show ?thesis unfolding keeps_def by blast
qed

lemma keeps_do_join: "keeps (ready (ru r)) (do_join hook E c r)"
  unfolding do_join_def by (intro keeps_intros keeps_insert)

lemma keeps_do_leave: "keeps (ready (ru r)) (do_leave hook E c r)"
  unfolding do_leave_def by (intro keeps_intros keeps_erase)

end

section \<open>The registry of channels\<close>

definition registry_ok :: "'a world_scheme \<Rightarrow> bool" where
  "registry_ok w \<longleftrightarrow>
     cvec w \<noteq> [] \<and>
     (\<forall>i c. cl_at i w = Some c \<longrightarrow> (\<exists>x. chans w c = Some x \<and> cid x = i))"

text \<open>The vector after \<^verbatim>\<open>resize\<close> and the assignment, as a map from channel ids.\<close>

lemma resize_vec_grow:
  assumes "n = max (i + 1) (length xs)"
  shows "length (resize_vec n xs) = n" "i < n" "length xs \<le> n"
    "j < n \<Longrightarrow> resize_vec n xs ! j = (if j < length xs then xs ! j else None)"
  using assms by (auto simp: resize_vec_def nth_append)

lemma cl_insert_eq:
  assumes x: "chans w c = Some x" and free: "cl_at (cid x) w = None"
  shows "\<exists>v. cl_insert c w = (Inr (), w\<lparr>cvec := v\<rparr>) \<and> v \<noteq> [] \<and>
    (\<forall>j. cl_at j (w\<lparr>cvec := v\<rparr>) = (if j = cid x then Some c else cl_at j w))"
proof -
  define n where "n = max (cid x + 1) (length (cvec w))"
  let ?v = "(resize_vec n (cvec w))[cid x := Some c]"
  note r = resize_vec_grow [OF n_def]
  have "resize_vec n (cvec w) ! cid x = None"
    using r(4) [OF r(2)] free by (simp add: cl_at_def split: if_splits)
  then have "cl_insert c w = (Inr (), w\<lparr>cvec := ?v\<rparr>)"
    using x unfolding n_def by (simp add: cl_insert_def)
  moreover have "cl_at j (w\<lparr>cvec := ?v\<rparr>) = (if j = cid x then Some c else cl_at j w)" for j
    using r by (auto simp: cl_at_def nth_list_update)
  moreover have "?v \<noteq> []" using r(1,2) by auto
  ultimately show ?thesis by blast
qed

lemma cl_erase_eq:
  assumes "chans w c = Some x" and "cl_at (cid x) w = Some c"
  shows "\<exists>v. cl_erase c w = (Inr (), w\<lparr>cvec := v\<rparr>) \<and> length v = length (cvec w) \<and>
    (\<forall>j. cl_at j (w\<lparr>cvec := v\<rparr>) = (if j = cid x then None else cl_at j w))"
  using assms by (auto simp: cl_erase_def cl_at_def nth_list_update split: if_splits)

definition new_channel :: "64 word \<Rightarrow> nat \<Rightarrow> string \<Rightarrow> chan_kind \<Rightarrow> channel" where
  "new_channel uid i nm k = \<lparr>chan_uid = uid, cid = i, cname = nm, cusers = [], ckind = k\<rparr>"

lemma insert_channel_eq:
  assumes reg: "registry_ok w" and free: "cl_at i w = None" and c: "chans w c = None"
  shows "\<exists>v. insert_channel c i nm k w =
      (Inr (), w\<lparr>next_uid := next_uid w + 1,
         chans := (chans w)(c \<mapsto> new_channel (next_uid w + 1) i nm k), cvec := v\<rparr>) \<and>
    registry_ok (snd (insert_channel c i nm k w)) \<and>
    (\<forall>j. cl_at j (snd (insert_channel c i nm k w)) = (if j = i then Some c else cl_at j w))"
proof -
  let ?x = "new_channel (next_uid w + 1) i nm k"
  let ?w = "w\<lparr>next_uid := next_uid w + 1, chans := (chans w)(c \<mapsto> ?x)\<rparr>"
  have a: "cl_at j ?w = cl_at j w" for j by (simp add: cl_at_def)
  have "channel_ctor_reserved c i nm k w = (Inr (), ?w)"
    by (simp add: channel_ctor_reserved_def cl_next_uid_def set_chan_def Let_def bind_act_def new_channel_def)
  moreover obtain v where v: "cl_insert c ?w = (Inr (), ?w\<lparr>cvec := v\<rparr>)" "v \<noteq> []"
    "\<And>j. cl_at j (?w\<lparr>cvec := v\<rparr>) = (if j = i then Some c else cl_at j w)"
    using cl_insert_eq [of ?w c ?x] free a by (auto simp: new_channel_def)
  ultimately have e: "insert_channel c i nm k w = (Inr (), ?w\<lparr>cvec := v\<rparr>)"
    by (simp add: insert_channel_def seq_act_def bind_act_def)
  have "registry_ok (?w\<lparr>cvec := v\<rparr>)"
    unfolding registry_ok_def
  proof (intro conjI allI impI)
    fix j d assume j: "cl_at j (?w\<lparr>cvec := v\<rparr>) = Some d"
    show "\<exists>x. chans (?w\<lparr>cvec := v\<rparr>) d = Some x \<and> cid x = j"
    proof (cases "j = i")
      case True
      with j v(3) [of j] have "d = c" by simp
      with True show ?thesis by (simp add: new_channel_def)
    next
      case False
      with j v(3) [of j] have "cl_at j w = Some d" by simp
      then obtain x where x: "chans w d = Some x" "cid x = j"
        using reg unfolding registry_ok_def by blast
      with c have "d \<noteq> c" by auto
      with x show ?thesis by simp
    qed
  qed (simp add: v(2))
  with e v show ?thesis by auto
qed

lemma insert_channel_ok [lounge_inv]:
  assumes "world_ok w" and "chans w c = None"
  shows "world_ok (w\<lparr>next_uid := n, chans := (chans w)(c \<mapsto> new_channel uid i nm k), cvec := v\<rparr>)"
  using assms unfolding world_ok_def members_ok_def
  by (auto simp: new_channel_def split: if_splits) (metis option.distinct(1))

lemma cl_init_ok: "world_ok cl_init" "registry_ok cl_init" "cl_at i cl_init = None"
  by (auto simp: world_ok_def members_ok_def registry_ok_def cl_init_def cl_at_def nth_Cons')

text \<open>
  The interface of the registry to those who dispatch requests: after a channel has been put in,
  looking its id up finds it and every other id is as before.
\<close>

locale channel_registry =
  fixes ok :: "'s \<Rightarrow> bool" and lookup :: "nat \<Rightarrow> 's \<Rightarrow> cptr option"
    and ins :: "cptr \<Rightarrow> nat \<Rightarrow> 's \<Rightarrow> 's" and fresh :: "cptr \<Rightarrow> 's \<Rightarrow> bool"
  assumes ins_ok: "ok s \<Longrightarrow> fresh c s \<Longrightarrow> lookup i s = None \<Longrightarrow> ok (ins c i s)"
    and lookup_ins: "ok s \<Longrightarrow> fresh c s \<Longrightarrow> lookup i s = None \<Longrightarrow>
        lookup j (ins c i s) = (if j = i then Some c else lookup j s)"
    and fresh_ins: "ok s \<Longrightarrow> fresh c s \<Longrightarrow> fresh d s \<Longrightarrow> lookup i s = None \<Longrightarrow>
        fresh d (ins c i s) \<longleftrightarrow> d \<noteq> c"
begin

text \<open>Putting a list of new channels in under distinct ids finds each under its own.\<close>

lemma lookup_ins_all:
  assumes "ok s" and "distinct (map fst cs)" and "distinct (map snd cs)"
    and "\<forall>(c, i) \<in> set cs. fresh c s \<and> lookup i s = None"
  shows "ok (fold (\<lambda>(c, i). ins c i) cs s) \<and>
    lookup j (fold (\<lambda>(c, i). ins c i) cs s) =
      (case map_of (map (\<lambda>(c, i). (i, c)) cs) j of Some c \<Rightarrow> Some c | None \<Rightarrow> lookup j s)"
  using assms
proof (induction cs arbitrary: s)
  case (Cons p cs)
  obtain c i where p: "p = (c, i)" by force
  let ?s = "ins c i s"
  from Cons.prems p have f: "fresh c s" "lookup i s = None" by auto
  have "\<forall>(d, k) \<in> set cs. fresh d ?s \<and> lookup k ?s = None"
  proof (intro ballI, clarify)
    fix d k assume dk: "(d, k) \<in> set cs"
    with Cons.prems p have "d \<noteq> c" "k \<noteq> i" by (force simp: image_iff)+
    with dk Cons.prems f show "fresh d ?s \<and> lookup k ?s = None"
      by (auto simp: fresh_ins lookup_ins)
  qed
  with Cons.IH [OF ins_ok [OF Cons.prems(1) f]] Cons.prems p
  have IH: "ok (fold (\<lambda>(c, i). ins c i) cs ?s) \<and>
    lookup j (fold (\<lambda>(c, i). ins c i) cs ?s) =
      (case map_of (map (\<lambda>(c, i). (i, c)) cs) j of Some c \<Rightarrow> Some c | None \<Rightarrow> lookup j ?s)" by simp
  have "map_of (map (\<lambda>(c, i). (i, c)) cs) i = None"
    using Cons.prems(3) p by (force simp: map_of_eq_None_iff image_iff)
  with IH lookup_ins [OF Cons.prems(1) f, of j] p show ?case by (auto split: option.splits)
qed simp

end

interpretation clist: channel_registry registry_ok cl_at
  "\<lambda>c i w. snd (insert_channel c i nm k w)" "\<lambda>c w. chans w c = None"
proof
  fix s :: "'a world_scheme" and c i j d
  assume reg: "registry_ok s" and c: "chans s c = None" and i: "cl_at i s = None"
  from insert_channel_eq [OF reg i c, of nm k] obtain v where
    e: "insert_channel c i nm k s = (Inr (), s\<lparr>next_uid := next_uid s + 1,
         chans := (chans s)(c \<mapsto> new_channel (next_uid s + 1) i nm k), cvec := v\<rparr>)"
    and r: "registry_ok (snd (insert_channel c i nm k s))"
    and l: "\<forall>j. cl_at j (snd (insert_channel c i nm k s)) = (if j = i then Some c else cl_at j s)"
    by blast
  show "registry_ok (snd (insert_channel c i nm k s))" by (rule r)
  show "cl_at j (snd (insert_channel c i nm k s)) = (if j = i then Some c else cl_at j s)"
    using l by blast
  show "chans (snd (insert_channel c i nm k s)) d = None \<longleftrightarrow> d \<noteq> c" if "chans s d = None"
    using e that by simp
qed

section \<open>What membership does not touch\<close>

text \<open>Whatever erasing a user from a channel keeps, the loop of its destructor keeps.\<close>

lemma dtor_loop_keeps:
  assumes k: "\<And>c. keeps Q (chan_erase hook E c u)"
    and "user_dtor_loop hook E u w = Some p" and "Q w"
  shows "Q (snd p)"
proof -
  have "h = hook \<longrightarrow> e = E \<longrightarrow> v = u \<longrightarrow> Q w \<longrightarrow> Q (snd p)" if "user_dtor_loop h e v w = Some p" for h e v w p
    using that
  proof (rule user_dtor_loop.raw_induct [rotated])
    fix loop :: "'a world_scheme hook \<Rightarrow> env \<Rightarrow> uptr \<Rightarrow> 'a world_scheme \<Rightarrow> (unit outcome \<times> 'a world_scheme) option"
      and h e v w p
    assume IH: "\<And>h e v w p. loop h e v w = Some p \<Longrightarrow> h = hook \<longrightarrow> e = E \<longrightarrow> v = u \<longrightarrow> Q w \<longrightarrow> Q (snd p)"
      and body: "(case usrs w v of None \<Rightarrow> Some (Inl Undefined, w)
        | Some x \<Rightarrow> if uchans x = [] then Some (Inr (), w)
          else (case chan_erase h e (last (uchans x)) v w of (Inl e, w') \<Rightarrow> Some (Inl e, w')
             | (Inr _, w') \<Rightarrow> loop h e v w')) = Some p"
    have "Q w'" if "Q w" "chan_erase hook E c u w = (res, w')" for c res w'
      using keepsD [OF k [of c] that(1)] that(2) by simp
    with IH body show "h = hook \<longrightarrow> e = E \<longrightarrow> v = u \<longrightarrow> Q w \<longrightarrow> Q (snd p)"
      by (cases p) (auto split: option.splits if_splits prod.splits sum.splits; blast)
  qed
  with assms(2,3) show ?thesis by blast
qed

text \<open>
  A property of the state that sending does not change, that survives a change of the member list
  of an existing channel and of the channel list of an existing user, and that the virtual function
  for that user keeps: every operation on memberships of that user keeps it.
\<close>

locale membership_frame =
  fixes Q :: "'a world_scheme \<Rightarrow> bool" and hook :: "'a world_scheme hook" and u :: uptr
  assumes Q_sent: "sent_closed Q"
    and Q_chan: "Q w \<Longrightarrow> chans w c = Some x \<Longrightarrow> Q (w\<lparr>chans := (chans w)(c \<mapsto> x\<lparr>cusers := us\<rparr>)\<rparr>)"
    and Q_user: "Q w \<Longrightarrow> usrs w v = Some y \<Longrightarrow> Q (w\<lparr>usrs := (usrs w)(v \<mapsto> y\<lparr>uchans := cs\<rparr>)\<rparr>)"
    and Q_hook: "keeps Q (hook c u)"
begin

lemmas Q_sends = keeps_sending [of Q, OF Q_sent]

lemma keeps_bind_get_chan:
  assumes "\<And>x w. Q w \<Longrightarrow> chans w c = Some x \<Longrightarrow> Q (snd (f x w))"
  shows "keeps Q (bind_act (get_chan c) f)"
  using assms by (auto simp: keeps_def bind_act_def get_chan_def split: option.splits)

lemma keeps_bind_get_user:
  assumes "\<And>y w. Q w \<Longrightarrow> usrs w v = Some y \<Longrightarrow> Q (snd (f y w))"
  shows "keeps Q (bind_act (get_user v) f)"
  using assms by (auto simp: keeps_def bind_act_def get_user_def split: option.splits)

lemma Q_user_hooks: "keeps Q (user_on_insert v c)" "keeps Q (user_on_erase v c)"
  unfolding user_on_insert_def user_on_erase_def
  by (rule keeps_bind_get_user, simp add: Q_user set_user_def split: prod.splits)+

lemma Q_insert: "keeps Q (chan_insert hook E c u)"
proof -
  have k: "keeps Q (bind_act (get_user u) (\<lambda>y. seq_act (chan_send E c (member_json x ''join'' (uname y)))
      (seq_act (user_on_insert u c) (seq_act (hook c u) (ret True)))))" for x
    by (intro keeps_intros Q_sends Q_user_hooks Q_hook)
  show ?thesis unfolding chan_insert_def
    by (rule keeps_bind_get_chan)
      (auto simp: set_chan_def Q_chan intro: keepsD [OF k] split: prod.splits)
qed

lemma Q_erase: "keeps Q (chan_erase hook E c u)"
proof -
  have k: "keeps Q (bind_act (get_user u) (\<lambda>y. let jv = member_json x ''leave'' (uname y) in
      seq_act (chan_send E c jv) (seq_act (if ualive y then user_send_json E u jv else ret ())
      (seq_act (user_on_erase u c) (seq_act (hook c u) (ret True))))))" for x
    unfolding Let_def by (intro keeps_intros Q_sends Q_user_hooks Q_hook)
  show ?thesis unfolding chan_erase_def
    by (rule keeps_bind_get_chan)
      (auto simp: set_chan_def Q_chan intro: keepsD [OF k] split: prod.splits)
qed

lemma Q_join_leave:
  assumes "ru r = u"
  shows "keeps Q (do_join hook E c r)" "keeps Q (do_leave hook E c r)"
proof -
  have "keeps Q (checked_user r)" unfolding checked_user_def by (intro keeps_intros)
  then show "keeps Q (do_join hook E c r)"
    unfolding do_join_def assms by (intro keeps_intros Q_insert Q_sends)
  show "keeps Q (do_leave hook E c r)"
    unfolding do_leave_def assms by (intro keeps_intros Q_erase Q_sends)
qed

lemma Q_dtor_loop:
  "user_dtor_loop hook E u w = Some p \<Longrightarrow> Q w \<Longrightarrow> Q (snd p)"
  by (rule dtor_loop_keeps [OF Q_erase])

end

end
