(* ===== verification/Server.thy ===== *)
theory Server
  imports Channel "HOL-Library.Signed_Division"
begin

text \<open>
  \<^verbatim>\<open>server/core/server.cpp\<close> (class \<^verbatim>\<open>server_impl\<close>) and the \<^verbatim>\<open>ceil\<close> of \<^verbatim>\<open>utility.hpp\<close>: the server's
  strand with its shutdown timer, the signals, the countdown that announces itself on the system
  channel, and the flag that ends \<^verbatim>\<open>run\<close>. Time is the steady clock in nanoseconds; every reading of
  the clock is an argument. What is posted to the strand is a queue, run in order.
\<close>

section \<open>The code\<close>

subsection \<open>Durations\<close>

definition nanos :: int where
  "nanos = 1000000000"

text \<open>\<^verbatim>\<open>ceil<std::chrono::seconds>\<close> of a duration in nanoseconds; \<^verbatim>\<open>duration_cast\<close> truncates.\<close>

definition ceil_seconds :: "int \<Rightarrow> int" where
  "ceil_seconds d = (let t = d sdiv nanos in if t * nanos < d then t + 1 else t)"

text \<open>\<^verbatim>\<open>time_point::max()\<close> of a 64-bit count.\<close>

definition never :: int where
  "never = 2 ^ 63 - 1"

subsection \<open>State\<close>

datatype service = Blackjack_service | Listener_service nat

text \<open>
  A completion handler gets an \<^verbatim>\<open>error_code\<close>: the flag of \<open>Task_timer\<close> and \<open>Task_signal\<close> says that
  it is \<^verbatim>\<open>operation_aborted\<close>.
\<close>

datatype srv_task =
    Task_shutdown int
  | Task_stop
  | Task_timer bool
  | Task_signal bool int

record srv_state =
  running :: bool
  services :: "service list"
  stopped_services :: "service list"
  expiry :: int
  timer_wait :: bool
  shutdown_time :: int
  stop_flag :: bool
  signal_wait :: bool
  srv_q :: "srv_task list"
  cerr_log :: "int list"

record srv_world = world +
  srv :: srv_state

definition new_srv_state :: srv_state where
  "new_srv_state =
     \<lparr>running = False, services = [], stopped_services = [], expiry = never, timer_wait = False,
      shutdown_time = never, stop_flag = False, signal_wait = False, srv_q = [], cerr_log = []\<rparr>"

definition upd_srv :: "(srv_state \<Rightarrow> srv_state) \<Rightarrow> ('a srv_world_scheme, unit) act" where
  "upd_srv f = modify (\<lambda>w. w\<lparr>srv := f (srv w)\<rparr>)"

definition post_srv :: "srv_task \<Rightarrow> ('a srv_world_scheme, unit) act" where
  "post_srv t = upd_srv (\<lambda>s. s\<lparr>srv_q := srv_q s @ [t]\<rparr>)"

subsection \<open>Operations\<close>

definition server_insert :: "service \<Rightarrow> ('a srv_world_scheme, unit) act" where
  "server_insert sp w =
     (if running (srv w) then (Inl Logic_error, w)
      else upd_srv (\<lambda>s. s\<lparr>services := services s @ [sp]\<rparr>) w)"

definition is_shutting_down :: "'a srv_world_scheme \<Rightarrow> bool" where
  "is_shutting_down w = stop_flag (srv w)"

text \<open>
  \<^verbatim>\<open>stop\<close>: cancelling the timer and the signal set completes their waits with
  \<^verbatim>\<open>operation_aborted\<close>.
\<close>

definition cancel_waits :: "srv_state \<Rightarrow> srv_state" where
  "cancel_waits s =
     s\<lparr>srv_q := srv_q s @ (if timer_wait s then [Task_timer True] else []) @
                 (if signal_wait s then [Task_signal True 0] else []),
       timer_wait := False, signal_wait := False\<rparr>"

definition server_stop :: "bool \<Rightarrow> ('a srv_world_scheme, unit) act" where
  "server_stop on_strand w =
     (if \<not> on_strand then post_srv Task_stop w
      else if stop_flag (srv w) then (Inr (), w)
      else upd_srv (\<lambda>s. cancel_waits (s\<lparr>stop_flag := True\<rparr>)) w)"

definition shutdown_json :: "channel \<Rightarrow> int \<Rightarrow> json" where
  "shutdown_json x remain =
     JObj (obj_set ''message'' (JStr (''Server is shutting down in '' @ int_to_string remain @ '' seconds''))
       (obj_set ''name'' (JStr (cname x)) (obj_set ''cid'' (JUint (cid x))
         (obj_set ''verb'' (JStr ''say'') []))))"

text \<open>
  \<^verbatim>\<open>expires_after\<close> and \<^verbatim>\<open>async_wait\<close>: \<open>t\<close> is the clock when \<^verbatim>\<open>expires_after\<close> reads it. A wait that is still
  outstanding is cancelled. Time points are counts of 64 bits; one that does not fit is undefined.
\<close>

definition arm_timer :: "int \<Rightarrow> int \<Rightarrow> ('a srv_world_scheme, unit) act" where
  "arm_timer t amount w =
     (if fits_int 64 (t + amount * nanos)
      then upd_srv (\<lambda>s. s\<lparr>expiry := t + amount * nanos,
             srv_q := srv_q s @ (if timer_wait s then [Task_timer True] else []),
             timer_wait := True\<rparr>) w
      else (Inl Undefined, w))"

text \<open>
  \<^verbatim>\<open>on_timer\<close>: \<open>t\<close> is the clock when the remaining time is computed, \<open>t'\<close> when the timer is armed.
\<close>

definition server_on_timer :: "env \<Rightarrow> bool \<Rightarrow> int \<Rightarrow> int \<Rightarrow> ('a srv_world_scheme, unit) act" where
  "server_on_timer E aborted t t' w =
     (if aborted then (Inr (), w)
      else if \<not> fits_int 64 (shutdown_time (srv w) - t) then (Inl Undefined, w)
      else
        (let remain = ceil_seconds (shutdown_time (srv w) - t) in
         if remain \<le> 0 then server_stop True w
         else
           (let amount = (if remain > 10 then 10 else remain) in
            case cl_at 1 w of
              None \<Rightarrow> (Inl Undefined, w)
            | Some c \<Rightarrow>
                bind_act (get_chan c) (\<lambda>x.
                  seq_act (chan_send E c (shutdown_json x remain)) (arm_timer t' amount)) w)))"

text \<open>\<^verbatim>\<open>shutdown\<close>, with the clock readings of the assignment and of the \<^verbatim>\<open>on_timer\<close> it calls.\<close>

definition server_shutdown :: "env \<Rightarrow> bool \<Rightarrow> int \<Rightarrow> int \<Rightarrow> int \<Rightarrow> int \<Rightarrow> ('a srv_world_scheme, unit) act" where
  "server_shutdown E on_strand cooldown t0 t t' w =
     (if \<not> on_strand then post_srv (Task_shutdown cooldown) w
      else if expiry (srv w) \<noteq> never then (Inr (), w)
      else if \<not> (fits_int 64 (cooldown * nanos) \<and> fits_int 64 (t0 + cooldown * nanos)) then (Inl Undefined, w)
      else seq_act (upd_srv (\<lambda>s. s\<lparr>shutdown_time := t0 + cooldown * nanos\<rparr>))
             (server_on_timer E False t t') w)"

definition server_on_signal :: "env \<Rightarrow> bool \<Rightarrow> int \<Rightarrow> int \<Rightarrow> int \<Rightarrow> int \<Rightarrow> ('a srv_world_scheme, unit) act" where
  "server_on_signal E aborted signum t0 t t' w =
     (if aborted then (Inr (), w)
      else seq_act (upd_srv (\<lambda>s. s\<lparr>cerr_log := cerr_log s @ [signum]\<rparr>))
        (\<lambda>w. if expiry (srv w) = never
             then seq_act (upd_srv (\<lambda>s. s\<lparr>signal_wait := True\<rparr>)) (server_shutdown E True 30 t0 t t') w
             else server_stop True w) w)"

text \<open>One task of the strand, with the clock readings it may make.\<close>

fun run_srv_task :: "env \<Rightarrow> srv_task \<Rightarrow> int \<Rightarrow> int \<Rightarrow> int \<Rightarrow> ('a srv_world_scheme, unit) act" where
  "run_srv_task E (Task_shutdown cd) t0 t t' = server_shutdown E True cd t0 t t'"
| "run_srv_task E Task_stop t0 t t' = server_stop True"
| "run_srv_task E (Task_timer ab) t0 t t' = server_on_timer E ab t t'"
| "run_srv_task E (Task_signal ab n) t0 t t' = server_on_signal E ab n t0 t t'"

text \<open>
  \<^verbatim>\<open>run\<close> up to the point where it blocks, and from the point where it goes on. \<open>start\<close> is the
  \<^verbatim>\<open>on_start\<close> of a service.
\<close>

fun start_services :: "(service \<Rightarrow> ('w, unit) act) \<Rightarrow> service list \<Rightarrow> ('w, unit) act" where
  "start_services start [] = ret ()"
| "start_services start (s # ss) = seq_act (start s) (start_services start ss)"

definition server_run_begin :: "(service \<Rightarrow> ('a srv_world_scheme, unit) act) \<Rightarrow> ('a srv_world_scheme, unit) act" where
  "server_run_begin start w =
     (if running (srv w) then (Inl Logic_error, w)
      else seq_act (upd_srv (\<lambda>s. s\<lparr>running := True\<rparr>))
        (\<lambda>w. seq_act (start_services start (services (srv w)))
           (upd_srv (\<lambda>s. s\<lparr>signal_wait := True\<rparr>)) w) w)"

text \<open>
  The condition the main thread waits for and what it does then: the services are moved out and
  each is told to stop.
\<close>

definition server_run_end :: "'a srv_world_scheme \<Rightarrow> 'a srv_world_scheme option" where
  "server_run_end w =
     (if \<not> stop_flag (srv w) then None
      else Some (w\<lparr>srv := (srv w)\<lparr>stopped_services := services (srv w), services := []\<rparr>\<rparr>))"

section \<open>Durations, proved\<close>

lemma nanos_pos [simp]: "0 < nanos"
  by (simp add: nanos_def)

lemma sdiv_nanos: "d sdiv nanos = (if 0 \<le> d then d div nanos else - ((- d) div nanos))"
  by (auto simp: signed_divide_int_def nanos_def sgn_if)

lemma div_nanos_bounds:
  "d div nanos * nanos \<le> d" "d < d div nanos * nanos + nanos"
proof -
  have "d = d div nanos * nanos + d mod nanos" by (rule div_mult_mod_eq [symmetric])
  moreover have "0 \<le> d mod nanos" "d mod nanos < nanos" by simp_all
  ultimately show "d div nanos * nanos \<le> d" "d < d div nanos * nanos + nanos" by linarith+
qed

lemma ceil_seconds_bounds: "d \<le> ceil_seconds d * nanos \<and> (ceil_seconds d - 1) * nanos < d"
  using div_nanos_bounds [of d] div_nanos_bounds [of "- d"]
  by (auto simp: ceil_seconds_def Let_def sdiv_nanos left_diff_distrib distrib_right)

lemma nanos_le_iff: "a * nanos < b * nanos \<longleftrightarrow> a < b"
  by (simp add: nanos_def)

lemma ceil_seconds_unique: "d \<le> k * nanos \<Longrightarrow> (k - 1) * nanos < d \<Longrightarrow> ceil_seconds d = k"
proof -
  assume k: "d \<le> k * nanos" "(k - 1) * nanos < d"
  from ceil_seconds_bounds [of d] k(1) have "(ceil_seconds d - 1) * nanos < k * nanos" by linarith
  moreover from ceil_seconds_bounds [of d] k(2) have "(k - 1) * nanos < ceil_seconds d * nanos" by linarith
  ultimately show ?thesis unfolding nanos_le_iff by simp
qed

lemma ceil_seconds_minus [simp]: "ceil_seconds (d - k * nanos) = ceil_seconds d - k"
  using ceil_seconds_bounds [of d] by (intro ceil_seconds_unique) (auto simp: left_diff_distrib)

lemma ceil_seconds_mono: "d \<le> e \<Longrightarrow> ceil_seconds d \<le> ceil_seconds e"
proof -
  assume "d \<le> e"
  with ceil_seconds_bounds [of d] ceil_seconds_bounds [of e]
  have "(ceil_seconds d - 1) * nanos < ceil_seconds e * nanos" by linarith
  then show ?thesis unfolding nanos_le_iff by simp
qed

lemma ceil_seconds_le_0 [simp]: "ceil_seconds d \<le> 0 \<longleftrightarrow> d \<le> 0"
proof
  assume "ceil_seconds d \<le> 0"
  then have "ceil_seconds d * nanos \<le> 0" by (simp add: mult_le_0_iff less_imp_le)
  with ceil_seconds_bounds [of d] show "d \<le> 0" by linarith
next
  assume "d \<le> 0"
  with ceil_seconds_bounds [of d] have "(ceil_seconds d - 1) * nanos < 0 * nanos" by simp
  then show "ceil_seconds d \<le> 0" unfolding nanos_le_iff by simp
qed

lemma ceil_seconds_pos [simp]: "0 < ceil_seconds d \<longleftrightarrow> 0 < d"
  using ceil_seconds_le_0 [of d] by linarith

section \<open>The countdown\<close>

text \<open>What the countdown needs of the rest: the system channel is in the list.\<close>

definition announce_ok :: "'a srv_world_scheme \<Rightarrow> bool" where
  "announce_ok w \<longleftrightarrow> world_ok w \<and> (\<exists>c x. cl_at 1 w = Some c \<and> chans w c = Some x)"

lemma announce_ok_upd [simp]:
  "announce_ok (w\<lparr>sent := s\<rparr>) = announce_ok w" "announce_ok (w\<lparr>srv := f\<rparr>) = announce_ok w"
  by (simp_all add: announce_ok_def world_ok_def cl_at_def)

text \<open>
  A reading of the clock at least ten seconds before the end of its range, and a time within the
  range.
\<close>

definition clock_ok :: "int \<Rightarrow> bool" where
  "clock_ok t \<longleftrightarrow> 0 \<le> t \<and> t + 10 * nanos \<le> never"

definition time_ok :: "int \<Rightarrow> bool" where
  "time_ok t \<longleftrightarrow> 0 \<le> t \<and> t \<le> never"

lemma fits_64: "fits_int 64 x \<longleftrightarrow> - never - 1 \<le> x \<and> x \<le> never"
  by (auto simp: fits_int_def never_def)

lemma fits_diff: "time_ok s \<Longrightarrow> clock_ok t \<Longrightarrow> fits_int 64 (s - t)"
  by (auto simp: fits_64 time_ok_def clock_ok_def nanos_def)

lemma fits_armed: "clock_ok t \<Longrightarrow> 0 \<le> n \<Longrightarrow> n \<le> 10 \<Longrightarrow> fits_int 64 (t + n * nanos)"
  by (auto simp: fits_64 clock_ok_def nanos_def never_def)

lemma on_timer_announces:
  assumes ok: "announce_ok w" and t: "t < shutdown_time (srv w)" and s: "time_ok (shutdown_time (srv w))"
    and ct: "clock_ok t" "clock_ok t'"
  shows "\<exists>ms. server_on_timer E False t t' w =
    (Inr (), w\<lparr>sent := sent w @ ms,
       srv := (srv w)\<lparr>expiry := t' + min 10 (ceil_seconds (shutdown_time (srv w) - t)) * nanos,
         srv_q := srv_q (srv w) @ (if timer_wait (srv w) then [Task_timer True] else []),
         timer_wait := True\<rparr>\<rparr>)"
proof -
  let ?r = "ceil_seconds (shutdown_time (srv w) - t)"
  from ok obtain c x where c: "cl_at 1 w = Some c" "chans w c = Some x" and w: "world_ok w"
    by (auto simp: announce_ok_def)
  have r: "\<not> ?r \<le> 0" using t by simp
  have m: "(if ?r > 10 then 10 else ?r) = min 10 ?r" by simp
  have "0 \<le> min 10 ?r" "min 10 ?r \<le> 10" using r by linarith+
  then have "fits_int 64 (t' + min 10 ?r * nanos)" by (rule fits_armed [OF ct(2)])
  then show ?thesis
    using c chan_send_eq [OF w c(2), of E "shutdown_json x ?r"] r fits_diff [OF s ct(1)]
    unfolding server_on_timer_def Let_def m
    by (auto simp: seq_act_def bind_act_def upd_srv_def arm_timer_def)
qed

lemma on_timer_stops:
  "shutdown_time (srv w) \<le> t \<Longrightarrow> time_ok (shutdown_time (srv w)) \<Longrightarrow> clock_ok t \<Longrightarrow>
   server_on_timer E False t t' w = server_stop True w"
  by (simp add: server_on_timer_def fits_diff)

lemma server_stop_sets: "stop_flag (srv (snd (server_stop True w)))" "fst (server_stop True w) = Inr ()"
  by (auto simp: server_stop_def upd_srv_def cancel_waits_def)

text \<open>
  The timer, as long as it is armed, fires at some time not before its expiry: one pair of clock
  readings for each firing. A timer that is not armed does not fire.
\<close>

definition fired :: "env \<Rightarrow> int \<Rightarrow> int \<Rightarrow> 'a srv_world_scheme \<Rightarrow> 'a srv_world_scheme" where
  "fired E t t' w = snd (server_on_timer E False t t' (w\<lparr>srv := (srv w)\<lparr>timer_wait := False\<rparr>\<rparr>))"

fun fire_timer :: "env \<Rightarrow> (int \<times> int) list \<Rightarrow> 'a srv_world_scheme \<Rightarrow> 'a srv_world_scheme" where
  "fire_timer E [] w = w"
| "fire_timer E ((t, t') # ts) w = (if timer_wait (srv w) then fire_timer E ts (fired E t t' w) else w)"

fun fires_ok :: "env \<Rightarrow> (int \<times> int) list \<Rightarrow> 'a srv_world_scheme \<Rightarrow> bool" where
  "fires_ok E [] w \<longleftrightarrow> True"
| "fires_ok E ((t, t') # ts) w \<longleftrightarrow>
     (timer_wait (srv w) \<longrightarrow>
        expiry (srv w) \<le> t \<and> t \<le> t' \<and> clock_ok t \<and> clock_ok t' \<and> fires_ok E ts (fired E t t' w))"

lemma on_timer_keeps_stop: "stop_flag (srv w) \<Longrightarrow> stop_flag (srv (snd (server_on_timer E ab t t' w)))"
proof -
  assume st: "stop_flag (srv w)"
  have s: "keeps (\<lambda>w. stop_flag (srv w)) (chan_send E c jv :: ('a srv_world_scheme, unit) act)" for c jv
    by (rule keeps_sending) simp
  have u: "keeps (\<lambda>w. stop_flag (srv w)) (arm_timer t' n :: ('a srv_world_scheme, unit) act)" for n
    by (simp add: keeps_def upd_srv_def arm_timer_def)
  have "stop_flag (srv (snd (bind_act (get_chan c) (\<lambda>x. seq_act (chan_send E c (shutdown_json x r))
      (arm_timer t' n)) w)))" for c r n
    by (rule keepsD [of "\<lambda>w. stop_flag (srv w)"]) (intro keeps_intros s u st)+
  then show ?thesis using st
    by (auto simp: server_on_timer_def Let_def server_stop_def split: option.splits)
qed

lemma fire_timer_keeps_stop: "stop_flag (srv w) \<Longrightarrow> stop_flag (srv (fire_timer E ts w))"
  by (induction E ts w rule: fire_timer.induct) (simp_all add: on_timer_keeps_stop fired_def)

text \<open>
  Ten seconds of the countdown go by with every firing of the timer, however late it is, and the
  timer is armed again.
\<close>

definition counting :: "nat \<Rightarrow> 'a srv_world_scheme \<Rightarrow> bool" where
  "counting n w \<longleftrightarrow>
     timer_wait (srv w) \<and> time_ok (shutdown_time (srv w)) \<and>
     ceil_seconds (shutdown_time (srv w) - expiry (srv w)) \<le> 10 * int n"

lemma armed_counts:
  assumes ok: "announce_ok w" and t: "t \<le> t'" "clock_ok t" "clock_ok t'" and sd: "time_ok (shutdown_time (srv w))"
    and r: "ceil_seconds (shutdown_time (srv w) - t) \<le> 10 * int (Suc n)"
  shows "stop_flag (srv (snd (server_on_timer E False t t' w))) \<or> counting n (snd (server_on_timer E False t t' w))"
    "announce_ok (snd (server_on_timer E False t t' w))"
proof -
  let ?sd = "shutdown_time (srv w)" and ?r = "ceil_seconds (shutdown_time (srv w) - t)"
  let ?w' = "snd (server_on_timer E False t t' w)"
  have "(stop_flag (srv ?w') \<or> counting n ?w') \<and> announce_ok ?w'"
  proof (cases "?sd \<le> t")
    case True
    have "announce_ok (snd (server_stop True w))" using ok by (simp add: server_stop_def upd_srv_def)
    then show ?thesis using on_timer_stops [OF True sd t(2), of E t'] server_stop_sets(1) [of w] by simp
  next
    case False
    with on_timer_announces [OF ok _ sd t(2,3), of E] obtain ms where
      e: "server_on_timer E False t t' w = (Inr (), w\<lparr>sent := sent w @ ms,
        srv := (srv w)\<lparr>expiry := t' + min 10 ?r * nanos,
          srv_q := srv_q (srv w) @ (if timer_wait (srv w) then [Task_timer True] else []),
          timer_wait := True\<rparr>\<rparr>)" by auto
    have "ceil_seconds (?sd - (t' + min 10 ?r * nanos)) \<le> ?r - min 10 ?r"
      using ceil_seconds_mono [of "?sd - t'" "?sd - t"] t(1) ceil_seconds_minus [of "?sd - t'" "min 10 ?r"]
      by (simp add: diff_diff_add)
    also have "\<dots> \<le> 10 * int n" using r by (simp add: min_def)
    finally show ?thesis using ok sd by (simp add: e counting_def)
  qed
  then show "stop_flag (srv ?w') \<or> counting n ?w'" "announce_ok ?w'" by simp_all
qed

lemma not_counting_0:
  assumes "announce_ok w" and "counting 0 w" and "expiry (srv w) \<le> t" "clock_ok t"
  shows "stop_flag (srv (fired E t t' w))"
proof -
  from assms(2,3) have "shutdown_time (srv w) \<le> t" "time_ok (shutdown_time (srv w))" by (simp_all add: counting_def)
  then show ?thesis
    using on_timer_stops [of "w\<lparr>srv := (srv w)\<lparr>timer_wait := False\<rparr>\<rparr>" t E t'] assms(4) server_stop_sets(1)
    by (simp add: fired_def)
qed

lemma fire_timer_stops:
  assumes "announce_ok w" and "stop_flag (srv w) \<or> counting n w" and "fires_ok E ts w" and "n < length ts"
  shows "stop_flag (srv (fire_timer E ts w))"
  using assms
proof (induction E ts w arbitrary: n rule: fires_ok.induct)
  case (2 E t t' ts w)
  show ?case
  proof (cases "stop_flag (srv w)")
    case True
    then show ?thesis by (rule fire_timer_keeps_stop)
  next
    case False
    with "2.prems"(2) have c: "counting n w" by simp
    then have tw: "timer_wait (srv w)" by (simp add: counting_def)
    with "2.prems"(3) have t: "expiry (srv w) \<le> t" "t \<le> t'" "clock_ok t" "clock_ok t'" "fires_ok E ts (fired E t t' w)"
      by simp_all
    show ?thesis
    proof (cases n)
      case 0
      with not_counting_0 [OF "2.prems"(1) _ t(1,3)] c tw show ?thesis by (simp add: fire_timer_keeps_stop)
    next
      case (Suc m)
      let ?w = "w\<lparr>srv := (srv w)\<lparr>timer_wait := False\<rparr>\<rparr>"
      have "ceil_seconds (shutdown_time (srv w) - t) \<le> 10 * int (Suc m)"
        using ceil_seconds_mono [of "shutdown_time (srv w) - t" "shutdown_time (srv w) - expiry (srv w)"] c t(1) Suc
        by (simp add: counting_def)
      with armed_counts [of ?w t t' m E] "2.prems"(1) t c
      have "stop_flag (srv (fired E t t' w)) \<or> counting m (fired E t t' w)" "announce_ok (fired E t t' w)"
        by (simp_all add: fired_def counting_def)
      with "2.IH" [OF tw, of m] t(5) "2.prems"(4) Suc tw show ?thesis by simp
    qed
  qed
qed simp

lemma shutdown_arms:
  assumes ok: "announce_ok w" and ex: "expiry (srv w) = never" and t: "clock_ok t0" "t0 \<le> t" "t \<le> t'" "clock_ok t'"
    and cd: "0 \<le> cooldown" "cooldown \<le> 10 * int (Suc n)" "fits_int 64 (t0 + cooldown * nanos)"
  shows "let w1 = snd (server_shutdown E True cooldown t0 t t' w) in
    announce_ok w1 \<and> (stop_flag (srv w1) \<or> counting n w1)"
proof -
  let ?sd = "t0 + cooldown * nanos"
  let ?w = "w\<lparr>srv := (srv w)\<lparr>shutdown_time := ?sd\<rparr>\<rparr>"
  have t0: "0 \<le> t0" using t(1) by (simp add: clock_ok_def)
  have c: "0 \<le> cooldown * nanos" using cd(1) by (simp add: nanos_def)
  with cd(3) t0 have f: "fits_int 64 (cooldown * nanos)" by (auto simp: fits_64)
  have s: "server_shutdown E True cooldown t0 t t' w = server_on_timer E False t t' ?w"
    using ex f cd(3) by (simp add: server_shutdown_def upd_srv_def)
  have sd: "time_ok ?sd" using cd(3) t0 c by (simp add: time_ok_def fits_64)
  have ct: "clock_ok t" using t by (simp add: clock_ok_def)
  have "?sd - t \<le> 0 - (- cooldown) * nanos" using t by simp
  then have "ceil_seconds (?sd - t) \<le> cooldown"
    using ceil_seconds_mono [of "?sd - t" "0 - (- cooldown) * nanos"]
    unfolding ceil_seconds_minus by (simp add: ceil_seconds_def)
  then have "ceil_seconds (shutdown_time (srv ?w) - t) \<le> 10 * int (Suc n)" using cd(2) by simp
  with armed_counts [of ?w t t' n E] ok t ct sd show ?thesis by (simp add: s Let_def)
qed

lemma signal_when_armed:
  "expiry (srv w) \<noteq> never \<Longrightarrow> stop_flag (srv (snd (server_on_signal E False n s0 s s' w)))"
  using server_stop_sets(1) by (simp add: server_on_signal_def upd_srv_def)

section \<open>Properties\<close>

text \<open>A server whose list holds the system channel with one connected user.\<close>

definition sample_srv :: srv_world where
  "sample_srv =
     \<lparr>usrs = [1 \<mapsto> \<lparr>uname = ''ann'', uchans = [40], ualive = True\<rparr>],
      chans = [40 \<mapsto> \<lparr>chan_uid = 1002, cid = 1, cname = ''System'', cusers = [1], ckind = System_channel\<rparr>],
      cvec = [None, Some 40], next_uid = 1002, next_cid = 1000, sent = [], srv = new_srv_state\<rparr>"

definition quiet_env :: env where
  "quiet_env = \<lparr>env_sr = (\<lambda>j n. ([], True)),
     env_number_cast = (\<lambda>j. case j of JUint n \<Rightarrow> Inr n | _ \<Rightarrow> Inl System_error)\<rparr>"

lemma sample_srv_ok: "announce_ok sample_srv" "expiry (srv sample_srv) = never"
  by (auto simp: announce_ok_def world_ok_def members_ok_def flat_set_def sample_srv_def cl_at_def
      new_srv_state_def split: if_splits)

text \<open>
  The \<^verbatim>\<open>ceil\<close> of \<^verbatim>\<open>utility.hpp\<close> rounds every duration, negative ones included, up to the next
  whole second.
\<close>

theorem ceil_seconds_rounds_up:
  "d \<le> ceil_seconds d * nanos \<and> (ceil_seconds d - 1) * nanos < d"
  by (rule ceil_seconds_bounds)

text \<open>
  C31: a shutdown ends. Once \<^verbatim>\<open>shutdown\<close> with a cooldown of at most \<open>10 n\<close> seconds has run on the strand of a
  server with a system channel that was not shutting down, the timer is armed, every firing before the end arms it again, and
  \<open>n\<close> firings, each at any time after its expiry, set the stop flag; for the thirty seconds of the
  sources these are three. The readings of the clock are not negative and ten seconds or more from the end of
  its range, and the cooldown is not negative and ends at a time point.
\<close>

theorem shutdown_stops:
  assumes "announce_ok w" and "expiry (srv w) = never" and "clock_ok t0" "t0 \<le> t" "t \<le> t'" "clock_ok t'"
    and "0 \<le> cooldown" "cooldown \<le> 10 * int n" "0 < n" and "fits_int 64 (t0 + cooldown * nanos)"
    and "fires_ok E ts (snd (server_shutdown E True cooldown t0 t t' w))" and "n \<le> length ts"
  shows "stop_flag (srv (fire_timer E ts (snd (server_shutdown E True cooldown t0 t t' w))))"
proof -
  from assms(9) obtain m where m: "n = Suc m" using gr0_implies_Suc by blast
  show ?thesis
    using shutdown_arms [OF assms(1-7), of m E] assms(8,10-12) m by (intro fire_timer_stops) (auto simp: Let_def)
qed

text \<open>The countdown of thirty seconds, with a timer that is late once.\<close>

theorem shutdown_stops_witness:
  "stop_flag (srv (fire_timer quiet_env [(10 * nanos, 10 * nanos), (21 * nanos, 21 * nanos), (30 * nanos, 30 * nanos)]
     (snd (server_shutdown quiet_env True 30 0 0 0 sample_srv))))"
proof (rule shutdown_stops [where n = 3])
  show "announce_ok sample_srv" "expiry (srv sample_srv) = never" by (rule sample_srv_ok)+
  show "fires_ok quiet_env [(10 * nanos, 10 * nanos), (21 * nanos, 21 * nanos), (30 * nanos, 30 * nanos)]
     (snd (server_shutdown quiet_env True 30 0 0 0 sample_srv))"
    by (simp add: server_shutdown_def server_on_timer_def ceil_seconds_def sdiv_nanos nanos_def
        never_def sample_srv_def new_srv_state_def cl_at_def chan_send_def seq_act_def bind_act_def
        upd_srv_def quiet_env_def make_message_def get_chan_def get_user_def user_send_def
        server_stop_def cancel_waits_def fired_def arm_timer_def fits_int_def clock_ok_def)
qed (simp_all add: clock_ok_def nanos_def never_def fits_int_def)

text \<open>
  A countdown does not end early. A firing of the timer of a server that is not stopped sets
  the stop flag exactly when the shutdown time has come; before that it announces the remaining
  seconds, arms the timer for at most ten seconds more and leaves the shutdown time alone.
\<close>

theorem timer_stops_on_time:
  assumes "announce_ok w" and "\<not> stop_flag (srv w)" and "time_ok (shutdown_time (srv w))" and "clock_ok t" "clock_ok t'"
  shows "let w' = snd (server_on_timer E False t t' w) in
    fst (server_on_timer E False t t' w) = Inr () \<and>
    (stop_flag (srv w') \<longleftrightarrow> shutdown_time (srv w) \<le> t) \<and>
    shutdown_time (srv w') = shutdown_time (srv w) \<and>
    (t < shutdown_time (srv w) \<longrightarrow>
       timer_wait (srv w') \<and> t' < expiry (srv w') \<and> expiry (srv w') \<le> t' + 10 * nanos)"
proof (cases "shutdown_time (srv w) \<le> t")
  case True
  then show ?thesis using server_stop_sets [of w] on_timer_stops [OF True assms(3,4), of E t']
    by (simp add: Let_def server_stop_def upd_srv_def cancel_waits_def)
next
  case False
  let ?r = "ceil_seconds (shutdown_time (srv w) - t)"
  have "0 < ?r" using False by simp
  then have "0 < min 10 ?r * nanos" "min 10 ?r * nanos \<le> 10 * nanos" by (simp_all add: nanos_def)
  with on_timer_announces [OF assms(1) _ assms(3-5), of E] False assms(2) show ?thesis
    by (auto simp: Let_def)
qed

theorem timer_stops_on_time_witness:
  "\<not> stop_flag (srv (snd (server_on_timer quiet_env False 5 5 sample_srv)))"
  using timer_stops_on_time [of sample_srv 5 5 quiet_env] sample_srv_ok
  by (simp add: Let_def sample_srv_def new_srv_state_def time_ok_def clock_ok_def never_def nanos_def)

text \<open>
  A second signal stops the server at once. The first \<^verbatim>\<open>SIGINT\<close> or \<^verbatim>\<open>SIGTERM\<close> starts the countdown
  and waits for another, the second sets the stop flag whatever the clock says.
\<close>

theorem second_signal_stops:
  assumes "announce_ok w" and "expiry (srv w) = never" and "\<not> stop_flag (srv w)"
    and "t < t0 + 30 * nanos" and "t' + 10 * nanos < never" and "time_ok (t0 + 30 * nanos)" "clock_ok t0" "clock_ok t" "clock_ok t'"
  shows "let w1 = snd (server_on_signal E False n t0 t t' w) in
    \<not> stop_flag (srv w1) \<and> signal_wait (srv w1) \<and>
    stop_flag (srv (snd (server_on_signal E False n' s0 s s' w1)))"
proof -
  let ?w = "w\<lparr>srv := (srv w)\<lparr>cerr_log := cerr_log (srv w) @ [n], signal_wait := True,
      shutdown_time := t0 + 30 * nanos\<rparr>\<rparr>"
  let ?r = "ceil_seconds (t0 + 30 * nanos - t)"
  have "fits_int 64 (30 * nanos)" "fits_int 64 (t0 + 30 * nanos)"
    using assms(6,7) by (auto simp: fits_64 time_ok_def clock_ok_def nanos_def never_def)
  then have "server_on_signal E False n t0 t t' w = server_on_timer E False t t' ?w"
    using assms(2) by (simp add: server_on_signal_def server_shutdown_def upd_srv_def)
  with on_timer_announces [of ?w t t' E] assms obtain ms where
    e: "server_on_signal E False n t0 t t' w = (Inr (), ?w\<lparr>sent := sent w @ ms,
       srv := (srv ?w)\<lparr>expiry := t' + min 10 ?r * nanos,
         srv_q := srv_q (srv w) @ (if timer_wait (srv w) then [Task_timer True] else []),
         timer_wait := True\<rparr>\<rparr>)" by auto
  have "min 10 ?r * nanos \<le> 10 * nanos" by (simp add: nanos_def)
  then have "t' + min 10 ?r * nanos \<noteq> never" using assms(5) by linarith
  then show ?thesis using assms(3) unfolding Let_def e by (simp add: signal_when_armed)
qed

theorem second_signal_stops_witness:
  "stop_flag (srv (snd (server_on_signal quiet_env False 2 0 0 0
     (snd (server_on_signal quiet_env False 2 0 0 0 sample_srv)))))"
  using second_signal_stops [of sample_srv 0 0 0 quiet_env 2 2 0 0 0] sample_srv_ok
  by (simp add: Let_def sample_srv_def new_srv_state_def nanos_def never_def time_ok_def clock_ok_def)

end
