(* ===== verification/Room.thy ===== *)
theory Room
  imports Channel
begin

text \<open>
  \<^verbatim>\<open>server/core/room.cpp\<close>: the chat room, a channel that broadcasts what its members say.
\<close>

section \<open>The code\<close>

definition room_on_insert :: "'a world_scheme hook" where
  "room_on_insert c u = ret ()"

definition room_on_erase :: "'a world_scheme hook" where
  "room_on_erase c u = ret ()"

definition say_json :: "channel \<Rightarrow> string \<Rightarrow> string \<Rightarrow> json" where
  "say_json x user text =
     JObj (obj_set ''message'' (JStr text) (obj_set ''user'' (JStr user)
       (obj_set ''name'' (JStr (cname x)) (obj_set ''cid'' (JUint (cid x))
         (obj_set ''verb'' (JStr ''say'') [])))))"

definition do_say :: "env \<Rightarrow> cptr \<Rightarrow> rpc_call \<Rightarrow> ('a world_scheme, unit) act" where
  "do_say E c r =
     seq_act (checked_user r)
       (bind_act (is_joined c (ru r)) (\<lambda>j.
          if \<not> j then throw (rpc_error_msg ''not in channel'')
          else bind_act (lift_act (checked_string_key (params r) ''message'')) (\<lambda>text.
            bind_act (get_chan c) (\<lambda>x. bind_act (get_user (ru r)) (\<lambda>y.
              seq_act (chan_send E c (say_json x (uname y) text)) (do_complete E r))))))"

text \<open>Declared beside \<^verbatim>\<open>do_say\<close>, and called by nothing.\<close>

definition do_slash :: "rpc_call \<Rightarrow> ('a world_scheme, unit) act" where
  "do_slash r = seq_act (checked_user r) (throw (rpc_error_msg ''Unimplemented''))"

definition room_on_dispatch :: "env \<Rightarrow> cptr \<Rightarrow> rpc_call \<Rightarrow> ('a world_scheme, unit) act" where
  "room_on_dispatch E c r =
     (if method r = ''say'' then do_say E c r
      else if method r = ''slash'' then do_say E c r
      else throw (rpc_error_of_code Method_not_found))"

definition make_room :: "cptr \<Rightarrow> string \<Rightarrow> ('a world_scheme, unit) act" where
  "make_room c nm = insert_channel c 2 nm Room_impl"

section \<open>Properties\<close>

interpretation room_insert: channel_hook room_on_insert
  by unfold_locales (simp add: room_on_insert_def)

interpretation room_erase: channel_hook room_on_erase
  by unfold_locales (simp add: room_on_erase_def)

lemma keeps_is_joined [keeps_intros]: "keeps P (is_joined c u)"
  unfolding is_joined_def by (intro keeps_intros)

lemma keeps_room_dispatch [keeps_intros]: "keeps (ready u) (room_on_dispatch E c r)"
  unfolding room_on_dispatch_def do_say_def by (intro keeps_intros)

lemma checked_user_eq:
  assumes "usrs w (ru r) = Some y"
  shows "checked_user r w =
    (if uname y = [] then (Inl (Rpc_error (- 32602) ''No identity set''), w) else (Inr (), w))"
  using assms by (simp add: checked_user_def)

text \<open>
  C34: \<^verbatim>\<open>say\<close> in a room, on every branch. A user without a name, a user that is not in the room and a
  request without a string \<^verbatim>\<open>message\<close> are refused with an \<^verbatim>\<open>rpc_error\<close> and nothing is sent;
  otherwise every connected member, the speaker included, gets the message once, in the order of
  the member list, and then the speaker gets the response to its request. Nothing else changes.
\<close>

theorem say_delivers:
  assumes "world_ok w" and "chans w c = Some x" and "usrs w (ru r) = Some y"
    and "method r = ''say'' \<or> method r = ''slash''"
  shows "room_on_dispatch E c r w =
    (if uname y = [] then (Inl (Rpc_error (- 32602) ''No identity set''), w)
     else if ru r \<notin> set (cusers x) then (Inl (Rpc_error (- 32602) ''not in channel''), w)
     else case checked_string_key (params r) ''message'' of
       Inl e \<Rightarrow> (Inl e, w)
     | Inr text \<Rightarrow>
         (Inr (), w\<lparr>sent := sent w @
            map (\<lambda>u. (u, make_message (env_sr E) (say_json x (uname y) text)))
              (filter (alive (usrs w)) (cusers x)) @
            map (\<lambda>p. (fst p, make_message (env_sr E) (snd p))) (complete r)\<rparr>))"
proof -
  have d: "room_on_dispatch E c r = do_say E c r" using assms(4) by (auto simp: room_on_dispatch_def)
  show ?thesis
    unfolding d do_say_def is_joined_def
    using assms(2,3) checked_user_eq [OF assms(3)]
    by (auto simp: seq_act_def bind_act_def chan_send_eq [OF assms(1,2)] do_complete_def send_all_eq
        split: sum.splits)
qed

text \<open>Two named members of a room and a user that is not in it.\<close>

definition sample_room :: world where
  "sample_room =
     cl_init\<lparr>usrs := [1 \<mapsto> \<lparr>uname = ''ann'', uchans = [50], ualive = True\<rparr>,
                    2 \<mapsto> \<lparr>uname = ''bob'', uchans = [50], ualive = True\<rparr>,
                    3 \<mapsto> \<lparr>uname = ''eve'', uchans = [], ualive = True\<rparr>],
            chans := [50 \<mapsto> \<lparr>chan_uid = 1001, cid = 2, cname = ''General'', cusers = [1, 2],
                             ckind = Room_impl\<rparr>],
            cvec := [None, None, Some 50]\<rparr>"

definition sample_env :: env where
  "sample_env = \<lparr>env_sr = (\<lambda>j n. (case j of JObj ms \<Rightarrow> concat (map fst ms) | _ \<Rightarrow> '''', True)),
     env_number_cast = (\<lambda>j. case j of JUint n \<Rightarrow> Inr n | _ \<Rightarrow> Inl System_error)\<rparr>"

definition say_hi :: rpc_call where
  "say_hi = (make_rpc_call 1)\<lparr>rid := Some (JUint 7), method := ''say'',
     params := JObj [(''cid'', JUint 2), (''message'', JStr ''hi'')]\<rparr>"

lemma sample_room_ok: "world_ok sample_room"
  by (auto simp: world_ok_def members_ok_def sample_room_def flat_set_def split: if_splits)

lemma sample_room_sel:
  "chans sample_room 50 = Some \<lparr>chan_uid = 1001, cid = 2, cname = ''General'', cusers = [1, 2], ckind = Room_impl\<rparr>"
  "usrs sample_room 1 = Some \<lparr>uname = ''ann'', uchans = [50], ualive = True\<rparr>"
  "alive (usrs sample_room) 1" "alive (usrs sample_room) 2" "sent sample_room = []"
  by (simp_all add: sample_room_def alive_def cl_init_def)

theorem say_delivers_witness:
  "map fst (sent (snd (room_on_dispatch sample_env 50 say_hi sample_room))) = [1, 2, 1]"
proof -
  have r: "ru say_hi = 1" "method say_hi = ''say'' \<or> method say_hi = ''slash''"
    by (simp_all add: say_hi_def make_rpc_call_def)
  have "checked_string_key (params say_hi) ''message'' = Inr ''hi''"
    by (simp add: say_hi_def checked_string_key_def with_key_def checked_value_def)
  moreover have "map fst (complete say_hi) = [1]"
    by (simp add: say_hi_def complete_def make_rpc_call_def)
  ultimately show ?thesis
    using say_delivers [OF sample_room_ok sample_room_sel(1) _ r(2)] sample_room_sel r
    by (simp add: comp_def)
qed

end
