(* ===== verification/System_Channel.thy ===== *)
theory System_Channel
  imports Server Room
begin

text \<open>
  \<^verbatim>\<open>server/core/system.cpp\<close>: the system channel, where a user gets its name and where requests to
  stop the server arrive. Requests run on the strand of the user's connection, never on the
  server's, so \<^verbatim>\<open>shutdown\<close> and \<^verbatim>\<open>stop\<close> are posted.
\<close>

section \<open>The code\<close>

definition system_on_insert :: "'a srv_world_scheme hook" where
  "system_on_insert c u = ret ()"

definition system_on_erase :: "'a srv_world_scheme hook" where
  "system_on_erase c u = ret ()"

definition do_identify :: "env \<Rightarrow> cptr \<Rightarrow> rpc_call \<Rightarrow> ('a srv_world_scheme, unit) act" where
  "do_identify E c r =
     bind_act (lift_act (checked_string_key (params r) ''name'')) (\<lambda>nm.
       if length nm > 20 then throw (rpc_error_msg ''Invalid \"name\": too long'')
       else bind_act (get_user (ru r)) (\<lambda>y.
         if uname y \<noteq> [] then throw (rpc_error_msg ''Identity is already set'')
         else seq_act (set_user (ru r) (y\<lparr>uname := nm\<rparr>))
           (seq_act (chan_insert system_on_insert E c (ru r)) (do_complete E r))))"

definition do_shutdown :: "env \<Rightarrow> rpc_call \<Rightarrow> ('a srv_world_scheme, unit) act" where
  "do_shutdown E r = seq_act (server_shutdown E False 30 0 0 0) (do_complete E r)"

definition do_stop :: "env \<Rightarrow> rpc_call \<Rightarrow> ('a srv_world_scheme, unit) act" where
  "do_stop E r = seq_act (server_stop False) (do_complete E r)"

definition system_on_dispatch :: "env \<Rightarrow> cptr \<Rightarrow> rpc_call \<Rightarrow> ('a srv_world_scheme, unit) act" where
  "system_on_dispatch E c r =
     (if method r = ''identify'' then do_identify E c r
      else if method r = ''shutdown'' then do_shutdown E r
      else if method r = ''stop'' then do_stop E r
      else throw (rpc_error_of_code Method_not_found))"

definition make_system_channel :: "cptr \<Rightarrow> ('a srv_world_scheme, unit) act" where
  "make_system_channel c = insert_channel c 1 ''System'' System_channel"

section \<open>The contract of the channel\<close>

interpretation system_insert: channel_hook system_on_insert
  by unfold_locales (simp add: system_on_insert_def)

interpretation system_erase: channel_hook system_on_erase
  by unfold_locales (simp add: system_on_erase_def)

lemma ready_srv [simp]: "ready u (w\<lparr>srv := s\<rparr>) = ready u w"
  by (simp add: ready_def world_ok_def)

lemma keeps_post_srv [keeps_intros]:
  "keeps (ready u) (server_shutdown E False n a b d)" "keeps (ready u) (server_stop False)"
  by (simp_all add: keeps_def server_shutdown_def server_stop_def post_srv_def upd_srv_def)

text \<open>Naming a user keeps the membership.\<close>

lemma name_user_ready:
  assumes "ready u w" and "usrs w u = Some y"
  shows "ready u (w\<lparr>usrs := (usrs w)(u \<mapsto> y\<lparr>uname := nm\<rparr>)\<rparr>)"
  using assms members_ok_user_upd [of "usrs w" "chans w" u y]
  by (simp add: ready_def world_ok_def)

lemma identify_named:
  assumes w: "ready (ru r) w" and y: "usrs w (ru r) = Some y" and n: "uname y \<noteq> []"
  shows "fst (do_identify E c r w) \<noteq> Inr ()" "snd (do_identify E c r w) = w"
  using assms by (auto simp: do_identify_def bind_act_def split: sum.splits)

lemma keeps_identify [keeps_intros]: "keeps (ready (ru r)) (do_identify E c r)"
proof -
  have "ready (ru r) (snd (do_identify E c r w))" if w: "ready (ru r) w" for w :: "'a srv_world_scheme"
  proof -
    from w obtain y where y: "usrs w (ru r) = Some y" by (auto simp: ready_def)
    let ?w = "\<lambda>nm. w\<lparr>usrs := (usrs w)(ru r \<mapsto> y\<lparr>uname := nm\<rparr>)\<rparr>"
    have "keeps (ready (ru r)) (seq_act (chan_insert system_on_insert E c (ru r)) (do_complete E r) ::
        ('a srv_world_scheme, unit) act)"
      by (intro keeps_intros system_insert.keeps_insert)
    from keepsD [OF this name_user_ready [OF w y]]
    have "ready (ru r) (snd (seq_act (chan_insert system_on_insert E c (ru r)) (do_complete E r) (?w nm)))" for nm .
    with w y show ?thesis
      by (auto simp: do_identify_def bind_act_def set_user_def split: sum.splits)
  qed
  then show ?thesis unfolding keeps_def by blast
qed

lemma keeps_system_dispatch [keeps_intros]: "keeps (ready (ru r)) (system_on_dispatch E c r)"
  unfolding system_on_dispatch_def do_shutdown_def do_stop_def by (intro keeps_intros)

section \<open>Properties\<close>

text \<open>The refusals and the effect of \<^verbatim>\<open>identify\<close>, with the user's record after it.\<close>

lemma identify_accepts:
  assumes w: "world_ok w" and x: "chans w c = Some x" and y: "usrs w (ru r) = Some y" "uname y = []"
    and nm: "checked_string_key (params r) ''name'' = Inr nm" "length nm \<le> 20"
  shows "\<exists>w'. do_identify E c r w = (Inr (), w') \<and> world_ok w' \<and>
    map_option uname (usrs w' (ru r)) = Some nm \<and>
    joined w' = insert (c, ru r) (joined w)"
proof -
  let ?y = "y\<lparr>uname := nm\<rparr>"
  let ?w = "w\<lparr>usrs := (usrs w)(ru r \<mapsto> ?y)\<rparr>"
  have ok: "world_ok ?w" using w y members_ok_user_upd [of "usrs w" "chans w" "ru r" y]
    by (simp add: world_ok_def)
  have j: "joined ?w = joined w" by (simp add: joined_def)
  have "\<exists>w1. chan_insert system_on_insert E c (ru r) ?w = (Inr (ru r \<notin> set (cusers x)), w1) \<and> world_ok w1 \<and>
      map_option uname (usrs w1 (ru r)) = Some nm \<and> joined w1 = insert (c, ru r) (joined w)"
  proof (cases "ru r \<in> set (cusers x)")
    case True
    with system_insert.insert_present [of ?w c x "ru r" E] x ok j show ?thesis
      by (auto simp: joined_def)
  next
    case False
    from system_insert.insert_fresh [of ?w c x "ru r" ?y E] ok x False obtain w1 where
      w1: "chan_insert system_on_insert E c (ru r) ?w = (Inr True, w1)"
      "core w1 = core (after_insert E c x (ru r) ?y ?w)" by auto
    note a = after_insert_ok [of ?w c x "ru r" ?y E]
    from a ok x have "world_ok w1" "joined w1 = insert (c, ru r) (joined w)"
      using world_ok_core [OF w1(2)] joined_core [OF w1(2)] j by simp_all
    moreover have "map_option uname (usrs w1 (ru r)) = Some nm"
      using core_eqD(1) [OF w1(2)] by (simp add: after_insert_def)
    ultimately show ?thesis using w1(1) False by auto
  qed
  then obtain w1 where w1: "chan_insert system_on_insert E c (ru r) ?w = (Inr (ru r \<notin> set (cusers x)), w1)"
    "world_ok w1" "map_option uname (usrs w1 (ru r)) = Some nm" "joined w1 = insert (c, ru r) (joined w)" by blast
  let ?w' = "snd (do_complete E r w1)"
  have "do_identify E c r w = (Inr (), ?w')"
    using y nm w1(1)
    by (simp add: do_identify_def set_user_def seq_act_def bind_act_def do_complete_def send_all_eq)
  moreover have "world_ok ?w'" "usrs ?w' = usrs w1" "joined ?w' = joined w1"
    using w1(2) by (simp_all add: do_complete_def send_all_eq world_ok_def joined_def)
  ultimately show ?thesis using w1 by simp
qed

text \<open>
  \<^verbatim>\<open>identify\<close> gives a user a name once. A request without a string \<^verbatim>\<open>name\<close>, with a name of more than
  twenty characters, or from a user that has a name is refused and changes nothing; any other
  request sets the name and puts the user into the system channel.
\<close>

theorem identify_sets_name:
  assumes "world_ok w" and "chans w c = Some x" and "usrs w (ru r) = Some y"
    and "method r = ''identify''"
  shows "let (res, w') = system_on_dispatch E c r w in
    case checked_string_key (params r) ''name'' of
      Inl e \<Rightarrow> res = Inl e \<and> w' = w
    | Inr nm \<Rightarrow>
        if length nm > 20 \<or> uname y \<noteq> [] then (\<exists>msg. res = Inl (Rpc_error (- 32602) msg)) \<and> w' = w
        else res = Inr () \<and> map_option uname (usrs w' (ru r)) = Some nm \<and>
             joined w' = insert (c, ru r) (joined w) \<and> world_ok w'"
proof -
  have d: "system_on_dispatch E c r w = do_identify E c r w" using assms(4) by (simp add: system_on_dispatch_def)
  show ?thesis
  proof (cases "checked_string_key (params r) ''name''")
    case (Inl e)
    then show ?thesis by (simp add: d do_identify_def bind_act_def)
  next
    case (Inr nm)
    show ?thesis
    proof (cases "length nm > 20 \<or> uname y \<noteq> []")
      case True
      with Inr assms(3) have "\<exists>msg. do_identify E c r w = (Inl (Rpc_error (- 32602) msg), w)"
        by (cases "length nm > 20") (simp_all add: do_identify_def)
      with True Inr show ?thesis by (auto simp: d)
    next
      case False
      with identify_accepts [OF assms(1-3) _ Inr, of E] Inr show ?thesis by (auto simp: d)
    qed
  qed
qed

definition identify_bob :: rpc_call where
  "identify_bob = (make_rpc_call 2)\<lparr>rid := Some (JUint 1), method := ''identify'',
     params := JObj [(''cid'', JUint 1), (''name'', JStr ''bob'')]\<rparr>"

definition sample_srv2 :: srv_world where
  "sample_srv2 = sample_srv\<lparr>usrs := (usrs sample_srv)(2 \<mapsto> \<lparr>uname = [], uchans = [], ualive = True\<rparr>)\<rparr>"

lemma sample_srv2_ok: "world_ok sample_srv2"
  by (auto simp: world_ok_def members_ok_def flat_set_def sample_srv_def sample_srv2_def split: if_splits)

theorem identify_sets_name_witness:
  "map_option uname (usrs (snd (system_on_dispatch sample_env 40 identify_bob sample_srv2)) 2) = Some ''bob''"
proof -
  have n: "checked_string_key (params identify_bob) ''name'' = Inr ''bob''"
    by (simp add: identify_bob_def checked_string_key_def with_key_def checked_value_def)
  have c: "chans sample_srv2 40 = Some \<lparr>chan_uid = 1002, cid = 1, cname = ''System'', cusers = [1], ckind = System_channel\<rparr>"
    by (simp add: sample_srv2_def sample_srv_def)
  have u: "usrs sample_srv2 (ru identify_bob) = Some \<lparr>uname = [], uchans = [], ualive = True\<rparr>"
    and m: "method identify_bob = ''identify''" "ru identify_bob = 2"
    by (simp_all add: sample_srv2_def identify_bob_def make_rpc_call_def)
  from identify_sets_name [OF sample_srv2_ok c u m(1), of sample_env] n m(2) show ?thesis
    by (simp add: case_prod_beta)
qed

text \<open>
  The name may be empty. A user that identifies with an empty name is put into the system
  channel while it still counts as unidentified, so that it can identify again, and it is then not
  announced under its new name.
\<close>

theorem empty_identity_accepted:
  assumes "world_ok w" and "chans w c = Some x" and "usrs w (ru r) = Some y" and "uname y = []"
    and "checked_string_key (params r) ''name'' = Inr []"
  shows "\<exists>w'. do_identify E c r w = (Inr (), w') \<and> (c, ru r) \<in> joined w' \<and>
    map_option uname (usrs w' (ru r)) = Some [] \<and>
    (\<forall>nm r2. ru r2 = ru r \<and> rid r2 = None \<and> checked_string_key (params r2) ''name'' = Inr nm \<and> length nm \<le> 20 \<longrightarrow>
       sent (snd (do_identify E c r2 w')) = sent w')"
proof -
  from identify_accepts [OF assms, of E] obtain w' where w': "do_identify E c r w = (Inr (), w')" "world_ok w'"
    "map_option uname (usrs w' (ru r)) = Some []" "(c, ru r) \<in> joined w'" by auto
  then obtain y' x' where y': "usrs w' (ru r) = Some y'" "uname y' = []" and x': "chans w' c = Some x'" "ru r \<in> set (cusers x')"
    by (auto simp: joined_def)
  have "sent (snd (do_identify E c r2 w')) = sent w'"
    if "ru r2 = ru r" "rid r2 = None" "checked_string_key (params r2) ''name'' = Inr nm" "length nm \<le> 20" for nm r2
    using that y' x' system_insert.insert_present [of "w'\<lparr>usrs := (usrs w')(ru r \<mapsto> y'\<lparr>uname := nm\<rparr>)\<rparr>" c x' "ru r" E]
    by (simp add: do_identify_def set_user_def seq_act_def bind_act_def do_complete_def complete_def)
  with w' show ?thesis by blast
qed

theorem empty_identity_accepted_witness:
  "\<exists>w'. do_identify sample_env 40 (identify_bob\<lparr>params := JObj [(''name'', JStr [])]\<rparr>) sample_srv2 = (Inr (), w') \<and>
     (40, 2) \<in> joined w'"
proof -
  let ?r = "identify_bob\<lparr>params := JObj [(''name'', JStr [])]\<rparr>"
  have "checked_string_key (params ?r) ''name'' = Inr []"
    by (simp add: checked_string_key_def with_key_def checked_value_def)
  moreover have "chans sample_srv2 40 = Some \<lparr>chan_uid = 1002, cid = 1, cname = ''System'', cusers = [1], ckind = System_channel\<rparr>"
    "usrs sample_srv2 (ru ?r) = Some \<lparr>uname = [], uchans = [], ualive = True\<rparr>" "ru ?r = 2"
    by (simp_all add: sample_srv2_def sample_srv_def identify_bob_def make_rpc_call_def)
  ultimately show ?thesis
    using empty_identity_accepted [OF sample_srv2_ok, of 40 _ ?r _ sample_env] by fastforce
qed

end
