(* ===== verification/Table.thy ===== *)
theory Table
  imports System_Channel Blackjack_Game
begin

text \<open>
  The class \<^verbatim>\<open>table\<close> of \<^verbatim>\<open>server/core/blackjack.cpp\<close> and its service: the channel that owns a game.
  Requests and changes of membership are posted to the strand of the table and run there one at a
  time; the state is the game, the queue of the strand and the source of random numbers.
\<close>

section \<open>The code\<close>

datatype table_task =
    Do_insert uptr
  | Do_erase uptr
  | Do_play rpc_call
  | Do_watch rpc_call
  | Do_bet rpc_call
  | Do_start rpc_call
  | Do_hit rpc_call
  | Do_stand rpc_call

record lounge = srv_world +
  table_g :: game
  table_q :: "table_task list"
  table_rnd :: rng

definition table_post :: "table_task \<Rightarrow> ('a lounge_scheme, unit) act" where
  "table_post t = modify (\<lambda>w. w\<lparr>table_q := table_q w @ [t]\<rparr>)"

definition table_on_insert :: "'a lounge_scheme hook" where
  "table_on_insert c u = table_post (Do_insert u)"

definition table_on_erase :: "'a lounge_scheme hook" where
  "table_on_erase c u = table_post (Do_erase u)"

definition table_on_dispatch :: "cptr \<Rightarrow> rpc_call \<Rightarrow> ('a lounge_scheme, unit) act" where
  "table_on_dispatch c r =
     (if method r = ''play'' then table_post (Do_play r)
      else if method r = ''watch'' then table_post (Do_watch r)
      else if method r = ''bet'' then table_post (Do_bet r)
      else if method r = ''start'' then table_post (Do_start r)
      else if method r = ''hit'' then table_post (Do_hit r)
      else if method r = ''stand'' then table_post (Do_stand r)
      else throw (rpc_error_of_code Method_not_found))"

text \<open>The names the game reads through the pointers in its seats.\<close>

definition user_names :: "'a world_scheme \<Rightarrow> uptr \<Rightarrow> string option" where
  "user_names w u = map_option uname (usrs w u)"

definition game_json :: "('a lounge_scheme, json) act" where
  "game_json w = (game_to_json (user_names w) (table_g w), w)"

definition update_json :: "channel \<Rightarrow> string \<Rightarrow> json \<Rightarrow> json" where
  "update_json x action g =
     JObj (obj_set ''game'' g (obj_set ''action'' (JStr action) (obj_set ''verb'' (JStr ''update'')
       (obj_set ''cid'' (JUint (cid x)) []))))"

definition table_update :: "env \<Rightarrow> cptr \<Rightarrow> string \<Rightarrow> ('a lounge_scheme, unit) act" where
  "table_update E c action =
     bind_act (get_chan c) (\<lambda>x. bind_act game_json (\<lambda>g. chan_send E c (update_json x action g)))"

fun table_callback :: "env \<Rightarrow> cptr \<Rightarrow> game_callback \<Rightarrow> ('a lounge_scheme, unit) act" where
  "table_callback E c On_game_bet = table_update E c ''bet''"
| "table_callback E c On_game_deal_card = table_update E c ''deal''"

fun table_callbacks :: "env \<Rightarrow> cptr \<Rightarrow> game_callback list \<Rightarrow> ('a lounge_scheme, unit) act" where
  "table_callbacks E c [] = ret ()"
| "table_callbacks E c (b # bs) = seq_act (table_callback E c b) (table_callbacks E c bs)"

definition set_game :: "game \<Rightarrow> ('a lounge_scheme, unit) act" where
  "set_game g = modify (\<lambda>w. w\<lparr>table_g := g\<rparr>)"

text \<open>\<^verbatim>\<open>if(ec) rpc.fail(ec.message())\<close>\<close>

definition fail_ec :: "bj_error option \<Rightarrow> ('a lounge_scheme, unit) act" where
  "fail_ec ec = (case ec of None \<Rightarrow> ret () | Some e \<Rightarrow> throw (rpc_error_msg (snd (bj_make_error_code e))))"

definition table_do_insert :: "env \<Rightarrow> cptr \<Rightarrow> uptr \<Rightarrow> ('a lounge_scheme, unit) act" where
  "table_do_insert E c u =
     bind_act (get_chan c) (\<lambda>x. bind_act game_json (\<lambda>g. user_send_json E u (update_json x ''init'' g)))"

definition table_do_erase :: "env \<Rightarrow> cptr \<Rightarrow> uptr \<Rightarrow> ('a lounge_scheme, unit) act" where
  "table_do_erase E c u w =
     (let (g, res) = surrender (table_g w) u in
      seq_act (set_game g) (if res = 1 then table_update E c ''surrender'' else ret ()) w)"

text \<open>The \<^verbatim>\<open>try\<close> block every request runs in.\<close>

definition table_try :: "env \<Rightarrow> rpc_call \<Rightarrow> ('a lounge_scheme, unit) act \<Rightarrow> ('a lounge_scheme, unit) act" where
  "table_try E r body = catch_rpc body (do_complete_error E r)"

definition table_do_play :: "env \<Rightarrow> cptr \<Rightarrow> rpc_call \<Rightarrow> ('a lounge_scheme, unit) act" where
  "table_do_play E c r =
     table_try E r (\<lambda>w.
       let (g, ec, _) = join (table_g w) (ru r) None in
       seq_act (set_game g) (seq_act (fail_ec ec)
         (seq_act (table_update E c ''play'') (do_complete E r))) w)"

definition table_do_watch :: "env \<Rightarrow> cptr \<Rightarrow> rpc_call \<Rightarrow> ('a lounge_scheme, unit) act" where
  "table_do_watch E c r =
     table_try E r (\<lambda>w.
       (case leave (table_g w) (ru r) None of
          Inl e \<Rightarrow> (Inl e, w)
        | Inr (g, ec, _) \<Rightarrow>
            seq_act (set_game g) (seq_act (fail_ec ec)
              (seq_act (table_update E c ''watch'') (do_complete E r))) w))"

definition table_do_bet :: "env \<Rightarrow> cptr \<Rightarrow> rpc_call \<Rightarrow> ('a lounge_scheme, unit) act" where
  "table_do_bet E c r =
     table_try E r (\<lambda>w.
       (case bet (table_g w) (ru r) None of
          Inl e \<Rightarrow> (Inl e, w)
        | Inr (g, ec, cbs) \<Rightarrow>
            seq_act (set_game g) (seq_act (table_callbacks E c cbs)
              (seq_act (fail_ec ec) (do_complete E r))) w))"

definition table_do_start :: "env \<Rightarrow> cptr \<Rightarrow> rpc_call \<Rightarrow> ('a lounge_scheme, unit) act" where
  "table_do_start E c r =
     table_try E r (\<lambda>w.
       (case start (table_g w) (table_rnd w) None of
          Inl e \<Rightarrow> (Inl e, w)
        | Inr (g, rnd, ec, cbs) \<Rightarrow>
            seq_act (modify (\<lambda>w. w\<lparr>table_g := g, table_rnd := rnd\<rparr>)) (seq_act (table_callbacks E c cbs)
              (seq_act (fail_ec ec) (do_complete E r))) w))"

definition table_do_hit :: "env \<Rightarrow> rpc_call \<Rightarrow> ('a lounge_scheme, unit) act" where
  "table_do_hit E r = table_try E r (do_complete E r)"

definition table_do_stand :: "env \<Rightarrow> rpc_call \<Rightarrow> ('a lounge_scheme, unit) act" where
  "table_do_stand E r = table_try E r (do_complete E r)"

fun run_table_task :: "env \<Rightarrow> cptr \<Rightarrow> table_task \<Rightarrow> ('a lounge_scheme, unit) act" where
  "run_table_task E c (Do_insert u) = table_do_insert E c u"
| "run_table_task E c (Do_erase u) = table_do_erase E c u"
| "run_table_task E c (Do_play r) = table_do_play E c r"
| "run_table_task E c (Do_watch r) = table_do_watch E c r"
| "run_table_task E c (Do_bet r) = table_do_bet E c r"
| "run_table_task E c (Do_start r) = table_do_start E c r"
| "run_table_task E c (Do_hit r) = table_do_hit E r"
| "run_table_task E c (Do_stand r) = table_do_stand E r"

text \<open>
  The timer handler of the table, which nothing starts: whether it arms the timer again.
\<close>

definition table_on_timer :: "bool \<Rightarrow> bool \<Rightarrow> 'a lounge_scheme \<Rightarrow> bool outcome" where
  "table_on_timer aborted other_error w =
     (if aborted then Inr False
      else if other_error then Inl Assert_failed
      else Inr (\<not> is_shutting_down w))"

text \<open>
  The constructor of the table and the start of its service. \<open>mem\<close> is what the storage of the
  seats held.
\<close>

definition table_ctor :: "cptr \<Rightarrow> (nat \<Rightarrow> int) \<Rightarrow> ('a lounge_scheme, unit) act" where
  "table_ctor c mem =
     seq_act (channel_ctor_reserved c 3 ''Blackjack'' Table)
       (\<lambda>w. case make_game 1 mem (table_rnd w) of
              Inl e \<Rightarrow> (Inl e, w)
            | Inr (g, rnd) \<Rightarrow> (Inr (), w\<lparr>table_g := g, table_q := [], table_rnd := rnd\<rparr>))"

definition blackjack_on_start :: "cptr \<Rightarrow> (nat \<Rightarrow> int) \<Rightarrow> ('a lounge_scheme, unit) act" where
  "blackjack_on_start c mem = seq_act (table_ctor c mem) (cl_insert c)"

definition blackjack_on_stop :: "('a lounge_scheme, unit) act" where
  "blackjack_on_stop = ret ()"

definition make_blackjack_service :: "('a srv_world_scheme, unit) act" where
  "make_blackjack_service = server_insert Blackjack_service"

section \<open>The contract of the channel\<close>

lemma core_table [simp]:
  "core (w\<lparr>table_g := g\<rparr>) = core w" "core (w\<lparr>table_q := q\<rparr>) = core w" "core (w\<lparr>table_rnd := n\<rparr>) = core w"
  by (simp_all add: core_def)

interpretation table_insert: channel_hook table_on_insert
  by unfold_locales (simp add: table_on_insert_def table_post_def)

interpretation table_erase: channel_hook table_on_erase
  by unfold_locales (simp add: table_on_erase_def table_post_def)

lemma ready_table [simp]:
  "ready u (w\<lparr>table_g := g\<rparr>) = ready u w" "ready u (w\<lparr>table_q := q\<rparr>) = ready u w"
  "ready u (w\<lparr>table_rnd := n\<rparr>) = ready u w"
  by (simp_all add: ready_def world_ok_def)

lemma keeps_table_dispatch [keeps_intros]: "keeps (ready u) (table_on_dispatch c r)"
  by (simp add: keeps_def table_on_dispatch_def table_post_def)

section \<open>What the game prints\<close>

lemma seat_to_json_cases:
  assumes "seat_ok s"
  shows "(\<exists>j. seat_to_json names s = Inr j) \<longleftrightarrow>
      (seat_state s \<noteq> Open \<longrightarrow> seat_state s \<noteq> Dealer \<longrightarrow> Option.bind (seat_u s) names \<noteq> None)"
    "(\<exists>j. seat_to_json names s = Inr j) \<or> seat_to_json names s = Inl Undefined"
  using assms
  by (cases "seat_state s"; cases "Option.bind (seat_u s) names";
      simp add: seat_to_json_def seated_json_def Let_def)+

lemma seats_to_json_cases:
  assumes "list_all seat_ok ss"
  shows "(\<exists>js. seats_to_json names ss = Inr js) \<longleftrightarrow> (\<forall>s \<in> set ss. \<exists>j. seat_to_json names s = Inr j)"
    "(\<exists>js. seats_to_json names ss = Inr js) \<or> seats_to_json names ss = Inl Undefined"
  using assms
proof (induction ss)
  case (Cons s ss)
  case 1
  with Cons seat_to_json_cases(2) [of s names] show ?case by (auto split: sum.splits)
next
  case (Cons s ss)
  case 2
  with Cons seat_to_json_cases(2) [of s names] show ?case by (auto split: sum.splits)
qed simp_all

lemma game_to_json_cases:
  assumes ok: "game_ok g"
  shows "(\<exists>j. game_to_json names g = Inr j) \<longleftrightarrow> dom (seating g) \<subseteq> dom names"
    "(\<exists>j. game_to_json names g = Inr j) \<or> game_to_json names g = Inl Undefined"
proof -
  have all: "list_all seat_ok (seats g)" using ok by (simp add: game_ok_def)
  have "(\<forall>s \<in> set (seats g). \<exists>j. seat_to_json names s = Inr j) \<longleftrightarrow> (\<forall>i u. occ g i u \<longrightarrow> names u \<noteq> None)"
  proof (intro iffI allI impI ballI)
    fix i u assume s: "\<forall>s \<in> set (seats g). \<exists>j. seat_to_json names s = Inr j" and o: "occ g i u"
    from occ_not_dealer [OF ok o] have i: "i < length (seats g)" "seat_state (seats g ! i) \<noteq> Dealer" using ok by auto
    with s have "\<exists>j. seat_to_json names (seats g ! i) = Inr j" by (metis nth_mem)
    with seat_to_json_cases(1) [of "seats g ! i" names] list_all_nthD [OF all i(1)] o i show "names u \<noteq> None"
      by (auto simp: occ_def)
  next
    fix s assume a: "\<forall>i u. occ g i u \<longrightarrow> names u \<noteq> None" and "s \<in> set (seats g)"
    then obtain i where i: "i < length (seats g)" "s = seats g ! i" by (auto simp: in_set_conv_nth)
    have sok: "seat_ok s" using list_all_nthD [OF all i(1)] i(2) by simp
    have "Option.bind (seat_u s) names \<noteq> None" if "seat_state s \<noteq> Open" "seat_state s \<noteq> Dealer"
    proof -
      from sok that obtain u where u: "seat_u s = Some u" by (auto simp: seat_ok_def)
      with i that a show ?thesis by (auto simp: occ_def)
    qed
    with seat_to_json_cases(1) [OF sok] show "\<exists>j. seat_to_json names s = Inr j" by blast
  qed
  moreover have "dom (seating g) = {u. \<exists>i. occ g i u}" using seating_eq [OF ok] by (auto simp: dom_def)
  ultimately show "(\<exists>j. game_to_json names g = Inr j) \<longleftrightarrow> dom (seating g) \<subseteq> dom names"
    using seats_to_json_cases(1) [OF all, of names] by (auto simp: game_to_json_def Let_def split: sum.splits)
  show "(\<exists>j. game_to_json names g = Inr j) \<or> game_to_json names g = Inl Undefined"
    using seats_to_json_cases(2) [OF all, of names] by (auto simp: game_to_json_def Let_def)
qed

lemma dom_user_names [simp]: "dom (user_names w) = dom (usrs w)"
  by (auto simp: user_names_def)

lemma user_names_upd [simp]:
  "user_names (w\<lparr>table_g := g\<rparr>) = user_names w" "user_names (w\<lparr>sent := s\<rparr>) = user_names w"
  by (simp_all add: user_names_def fun_eq_iff)

section \<open>The tasks of the strand\<close>

text \<open>
  The states the table relies on: the game is well formed, the channel object exists, and every
  seated user is a live object.
\<close>

definition table_ready :: "cptr \<Rightarrow> 'a lounge_scheme \<Rightarrow> bool" where
  "table_ready c w \<longleftrightarrow> world_ok w \<and> game_ok (table_g w) \<and> c \<in> dom (chans w)"

definition seats_alive :: "'a lounge_scheme \<Rightarrow> bool" where
  "seats_alive w \<longleftrightarrow> dom (seating (table_g w)) \<subseteq> dom (usrs w)"

lemma seats_alive_upd [simp]:
  "seats_alive (w\<lparr>sent := s\<rparr>) = seats_alive w"
  "seats_alive (w\<lparr>table_rnd := n\<rparr>) = seats_alive w"
  "seats_alive (w\<lparr>table_g := g\<rparr>) \<longleftrightarrow> dom (seating g) \<subseteq> dom (usrs w)"
  by (simp_all add: seats_alive_def)

lemma table_ready_upd [simp]:
  "table_ready c (w\<lparr>sent := s\<rparr>) = table_ready c w" "table_ready c (w\<lparr>table_rnd := n\<rparr>) = table_ready c w"
  by (simp_all add: table_ready_def world_ok_def)

lemma table_update_eq:
  assumes t: "table_ready c w" and a: "seats_alive w" and x: "chans w c = Some x"
  shows "\<exists>g. game_to_json (user_names w) (table_g w) = Inr g \<and>
    table_update E c action w =
      (Inr (), w\<lparr>sent := sent w @ map (\<lambda>u. (u, make_message (env_sr E) (update_json x action g)))
        (filter (alive (usrs w)) (cusers x))\<rparr>)"
proof -
  from t a game_to_json_cases(1) [of "table_g w" "user_names w"]
  obtain g where g: "game_to_json (user_names w) (table_g w) = Inr g"
    by (auto simp: table_ready_def seats_alive_def)
  from t have "world_ok w" by (simp add: table_ready_def)
  from chan_send_eq [OF this x] x g show ?thesis
    by (simp add: table_update_def game_json_def bind_act_def)
qed

lemma table_update_dangling:
  assumes t: "table_ready c w" and a: "\<not> seats_alive w"
  shows "table_update E c action w = (Inl Undefined, w)"
proof -
  from t a game_to_json_cases [of "table_g w" "user_names w"]
  have g: "game_to_json (user_names w) (table_g w) = Inl Undefined"
    by (auto simp: table_ready_def seats_alive_def)
  from t obtain x where "chans w c = Some x" by (auto simp: table_ready_def)
  with g show ?thesis by (simp add: table_update_def game_json_def bind_act_def)
qed

text \<open>
  What the tasks keep: any property of the state that does not look at the messages and that the
  operations of the game keep. The contract of such a property is a locale.
\<close>

locale table_frame =
  fixes P :: "'a lounge_scheme \<Rightarrow> bool"
  assumes P_sent: "sent_closed P"
    and P_join: "P w \<Longrightarrow> P (w\<lparr>table_g := fst (join (table_g w) u None)\<rparr>)"
    and P_leave: "P w \<Longrightarrow> leave (table_g w) u None = Inr (g, ec, n) \<Longrightarrow> P (w\<lparr>table_g := g\<rparr>)"
    and P_bet: "P w \<Longrightarrow> bet (table_g w) u None = Inr (g, ec, cbs) \<Longrightarrow> P (w\<lparr>table_g := g\<rparr>)"
    and P_surrender: "P w \<Longrightarrow> P (w\<lparr>table_g := fst (surrender (table_g w) u)\<rparr>)"
    and P_start: "P w \<Longrightarrow> start (table_g w) (table_rnd w) None = Inr (g, rnd, ec, cbs) \<Longrightarrow>
        P (w\<lparr>table_g := g, table_rnd := rnd\<rparr>)"
begin

lemmas sends = keeps_sending [of P, OF P_sent]

lemma keeps_update: "keeps P (table_update E c a)"
proof -
  have "keeps P game_json" by (simp add: keeps_def game_json_def)
  then show ?thesis unfolding table_update_def by (intro keeps_intros sends)
qed

lemma keeps_callbacks: "keeps P (table_callbacks E c cbs)"
proof (induction cbs)
  case Nil
  show ?case unfolding table_callbacks.simps by (rule keeps_ret)
next
  case (Cons b bs)
  have "keeps P (table_callback E c b)" by (cases b) (simp_all add: keeps_update)
  with Cons show ?case unfolding table_callbacks.simps by (intro keeps_intros)
qed

lemma keeps_fail_ec: "keeps P (fail_ec ec)"
  by (cases ec) (simp_all add: fail_ec_def keeps_def)

lemma keeps_rest:
  "keeps P (seq_act (fail_ec ec) (seq_act (table_update E c a) (do_complete E r)))"
  "keeps P (seq_act (table_callbacks E c cbs) (seq_act (fail_ec ec) (do_complete E r)))"
  by (intro keeps_intros keeps_fail_ec keeps_update keeps_callbacks sends)+

lemma keeps_try: "keeps P m \<Longrightarrow> keeps P (table_try E r m)"
  unfolding table_try_def by (intro keeps_intros sends)

lemma set_game_then: "P (w\<lparr>table_g := g\<rparr>) \<Longrightarrow> keeps P m \<Longrightarrow> P (snd (seq_act (set_game g) m w))"
  by (simp add: set_game_def keeps_def)

lemma keeps_members: "keeps P (table_do_insert E c u)" "keeps P (table_do_erase E c u)"
proof -
  have "keeps P game_json" by (simp add: keeps_def game_json_def)
  then show "keeps P (table_do_insert E c u)"
    unfolding table_do_insert_def by (intro keeps_intros sends)
  show "keeps P (table_do_erase E c u)"
    unfolding keeps_def table_do_erase_def Let_def case_prod_beta
    by (intro allI impI set_game_then P_surrender keeps_if keeps_update keeps_ret)
qed

lemma keeps_game_op:
  assumes "\<And>w. P w \<Longrightarrow> P (w\<lparr>table_g := fst (f w)\<rparr>)" and "\<And>x. keeps P (m x)"
  shows "keeps P (\<lambda>w. let (g, x) = f w in seq_act (set_game g) (m x) w)"
  unfolding keeps_def Let_def case_prod_beta using assms by (intro allI impI set_game_then)

lemma keeps_requests:
  "keeps P (table_do_play E c r)" "keeps P (table_do_watch E c r)" "keeps P (table_do_bet E c r)"
  "keeps P (table_do_hit E r)" "keeps P (table_do_stand E r)"
proof -
  show "keeps P (table_do_play E c r)"
    using keeps_game_op [of "\<lambda>w. join (table_g w) (ru r) None", OF P_join keeps_rest(1)]
    unfolding table_do_play_def by (intro keeps_try) (simp add: case_prod_beta)
  show "keeps P (table_do_watch E c r)"
    using set_game_then [OF P_leave keeps_rest(1)]
    unfolding table_do_watch_def by (intro keeps_try) (auto simp: keeps_def split: sum.splits prod.splits)
  show "keeps P (table_do_bet E c r)"
    using set_game_then [OF P_bet keeps_rest(2)]
    unfolding table_do_bet_def by (intro keeps_try) (auto simp: keeps_def split: sum.splits prod.splits)
  show "keeps P (table_do_hit E r)" "keeps P (table_do_stand E r)"
    unfolding table_do_hit_def table_do_stand_def by (intro keeps_try sends)+
qed

lemma keeps_start: "keeps P (table_do_start E c r)"
proof -
  have "P (snd (seq_act (modify (\<lambda>w. w\<lparr>table_g := g, table_rnd := rnd\<rparr>)) (seq_act (table_callbacks E c cbs)
      (seq_act (fail_ec ec) (do_complete E r))) w))"
    if "P w" "start (table_g w) (table_rnd w) None = Inr (g, rnd, ec, cbs)" for w g rnd ec cbs
    using keepsD [OF keeps_rest(2) P_start [OF that]] by simp
  then show ?thesis unfolding table_do_start_def
    by (intro keeps_try) (auto simp: keeps_def split: sum.splits prod.splits)
qed

lemma keeps_task: "keeps P (run_table_task E c t)"
  by (cases t) (simp_all add: keeps_members keeps_requests keeps_start)

end

interpretation table_ok: table_frame "table_ready c"
  by unfold_locales
    (auto simp: table_ready_def world_ok_def intro: join_ok leave_ok bet_ok surrender_ok start_ok)

text \<open>Seats that name live users stay so.\<close>

lemma seats_alive_ops:
  assumes ok: "game_ok (table_g w)" and a: "seats_alive w"
  shows "u \<in> dom (usrs w) \<Longrightarrow> seats_alive (w\<lparr>table_g := fst (join (table_g w) u None)\<rparr>)"
    "leave (table_g w) u None = Inr (g, ec, n) \<Longrightarrow> seats_alive (w\<lparr>table_g := g\<rparr>)"
    "bet (table_g w) u None = Inr (g, ec, cbs) \<Longrightarrow> seats_alive (w\<lparr>table_g := g\<rparr>)"
    "seats_alive (w\<lparr>table_g := fst (surrender (table_g w) u)\<rparr>)"
    "start (table_g w) (table_rnd w) None = Inr (g, rnd, ec, cbs) \<Longrightarrow>
       seats_alive (w\<lparr>table_g := g, table_rnd := rnd\<rparr>)"
proof -
  let ?s = "seating (table_g w)"
  have a': "dom ?s \<subseteq> dom (usrs w)" using a by (simp add: seats_alive_def)
  have j: "dom (fst (plan_join ?s u)) \<subseteq> insert u (dom ?s)"
    and l: "dom (fst (plan_leave ?s u)) \<subseteq> dom ?s" and r: "dom (fst (plan_surrender ?s u)) \<subseteq> dom ?s"
    by (auto simp: plan_join_def plan_surrender_def split: option.splits seat_state.splits if_splits)
  show "u \<in> dom (usrs w) \<Longrightarrow> seats_alive (w\<lparr>table_g := fst (join (table_g w) u None)\<rparr>)"
    unfolding seats_alive_upd join_plan(1) [OF ok]
    by (rule order_trans [OF j insert_subsetI [OF _ a']])
  show "leave (table_g w) u None = Inr (g, ec, n) \<Longrightarrow> seats_alive (w\<lparr>table_g := g\<rparr>)"
    using leave_plan [OF ok, of u] order_trans [OF l a'] by auto
  show "bet (table_g w) u None = Inr (g, ec, cbs) \<Longrightarrow> seats_alive (w\<lparr>table_g := g\<rparr>)"
    using bet_plan [OF ok, of u] a' by (auto split: if_splits)
  show "seats_alive (w\<lparr>table_g := fst (surrender (table_g w) u)\<rparr>)"
    unfolding seats_alive_upd conjunct1 [OF surrender_plan [OF ok]] by (rule order_trans [OF r a'])
  show "start (table_g w) (table_rnd w) None = Inr (g, rnd, ec, cbs) \<Longrightarrow>
       seats_alive (w\<lparr>table_g := g, table_rnd := rnd\<rparr>)"
    using start_plan [OF ok] a' by simp
qed

lemma complete_returns [simp]: "fst (do_complete E r w) = Inr ()"
  by (simp add: do_complete_def send_all_eq)

text \<open>The update that follows a change of the game, and the response to the request.\<close>

abbreviation replies :: "env \<Rightarrow> (uptr \<times> json) list \<Rightarrow> (uptr \<times> message) list" where
  "replies E js \<equiv> map (\<lambda>p. (fst p, make_message (env_sr E) (snd p))) js"

abbreviation told :: "env \<Rightarrow> channel \<Rightarrow> string \<Rightarrow> json \<Rightarrow> 'a lounge_scheme \<Rightarrow> (uptr \<times> message) list" where
  "told E x action g w \<equiv>
     map (\<lambda>u. (u, make_message (env_sr E) (update_json x action g))) (filter (alive (usrs w)) (cusers x))"

lemma do_complete_eq: "do_complete E r w = (Inr (), w\<lparr>sent := sent w @ replies E (complete r)\<rparr>)"
  by (simp add: do_complete_def send_all_eq)

lemma table_try_eq:
  "m w = (Inr (), w') \<Longrightarrow> table_try E r m w = (Inr (), w')"
  "m w = (Inl (Rpc_error code msg), w') \<Longrightarrow>
     table_try E r m w = (Inr (), w'\<lparr>sent := sent w' @ replies E (complete_error r code msg)\<rparr>)"
  "m w = (Inl e, w') \<Longrightarrow> \<not> is_rpc_error e \<Longrightarrow> table_try E r m w = (Inl e, w')"
  by (cases e; simp add: table_try_def catch_rpc_def do_complete_error_def send_all_eq)+

lemma update_returns:
  assumes "table_ready c w" and "seats_alive w"
  shows "fst (table_update E c a w) = Inr ()"
proof -
  from assms(1) obtain x where "chans w c = Some x" by (auto simp: table_ready_def)
  from table_update_eq [OF assms this, of E a] show ?thesis by auto
qed

lemma game_change:
  assumes w: "table_ready c w" and x: "chans w c = Some x" and g: "game_ok g" "seats_alive (w\<lparr>table_g := g\<rparr>)"
  obtains j where "game_to_json (user_names w) g = Inr j"
    and "table_update E c a (w\<lparr>table_g := g\<rparr>) = (Inr (), w\<lparr>table_g := g, sent := sent w @ told E x a j w\<rparr>)"
proof -
  have r: "table_ready c (w\<lparr>table_g := g\<rparr>)" using w g(1) by (simp add: table_ready_def world_ok_def)
  from table_update_eq [OF r g(2), of x E a] x that show ?thesis by auto
qed

lemma update_then_complete:
  assumes "table_update E c a (w\<lparr>table_g := g\<rparr>) = (Inr (), w\<lparr>table_g := g, sent := sent w @ ms\<rparr>)"
  shows "seq_act (set_game g) (seq_act (fail_ec None) (seq_act (table_update E c a) (do_complete E r))) w =
      (Inr (), w\<lparr>table_g := g, sent := sent w @ ms @ replies E (complete r)\<rparr>)"
    and "table_callback E c b (w\<lparr>table_g := g\<rparr>) = table_update E c a (w\<lparr>table_g := g\<rparr>) \<Longrightarrow>
      seq_act (table_callbacks E c [b]) (seq_act (fail_ec None) (do_complete E r)) (w\<lparr>table_g := g\<rparr>) =
      (Inr (), w\<lparr>table_g := g, sent := sent w @ ms @ replies E (complete r)\<rparr>)"
  using assms by (simp_all add: set_game_def fail_ec_def seq_act_def bind_act_def do_complete_eq)

text \<open>The request a task answers, and the refusal that the plan of the table prescribes for it.\<close>

fun task_request :: "table_task \<Rightarrow> rpc_call option" where
  "task_request (Do_insert u) = None"
| "task_request (Do_erase u) = None"
| "task_request (Do_play r) = Some r"
| "task_request (Do_watch r) = Some r"
| "task_request (Do_bet r) = Some r"
| "task_request (Do_start r) = Some r"
| "task_request (Do_hit r) = Some r"
| "task_request (Do_stand r) = Some r"

fun task_refusal :: "plan \<Rightarrow> table_task \<Rightarrow> bj_error option" where
  "task_refusal m (Do_play r) = snd (plan_join m (ru r))"
| "task_refusal m (Do_watch r) = snd (plan_leave m (ru r))"
| "task_refusal m (Do_bet r) = plan_bet m (ru r)"
| "task_refusal m _ = None"

text \<open>What leaves a task: nothing, but for a full hand and for a bet out of the range of an \<^verbatim>\<open>int\<close>.\<close>

fun task_outcome :: "game \<Rightarrow> table_task \<Rightarrow> unit outcome" where
  "task_outcome g (Do_start r) = (if length (cards_at g (turn g)) = 22 then Inl Length_error else Inr ())"
| "task_outcome g (Do_bet r) = (if bet_overflows g (ru r) then Inl Undefined else Inr ())"
| "task_outcome g _ = Inr ()"

lemma refused_same:
  assumes ok: "game_ok g"
  shows "fst (snd (join g u None)) = Some e \<Longrightarrow> fst (join g u None) = g"
    "leave g u None = Inr (g', Some e, n) \<Longrightarrow> g' = g"
    "bet g u None = Inr (g', Some e, cbs) \<Longrightarrow> g' = g \<and> cbs = []"
  by (auto simp: join_def leave_def bet_def Let_def split: if_splits option.splits seat_state.splits)

lemma fail_ec_Some: "fail_ec (Some e) w = (Inl (Rpc_error (- 32602) (bj_message (bj_error_value e))), w)"
  by (simp add: fail_ec_def)

text \<open>A refused request changes nothing and is answered with the error.\<close>

lemma refused_effect:
  assumes w: "table_ready c w" and q: "task_request t = Some r" and e: "task_refusal (seating (table_g w)) t = Some e"
  shows "run_table_task E c t w = (Inr (), w\<lparr>sent := sent w @ replies E (complete_error r (- 32602) (bj_message (bj_error_value e)))\<rparr>)"
proof -
  from w have ok: "game_ok (table_g w)" by (simp add: table_ready_def)
  show ?thesis
  proof (cases t)
    case (Do_play r')
    with q e have j: "r' = r" "fst (snd (join (table_g w) (ru r) None)) = Some e"
      by (simp_all add: join_plan(2) [OF ok])
    with refused_same(1) [OF ok j(2)] Do_play show ?thesis
      by (simp add: table_do_play_def) (intro table_try_eq(2), simp add: case_prod_beta set_game_def fail_ec_Some seq_act_def bind_act_def)
  next
    case (Do_watch r')
    with q e leave_plan [OF ok, of "ru r"] obtain g' n where l: "r' = r" "leave (table_g w) (ru r) None = Inr (g', Some e, n)"
      by auto
    with refused_same(2) [OF ok l(2)] Do_watch show ?thesis
      by (simp add: table_do_watch_def) (intro table_try_eq(2), simp add: set_game_def fail_ec_Some seq_act_def bind_act_def)
  next
    case (Do_bet r')
    have "\<not> bet_overflows (table_g w) (ru r)"
      using q e Do_bet seating_occ [OF ok] by (auto simp: bet_overflows_def plan_bet_def)
    with q e Do_bet bet_plan [OF ok, of "ru r"] obtain g' where
      b: "r' = r" "bet (table_g w) (ru r) None = Inr (g', Some e, [])" by auto
    with refused_same(3) [OF ok b(2)] Do_bet show ?thesis
      by (simp add: table_do_bet_def) (intro table_try_eq(2), simp add: set_game_def fail_ec_Some seq_act_def bind_act_def)
  qed (use e in simp_all)
qed

text \<open>The user of a request that seats its user: the request owns it.\<close>

fun task_user :: "table_task \<Rightarrow> uptr option" where
  "task_user (Do_play r) = Some (ru r)"
| "task_user _ = None"

text \<open>A request that is granted is answered with a success, after the updates.\<close>

lemma granted_effect:
  assumes w: "table_ready c w" and a: "seats_alive w" and u: "pred_option (\<lambda>u. u \<in> dom (usrs w)) (task_user t)"
    and q: "task_request t = Some r" and e: "task_refusal (seating (table_g w)) t = None" and o: "task_outcome (table_g w) t = Inr ()"
  shows "\<exists>g rnd ms. run_table_task E c t w =
    (Inr (), w\<lparr>table_g := g, table_rnd := rnd, sent := sent w @ ms @ replies E (complete r)\<rparr>)"
proof -
  from w have ok: "game_ok (table_g w)" by (simp add: table_ready_def)
  from w obtain x where x: "chans w c = Some x" by (auto simp: table_ready_def)
  note al = seats_alive_ops [OF ok a]
  have same: "w\<lparr>table_g := g, sent := m\<rparr> = w\<lparr>table_g := g, table_rnd := table_rnd w, sent := m\<rparr>" for g m by simp
  show ?thesis
  proof (cases t)
    case (Do_play r')
    obtain g ec i where j: "join (table_g w) (ru r) None = (g, ec, i)" by (metis prod_cases3)
    with q e Do_play join_plan(2) [OF ok, of "ru r" None] have ec: "r' = r" "ec = None" by simp_all
    have "game_ok g" "seats_alive (w\<lparr>table_g := g\<rparr>)" using join_ok [OF ok, of "ru r" None] al(1) [of "ru r"] u Do_play ec j by simp_all
    then obtain gj where
      gj: "table_update E c ''play'' (w\<lparr>table_g := g\<rparr>) = (Inr (), w\<lparr>table_g := g, sent := sent w @ told E x ''play'' gj w\<rparr>)"
      by (rule game_change [OF w x])
    have "run_table_task E c t w = (Inr (), w\<lparr>table_g := g, sent := sent w @ told E x ''play'' gj w @ replies E (complete r)\<rparr>)"
      using Do_play ec j by (simp add: table_do_play_def table_try_eq(1) update_then_complete(1) [OF gj])
    then show ?thesis unfolding same by blast
  next
    case (Do_watch r')
    with q e leave_plan [OF ok, of "ru r"] obtain g n where l: "r' = r" "leave (table_g w) (ru r) None = Inr (g, None, n)" "game_ok g"
      by auto
    obtain gj where
      gj: "table_update E c ''watch'' (w\<lparr>table_g := g\<rparr>) = (Inr (), w\<lparr>table_g := g, sent := sent w @ told E x ''watch'' gj w\<rparr>)"
      by (rule game_change [OF w x l(3) al(2) [OF l(2)]])
    have "run_table_task E c t w = (Inr (), w\<lparr>table_g := g, sent := sent w @ told E x ''watch'' gj w @ replies E (complete r)\<rparr>)"
      using Do_watch l by (simp add: table_do_watch_def table_try_eq(1) update_then_complete(1) [OF gj])
    then show ?thesis unfolding same by blast
  next
    case (Do_bet r')
    with q e o bet_plan [OF ok, of "ru r"] obtain g where b: "r' = r" "bet (table_g w) (ru r) None = Inr (g, None, [On_game_bet])" "game_ok g"
      by (auto split: if_splits)
    obtain gj where
      gj: "table_update E c ''bet'' (w\<lparr>table_g := g\<rparr>) = (Inr (), w\<lparr>table_g := g, sent := sent w @ told E x ''bet'' gj w\<rparr>)"
      by (rule game_change [OF w x b(3) al(3) [OF b(2)]])
    have "run_table_task E c t w = (Inr (), w\<lparr>table_g := g, sent := sent w @ told E x ''bet'' gj w @ replies E (complete r)\<rparr>)"
      using Do_bet b update_then_complete(2) [OF gj, of On_game_bet r]
      by (simp add: table_do_bet_def table_try_eq(1) set_game_def del: table_callbacks.simps)
    then show ?thesis unfolding same by blast
  next
    case (Do_start r')
    with q o start_exact [OF ok, of "table_rnd w" None] obtain g rnd where
      s: "r' = r" "start (table_g w) (table_rnd w) None = Inr (g, rnd, None, [On_game_deal_card])" "seating g = seating (table_g w)" "game_ok g"
      by (auto split: if_splits)
    let ?w = "w\<lparr>table_rnd := rnd\<rparr>"
    have "table_ready c ?w" "chans ?w c = Some x" "seats_alive (?w\<lparr>table_g := g\<rparr>)" using w x a s(3) by (simp_all add: seats_alive_def)
    then obtain gj where
      gj: "table_update E c ''deal'' (?w\<lparr>table_g := g\<rparr>) = (Inr (), ?w\<lparr>table_g := g, sent := sent ?w @ told E x ''deal'' gj ?w\<rparr>)"
      using game_change [OF _ _ s(4)] by metis
    have order: "w\<lparr>table_g := g, table_rnd := rnd\<rparr> = ?w\<lparr>table_g := g\<rparr>" by simp
    have "run_table_task E c t w = (Inr (), ?w\<lparr>table_g := g, sent := sent ?w @ told E x ''deal'' gj ?w @ replies E (complete r)\<rparr>)"
      using Do_start s update_then_complete(2) [OF gj, of On_game_deal_card r]
      by (simp add: table_do_start_def) (rule table_try_eq(1), simp add: order)
    then show ?thesis by (intro exI [of _ g] exI [of _ rnd] exI [of _ "told E x ''deal'' gj w"]) simp
  next
    case (Do_hit r')
    with q show ?thesis
      by (intro exI [of _ "table_g w"] exI [of _ "table_rnd w"] exI [of _ "[]"])
        (simp add: table_do_hit_def table_try_eq(1) [OF do_complete_eq])
  next
    case (Do_stand r')
    with q show ?thesis
      by (intro exI [of _ "table_g w"] exI [of _ "table_rnd w"] exI [of _ "[]"])
        (simp add: table_do_stand_def table_try_eq(1) [OF do_complete_eq])
  qed (use q in simp_all)
qed

lemma escaped_effect:
  assumes w: "table_ready c w" and o: "task_outcome (table_g w) t = Inl e"
  shows "run_table_task E c t w = (Inl e, w)"
proof -
  from w have ok: "game_ok (table_g w)" by (simp add: table_ready_def)
  show ?thesis
    using o start_exact [OF ok, of "table_rnd w" None] bet_plan [OF ok]
    by (cases t) (auto simp: table_do_start_def table_do_bet_def table_try_def catch_rpc_def split: if_splits)
qed

lemma member_task_returns:
  assumes w: "table_ready c w" and a: "seats_alive w" and q: "task_request t = None"
  shows "fst (run_table_task E c t w) = Inr ()"
proof -
  from w have ok: "game_ok (table_g w)" by (simp add: table_ready_def)
  show ?thesis
  proof (cases t)
    case (Do_insert v)
    from w obtain x where x: "chans w c = Some x" by (auto simp: table_ready_def)
    with table_update_eq [OF w a x, of E "''init''"] show ?thesis
      by (auto simp: Do_insert table_do_insert_def game_json_def bind_act_def user_send_json_def user_send_def)
  next
    case (Do_erase v)
    have "table_ready c (w\<lparr>table_g := fst (surrender (table_g w) v)\<rparr>)" using w by (rule table_ok.P_surrender)
    from update_returns [OF this seats_alive_ops(4) [OF ok a]] show ?thesis
      by (simp add: Do_erase table_do_erase_def set_game_def Let_def case_prod_beta)
  qed (use q in simp_all)
qed

section \<open>Properties\<close>

text \<open>A table with one member of its channel, \<open>1\<close>, and a connected user \<open>2\<close> that is not in it.\<close>

definition sample_lounge :: lounge where
  "sample_lounge =
     \<lparr>usrs = [1 \<mapsto> \<lparr>uname = ''ann'', uchans = [60], ualive = True\<rparr>,
              2 \<mapsto> \<lparr>uname = ''bob'', uchans = [], ualive = True\<rparr>],
      chans = [60 \<mapsto> \<lparr>chan_uid = 1003, cid = 3, cname = ''Blackjack'', cusers = [1], ckind = Table\<rparr>],
      cvec = [None, None, None, Some 60], next_uid = 1003, next_cid = 1000, sent = [],
      srv = new_srv_state, table_g = sample_game, table_q = [], table_rnd = (\<lambda>_. 0)\<rparr>"

lemma seating_sample_game: "seating sample_game = Map.empty"
proof
  fix u
  have "\<not> occ sample_game i u" for i
    by (auto simp: occ_def sample_game_def nth_fresh_seats split: if_splits)
  then show "seating sample_game u = None"
    by (simp add: seating_None [OF sample_game_ok] find_0_iff [OF sample_game_ok])
qed

lemma sample_lounge_ok: "table_ready 60 sample_lounge" "seats_alive sample_lounge"
  by (auto simp: table_ready_def seats_alive_def world_ok_def members_ok_def flat_set_def sample_lounge_def
      sample_game_ok seating_sample_game split: if_splits)



lemma play_effect:
  assumes "table_ready c w" and "chans w c = Some x" and "ru r \<in> dom (usrs w)"
  shows "let (res, w') = run_table_task E c (Do_play r) w in
    seating (table_g w') = fst (plan_join (seating (table_g w)) (ru r)) \<and>
    (case snd (plan_join (seating (table_g w)) (ru r)) of
       Some e \<Rightarrow> res = Inr () \<and> table_g w' = table_g w \<and>
         sent w' = sent w @ replies E (complete_error r (- 32602) (bj_message (bj_error_value e)))
     | None \<Rightarrow>
         if seats_alive w
         then res = Inr () \<and> (\<exists>g. game_to_json (user_names w) (table_g w') = Inr g \<and>
           sent w' = sent w @ told E x ''play'' g w @ replies E (complete r))
         else res = Inl Undefined \<and> sent w' = sent w)"
proof (cases "snd (plan_join (seating (table_g w)) (ru r))")
  case (Some e)
  then have "fst (plan_join (seating (table_g w)) (ru r)) = seating (table_g w)"
    by (auto simp: plan_join_def split: if_splits)
  with refused_effect [OF assms(1), of "Do_play r" r e E] Some show ?thesis by simp
next
  case None
  from assms(1) have ok: "game_ok (table_g w)" by (simp add: table_ready_def)
  obtain g ec i where j: "join (table_g w) (ru r) None = (g, ec, i)" by (metis prod_cases3)
  from join_plan [OF ok, of "ru r" None] j None
  have g: "seating g = fst (plan_join (seating (table_g w)) (ru r))" "ec = None" by simp_all
  have gok: "game_ok g" using join_ok [OF ok, of "ru r" None] j by simp
  have d: "dom (seating g) = insert (ru r) (dom (seating (table_g w)))"
    using None g(1) by (auto simp: plan_join_def split: if_splits)
  show ?thesis
  proof (cases "seats_alive w")
    case True
    have "seats_alive (w\<lparr>table_g := g\<rparr>)" using True d assms(3) by (simp add: seats_alive_def)
    then obtain gj where gj: "game_to_json (user_names w) g = Inr gj"
      "table_update E c ''play'' (w\<lparr>table_g := g\<rparr>) = (Inr (), w\<lparr>table_g := g, sent := sent w @ told E x ''play'' gj w\<rparr>)"
      by (rule game_change [OF assms(1,2) gok])
    have "run_table_task E c (Do_play r) w =
        (Inr (), w\<lparr>table_g := g, sent := sent w @ told E x ''play'' gj w @ replies E (complete r)\<rparr>)"
      using j g(2) by (simp add: table_do_play_def table_try_eq(1) update_then_complete(1) [OF gj(2)])
    with gj(1) True None g(1) show ?thesis by simp
  next
    case False
    have "\<not> seats_alive (w\<lparr>table_g := g\<rparr>)" using False d by (auto simp: seats_alive_def)
    moreover have "table_ready c (w\<lparr>table_g := g\<rparr>)" using assms(1) gok by (simp add: table_ready_def world_ok_def)
    ultimately have "table_update E c ''play'' (w\<lparr>table_g := g\<rparr>) = (Inl Undefined, w\<lparr>table_g := g\<rparr>)"
      by (intro table_update_dangling)
    then have "run_table_task E c (Do_play r) w = (Inl Undefined, w\<lparr>table_g := g\<rparr>)"
      using j g(2) by (simp add: table_do_play_def table_try_def catch_rpc_def set_game_def fail_ec_def seq_act_def bind_act_def)
    with False None g(1) show ?thesis by simp
  qed
qed

text \<open>
  C28: \<^verbatim>\<open>play\<close> of a connected user on a well-formed table, on every branch. When the plan of the table has
  room for the user, it is seated; then, if every user seated before is still connected, every connected
  member of the channel gets an update with the new game and the player its response, and if some
  seated user is gone, the update reads the freed object and nothing is sent. When the plan refuses, the
  game is as before and the player gets the error alone. Whether the user is a member of the channel, or
  has a name, does not matter.
\<close>

theorem play_seats_and_tells:
  assumes "table_ready c w" and "chans w c = Some x" and "ru r \<in> dom (usrs w)"
  shows "let (res, w') = run_table_task E c (Do_play r) w in
    seating (table_g w') = fst (plan_join (seating (table_g w)) (ru r)) \<and>
    (case snd (plan_join (seating (table_g w)) (ru r)) of
       Some e \<Rightarrow> res = Inr () \<and> table_g w' = table_g w \<and>
         sent w' = sent w @ map (\<lambda>p. (fst p, make_message (env_sr E) (snd p)))
           (complete_error r (- 32602) (bj_message (bj_error_value e)))
     | None \<Rightarrow>
         if seats_alive w
         then res = Inr () \<and> (\<exists>g. game_to_json (user_names w) (table_g w') = Inr g \<and>
           sent w' = sent w @
             map (\<lambda>u. (u, make_message (env_sr E) (update_json x ''play'' g))) (filter (alive (usrs w)) (cusers x)) @
             map (\<lambda>p. (fst p, make_message (env_sr E) (snd p))) (complete r))
         else res = Inl Undefined \<and> sent w' = sent w)"
  by (rule play_effect [OF assms])

theorem play_seats_and_tells_witness:
  "seating (table_g (snd (run_table_task sample_env 60 (Do_play (make_rpc_call 2)) sample_lounge))) = [2 \<mapsto> Playing]"
proof -
  have "chans sample_lounge 60 = Some \<lparr>chan_uid = 1003, cid = 3, cname = ''Blackjack'', cusers = [1], ckind = Table\<rparr>"
    "ru (make_rpc_call 2) \<in> dom (usrs sample_lounge)" "seating (table_g sample_lounge) = Map.empty"
    by (simp_all add: sample_lounge_def make_rpc_call_def seating_sample_game)
  with play_seats_and_tells [OF sample_lounge_ok(1), of _ "make_rpc_call 2" sample_env] show ?thesis
    by (simp add: Let_def case_prod_beta plan_join_def make_rpc_call_def)
qed

text \<open>
  C37: a player that never joined the channel leaves its seat behind. Such a user can take a seat;
  when its connection ends, its destructor has no channel to leave, so the table is not told, the
  seat keeps the address of the destroyed object, and every later update of the table reads it.
\<close>

theorem departed_player_dangles:
  assumes "table_ready c w" and "seats_alive w" and "usrs w (ru r) = Some y" and "uchans y = []"
    and "seating (table_g w) (ru r) = None" and "card (dom (seating (table_g w))) < 5"
  shows "\<exists>w'. user_destroy table_on_erase E (ru r) (snd (run_table_task E c (Do_play r) w)) = Some (Inr (), w') \<and>
    table_ready c w' \<and> table_update E c action w' = (Inl Undefined, w')"
proof -
  let ?w = "snd (run_table_task E c (Do_play r) w)"
  from assms(1) obtain x where x: "chans w c = Some x" by (auto simp: table_ready_def)
  from assms(3) have u: "ru r \<in> dom (usrs w)" by auto
  have s: "seating (table_g ?w) (ru r) = Some Playing"
    using play_effect [OF assms(1) x u, of E] assms(5,6) by (simp add: Let_def case_prod_beta plan_join_def)
  have f: "table_frame (\<lambda>v. usrs v = usrs w)" by unfold_locales simp_all
  then have us: "usrs ?w = usrs w" using keepsD [OF table_frame.keeps_task [OF f]] by blast
  have t: "table_ready c ?w" using keepsD [OF table_ok.keeps_task assms(1)] .
  then have "world_ok ?w" by (simp add: table_ready_def)
  from table_erase.destroy_ends [OF this, of "ru r" y E] us assms(3) obtain w' where
    w': "user_destroy table_on_erase E (ru r) ?w = Some (Inr (), w')" "world_ok w'"
      "usrs w' = (usrs ?w)(ru r := None)" "dom (chans w') = dom (chans ?w)" by auto
  moreover have "table_g w' = table_g ?w"
    using w'(1) us assms(3,4) by (auto simp: user_destroy_def user_dtor_loop.simps)
  ultimately have "table_ready c w'" "\<not> seats_alive w'"
    using t s by (auto simp: table_ready_def seats_alive_def)
  with w' table_update_dangling show ?thesis by blast
qed

theorem departed_player_dangles_witness:
  "\<exists>w'. user_destroy table_on_erase sample_env 2
      (snd (run_table_task sample_env 60 (Do_play (make_rpc_call 2)) sample_lounge)) = Some (Inr (), w') \<and>
    table_ready 60 w' \<and> table_update sample_env 60 ''deal'' w' = (Inl Undefined, w')"
  using departed_player_dangles [OF sample_lounge_ok, of "make_rpc_call 2"
      "\<lparr>uname = ''bob'', uchans = [], ualive = True\<rparr>" sample_env "''deal''"]
  by (simp add: sample_lounge_def make_rpc_call_def seating_sample_game)

end
