(* ===== verification/Lounge.thy ===== *)
theory Lounge
  imports Table
begin

text \<open>
  The lounge as a whole: the virtual functions of the three channels put together, the request a
  connection hands to the channel list (\<^verbatim>\<open>ws_user.cpp\<close>, the body of the read loop), the start of
  the server with its channels (\<^verbatim>\<open>server.cpp\<close>), and the steps the running server makes: users that
  connect and disconnect, requests, the tasks of the two strands and the shutdown timer.
\<close>

section \<open>The code\<close>

definition virt_on_insert :: "'a lounge_scheme hook" where
  "virt_on_insert c u w =
     (case chans w c of
        None \<Rightarrow> (Inl Undefined, w)
      | Some x \<Rightarrow>
          (case ckind x of
             Room_impl \<Rightarrow> room_on_insert c u w
           | System_channel \<Rightarrow> system_on_insert c u w
           | Table \<Rightarrow> table_on_insert c u w))"

definition virt_on_erase :: "'a lounge_scheme hook" where
  "virt_on_erase c u w =
     (case chans w c of
        None \<Rightarrow> (Inl Undefined, w)
      | Some x \<Rightarrow>
          (case ckind x of
             Room_impl \<Rightarrow> room_on_erase c u w
           | System_channel \<Rightarrow> system_on_erase c u w
           | Table \<Rightarrow> table_on_erase c u w))"

definition virt_on_dispatch :: "env \<Rightarrow> cptr \<Rightarrow> rpc_call \<Rightarrow> ('a lounge_scheme, unit) act" where
  "virt_on_dispatch E c r w =
     (case chans w c of
        None \<Rightarrow> (Inl Undefined, w)
      | Some x \<Rightarrow>
          (case ckind x of
             Room_impl \<Rightarrow> room_on_dispatch E c r w
           | System_channel \<Rightarrow> system_on_dispatch E c r w
           | Table \<Rightarrow> table_on_dispatch c r w))"

definition lounge_dispatch :: "env \<Rightarrow> rpc_call \<Rightarrow> ('a lounge_scheme, unit) act" where
  "lounge_dispatch E r =
     cl_dispatch (chan_dispatch virt_on_insert virt_on_erase (virt_on_dispatch E) E) E r"

text \<open>
  A JSON value that a connection has read: the call is extracted, an error of the extraction is
  thrown as an invalid request, and every \<^verbatim>\<open>rpc_error\<close> is answered.
\<close>

definition handle_json :: "env \<Rightarrow> uptr \<Rightarrow> json \<Rightarrow> ('a lounge_scheme, unit) act" where
  "handle_json E u jv =
     (let (r, ec) = extract_call (make_rpc_call u) jv in
      catch_rpc
        (case ec of
           Some e \<Rightarrow> throw (rpc_error_code_msg Invalid_request (snd (make_error_code e)))
         | None \<Rightarrow> lounge_dispatch E r)
        (do_complete_error E r))"

text \<open>
  The start: the constructor of the channel list makes the room \<^verbatim>\<open>General\<close>, the constructor of the
  server makes the system channel, the blackjack service is inserted and \<^verbatim>\<open>run\<close> starts it. The
  arguments are the addresses of the three channels, what the storage of the game held before it
  was constructed, and the random numbers.
\<close>

definition boot_world :: "game \<Rightarrow> rng \<Rightarrow> lounge" where
  "boot_world g0 rnd =
     \<lparr>usrs = usrs cl_init, chans = chans cl_init, cvec = cvec cl_init, next_uid = next_uid cl_init,
      next_cid = next_cid cl_init, sent = sent cl_init, srv = new_srv_state, table_g = g0,
      table_q = [], table_rnd = rnd\<rparr>"

definition start_service :: "cptr \<Rightarrow> (nat \<Rightarrow> int) \<Rightarrow> service \<Rightarrow> (lounge, unit) act" where
  "start_service ct mem s =
     (case s of Blackjack_service \<Rightarrow> blackjack_on_start ct mem | Listener_service _ \<Rightarrow> ret ())"

definition server_boot :: "cptr \<Rightarrow> cptr \<Rightarrow> cptr \<Rightarrow> (nat \<Rightarrow> int) \<Rightarrow> (lounge, unit) act" where
  "server_boot cr cs ct mem =
     seq_act (make_room cr ''General'')
       (seq_act (make_system_channel cs)
         (seq_act make_blackjack_service (server_run_begin (start_service ct mem))))"

section \<open>The contract of the virtual functions\<close>

interpretation lounge_insert: channel_hook virt_on_insert
proof
  fix c u and w :: "'a lounge_scheme"
  assume "c \<in> dom (chans w)"
  then obtain x where x: "chans w c = Some x" by auto
  then show "\<exists>w'. virt_on_insert c u w = (Inr (), w') \<and> core w' = core w"
    by (cases "ckind x") (simp_all add: virt_on_insert_def room_on_insert_def system_on_insert_def
        table_on_insert_def table_post_def)
qed

interpretation lounge_erase: channel_hook virt_on_erase
proof
  fix c u and w :: "'a lounge_scheme"
  assume "c \<in> dom (chans w)"
  then obtain x where x: "chans w c = Some x" by auto
  then show "\<exists>w'. virt_on_erase c u w = (Inr (), w') \<and> core w' = core w"
    by (cases "ckind x") (simp_all add: virt_on_erase_def room_on_erase_def system_on_erase_def
        table_on_erase_def table_post_def)
qed

section \<open>The invariant of the lounge\<close>

text \<open>What never changes of the channels once they exist: everything but the members.\<close>

type_synonym statics = "cptr option list \<times> (cptr \<Rightarrow> (64 word \<times> nat \<times> string \<times> chan_kind) option)"

definition static :: "'a world_scheme \<Rightarrow> statics" where
  "static w = (cvec w, \<lambda>c. map_option (\<lambda>x. (chan_uid x, cid x, cname x, ckind x)) (chans w c))"

text \<open>The strong references a posted task holds. \<^verbatim>\<open>do_erase\<close> holds a plain reference only.\<close>

fun task_refs :: "table_task \<Rightarrow> uptr set" where
  "task_refs (Do_insert u) = {u}"
| "task_refs (Do_erase u) = {}"
| "task_refs (Do_play r) = {ru r}"
| "task_refs (Do_watch r) = {ru r}"
| "task_refs (Do_bet r) = {ru r}"
| "task_refs (Do_start r) = {ru r}"
| "task_refs (Do_hit r) = {ru r}"
| "task_refs (Do_stand r) = {ru r}"

definition frame_ok :: "statics \<Rightarrow> 'a lounge_scheme \<Rightarrow> bool" where
  "frame_ok s w \<longleftrightarrow>
     static w = s \<and> game_ok (table_g w) \<and>
     (\<forall>t \<in> set (table_q w). task_refs t \<subseteq> dom (usrs w)) \<and>
     (\<forall>u y. usrs w u = Some y \<longrightarrow> length (uname y) \<le> 20)"

definition user_frame :: "statics \<Rightarrow> uptr \<Rightarrow> 'a lounge_scheme \<Rightarrow> bool" where
  "user_frame s u w \<longleftrightarrow> frame_ok s w \<and> u \<in> dom (usrs w)"

definition lounge_ok :: "statics \<Rightarrow> 'a lounge_scheme \<Rightarrow> bool" where
  "lounge_ok s w \<longleftrightarrow> world_ok w \<and> frame_ok s w"

text \<open>The three channels of the server, at the ids the sources reserve for them.\<close>

definition three_channels :: "cptr \<Rightarrow> cptr \<Rightarrow> cptr \<Rightarrow> statics \<Rightarrow> bool" where
  "three_channels cs cr ct s \<longleftrightarrow>
     fst s = [None, Some cs, Some cr, Some ct] \<and>
     snd s cs = Some (1002, 1, ''System'', System_channel) \<and>
     snd s cr = Some (1001, 2, ''General'', Room_impl) \<and>
     snd s ct = Some (1003, 3, ''Blackjack'', Table)"

lemma static_chan:
  "chans w c = Some x \<Longrightarrow> static (w\<lparr>chans := (chans w)(c \<mapsto> x\<lparr>cusers := us\<rparr>)\<rparr>) = static w"
  by (auto simp: static_def fun_eq_iff)

lemma static_upd [simp]:
  "static (w\<lparr>usrs := us\<rparr>) = static w" "static (w\<lparr>sent := m\<rparr>) = static w"
  by (simp_all add: static_def)

lemma static_upd_ext [simp]:
  "static (w\<lparr>srv := s\<rparr>) = static w" "static (v\<lparr>table_q := q\<rparr>) = static v"
  "static (v\<lparr>table_g := g\<rparr>) = static v" "static (v\<lparr>table_rnd := n\<rparr>) = static v"
  by (simp_all add: static_def)

lemma frame_ok_upd [simp]:
  "frame_ok s (w\<lparr>sent := m\<rparr>) = frame_ok s w" "frame_ok s (w\<lparr>srv := x\<rparr>) = frame_ok s w"
  "frame_ok s (w\<lparr>table_rnd := n\<rparr>) = frame_ok s w"
  by (simp_all add: frame_ok_def)

lemma user_frame_upd [simp]:
  "user_frame s u (w\<lparr>sent := m\<rparr>) = user_frame s u w" "user_frame s u (w\<lparr>srv := x\<rparr>) = user_frame s u w"
  by (simp_all add: user_frame_def)

lemma user_frame_user:
  assumes "user_frame s u w" and "usrs w v = Some y" and "length (uname y') \<le> 20"
  shows "user_frame s u (w\<lparr>usrs := (usrs w)(v \<mapsto> y')\<rparr>)"
  using assms by (auto simp: user_frame_def frame_ok_def dom_def)

lemma user_frame_post:
  assumes "user_frame s u w" and "task_refs t \<subseteq> {u}"
  shows "user_frame s u (w\<lparr>table_q := table_q w @ [t]\<rparr>)"
  using assms by (auto simp: user_frame_def frame_ok_def)

lemma user_frame_laws:
  "user_frame s u w \<Longrightarrow> chans w c = Some x \<Longrightarrow> user_frame s u (w\<lparr>chans := (chans w)(c \<mapsto> x\<lparr>cusers := us\<rparr>)\<rparr>)"
  "user_frame s u w \<Longrightarrow> usrs w v = Some y \<Longrightarrow> user_frame s u (w\<lparr>usrs := (usrs w)(v \<mapsto> y\<lparr>uchans := cs\<rparr>)\<rparr>)"
  by (simp add: user_frame_def frame_ok_def static_chan)
    (rule user_frame_user, auto simp: user_frame_def frame_ok_def)

text \<open>
  What a request of a user keeps: any property that does not look at the messages sent nor at the
  server, and that survives a change of the memberships, a new name and a task posted to the table
  for that user. The contract of such a property is a locale; the memberships of the user have the
  contract of their own.
\<close>

locale request_frame =
  fixes P :: "'a lounge_scheme \<Rightarrow> bool" and u :: uptr
  assumes P_sent: "sent_closed P"
    and P_srv: "P (w\<lparr>srv := x\<rparr>) = P w"
    and P_post: "P w \<Longrightarrow> task_refs t \<subseteq> {u} \<Longrightarrow> P (w\<lparr>table_q := table_q w @ [t]\<rparr>)"
    and P_chan: "P w \<Longrightarrow> chans w c = Some x' \<Longrightarrow> P (w\<lparr>chans := (chans w)(c \<mapsto> x'\<lparr>cusers := us\<rparr>)\<rparr>)"
    and P_user: "P w \<Longrightarrow> usrs w v = Some y \<Longrightarrow> P (w\<lparr>usrs := (usrs w)(v \<mapsto> y\<lparr>uchans := cs\<rparr>)\<rparr>)"
    and P_name: "P w \<Longrightarrow> usrs w v = Some y \<Longrightarrow> length nm \<le> 20 \<Longrightarrow> P (w\<lparr>usrs := (usrs w)(v \<mapsto> y\<lparr>uname := nm\<rparr>)\<rparr>)"
begin

lemma hooks: "keeps P (virt_on_insert c u)" "keeps P (virt_on_erase c u)" "keeps P (system_on_insert c u)"
  by (auto simp: keeps_def virt_on_insert_def virt_on_erase_def room_on_insert_def room_on_erase_def
      system_on_insert_def system_on_erase_def table_on_insert_def table_on_erase_def table_post_def
      P_post split: option.splits chan_kind.splits)

end

sublocale request_frame \<subseteq> ins: membership_frame P virt_on_insert u
  by unfold_locales (simp_all add: P_sent P_chan P_user hooks)

sublocale request_frame \<subseteq> era: membership_frame P virt_on_erase u
  by unfold_locales (simp_all add: P_sent P_chan P_user hooks)

sublocale request_frame \<subseteq> sys: membership_frame P system_on_insert u
  by unfold_locales (simp_all add: P_sent P_chan P_user hooks)

context request_frame
begin

lemma identify:
  assumes "ru r = u"
  shows "keeps P (do_identify E c r)"
proof -
  have k: "keeps P (seq_act (chan_insert system_on_insert E c (ru r)) (do_complete E r) :: ('a lounge_scheme, unit) act)"
    unfolding assms by (intro keeps_intros sys.Q_insert ins.Q_sends)
  show ?thesis
    by (auto simp: keeps_def do_identify_def bind_act_def get_user_def set_user_def
        intro!: keepsD [OF k] P_name split: sum.splits option.splits)
qed

lemma dispatch:
  assumes "ru r = u"
  shows "keeps P (virt_on_dispatch E c r)"
proof -
  have "keeps P (room_on_dispatch E c r)"
    unfolding room_on_dispatch_def do_say_def checked_user_def by (intro keeps_intros ins.Q_sends)
  moreover have "keeps P (system_on_dispatch E c r)"
  proof -
    have "keeps P (server_shutdown E False 30 0 0 0)" "keeps P (server_stop False)"
      by (simp_all add: keeps_def server_shutdown_def server_stop_def post_srv_def upd_srv_def P_srv)
    then show ?thesis
      unfolding system_on_dispatch_def do_shutdown_def do_stop_def
      by (intro keeps_intros ins.Q_sends identify [OF assms])
  qed
  moreover have "keeps P (table_on_dispatch c r)"
    using assms by (simp add: keeps_def table_on_dispatch_def table_post_def P_post)
  ultimately show ?thesis
    by (auto simp: keeps_def virt_on_dispatch_def split: option.splits chan_kind.splits)
qed

lemma chan_dispatch:
  "ru r = u \<Longrightarrow> keeps P (chan_dispatch virt_on_insert virt_on_erase (virt_on_dispatch E) E c r)"
  unfolding chan_dispatch_def
  by (intro keeps_intros ins.Q_join_leave(1) era.Q_join_leave(2) dispatch)

end

interpretation user_req: request_frame "user_frame s u" u
  by unfold_locales
    (simp_all add: user_frame_laws user_frame_post,
      rule user_frame_user, auto simp: user_frame_def frame_ok_def)

lemma ready_dispatch: "keeps (ready (ru r)) (virt_on_dispatch E c r)"
  using keeps_room_dispatch [of "ru r" E c r] keeps_system_dispatch [of r E c] keeps_table_dispatch [of "ru r" c r]
  by (auto simp: keeps_def virt_on_dispatch_def split: option.splits chan_kind.splits)

lemma ready_chan_dispatch:
  "keeps (ready (ru r)) (chan_dispatch virt_on_insert virt_on_erase (virt_on_dispatch E) E c r)"
  unfolding chan_dispatch_def
  by (intro keeps_intros lounge_insert.keeps_do_join lounge_erase.keeps_do_leave ready_dispatch)

section \<open>Requests\<close>

lemma cl_dispatch_keeps:
  assumes "\<And>c. keeps P (disp c r)"
  shows "keeps P (cl_dispatch disp E r)"
proof -
  have k: "keeps P (\<lambda>w. case cl_at i w of None \<Rightarrow> (Inl (rpc_error_code_msg Invalid_params ''Unknown cid''), w)
      | Some c \<Rightarrow> disp c r w)" for i
    using assms by (auto simp: keeps_def split: option.splits)
  show ?thesis unfolding cl_dispatch_def by (intro keeps_intros k)
qed

lemma handle_json_keeps:
  assumes d: "\<And>c r. ru r = u \<Longrightarrow>
      keeps P (chan_dispatch virt_on_insert virt_on_erase (virt_on_dispatch E) E c r)"
    and s: "sent_closed P"
  shows "keeps P (handle_json E u jv)"
proof -
  let ?r = "fst (extract_call (make_rpc_call u) jv)"
  have "ru ?r = u" using extract_call_keeps [of "make_rpc_call u" jv] by (simp add: make_rpc_call_def)
  then have "keeps P (lounge_dispatch E ?r)"
    unfolding lounge_dispatch_def by (intro cl_dispatch_keeps d)
  then show ?thesis
    unfolding handle_json_def Let_def case_prod_beta
    by (intro keeps_intros keeps_sending s) (auto intro: keeps_intros split: option.splits)
qed

context request_frame
begin

lemma request: "keeps P (handle_json E u jv)"
  by (rule handle_json_keeps, rule chan_dispatch) (simp_all add: P_sent)

end

lemma handle_json_ok:
  assumes "lounge_ok s w" and "u \<in> dom (usrs w)"
  shows "lounge_ok s (snd (handle_json E u jv w))" "u \<in> dom (usrs (snd (handle_json E u jv w)))"
proof -
  have "keeps (user_frame s u) (handle_json E u jv :: ('a lounge_scheme, unit) act)" by (rule user_req.request)
  moreover have "keeps (ready u) (handle_json E u jv :: ('a lounge_scheme, unit) act)"
    by (rule handle_json_keeps, drule sym, simp_all add: ready_chan_dispatch)
  ultimately show "lounge_ok s (snd (handle_json E u jv w))" "u \<in> dom (usrs (snd (handle_json E u jv w)))"
    using assms by (auto simp: keeps_def lounge_ok_def user_frame_def ready_def)
qed

text \<open>
  What a channel makes of a request in a good state: it throws an \<^verbatim>\<open>rpc_error\<close> and has changed
  nothing, or it returns and the last it sent is the response to the request, or the request waits
  for the table's strand as the task of its method.
\<close>

definition table_requests :: "rpc_call \<Rightarrow> (string \<times> table_task) list" where
  "table_requests r = [(''play'', Do_play r), (''watch'', Do_watch r), (''bet'', Do_bet r),
     (''start'', Do_start r), (''hit'', Do_hit r), (''stand'', Do_stand r)]"

definition served :: "env \<Rightarrow> rpc_call \<Rightarrow> 'a lounge_scheme \<Rightarrow> unit outcome \<times> 'a lounge_scheme \<Rightarrow> bool" where
  "served E r w res \<longleftrightarrow>
     (\<exists>code msg. res = (Inl (Rpc_error code msg), w)) \<or>
     (\<exists>w' ms. res = (Inr (), w') \<and> sent w' = sent w @ ms @ replies E (complete r)) \<or>
     (\<exists>t. res = (Inr (), w\<lparr>table_q := table_q w @ [t]\<rparr>) \<and> map_of (table_requests r) (method r) = Some t)"

lemma served_refusal: "is_rpc_error e \<Longrightarrow> served E r w (Inl e, w)"
  by (cases e) (simp_all add: served_def)

lemma served_refusals [simp]: "served E r w (Inl (Rpc_error code msg), w)" "served E r w (Inl (rpc_error_of_code code'), w)"
  by (simp_all add: served_def rpc_error_of_code_def)

lemma served_complete: "sent w' = sent w @ ms \<Longrightarrow> served E r w (do_complete E r w')"
  by (auto simp: served_def do_complete_eq)

lemma checked_string_key_Inl: "checked_string_key j k = Inl e \<Longrightarrow> is_rpc_error e"
  using with_key_Inl [of checked_string j k e] checked_kind_Inl(3) by (auto simp: checked_string_key_def)

lemma room_dispatch_served:
  assumes "world_ok w" and "chans w c = Some x" and "usrs w (ru r) = Some y"
  shows "served E r w (room_on_dispatch E c r w)"
proof -
  have "served E r w (do_say E c r w)"
    unfolding do_say_def is_joined_def seq_act_def
    using assms(2,3)
    by (auto simp: bind_act_def checked_user_eq [OF assms(3)] chan_send_eq [OF assms(1,2)]
        intro: served_complete served_refusal checked_string_key_Inl split: sum.splits)
  then show ?thesis by (simp add: room_on_dispatch_def)
qed

lemma identify_served:
  assumes w: "world_ok w" and x: "chans w c = Some x" and y: "usrs w (ru r) = Some y"
  shows "served E r w (do_identify E c r w)"
proof (cases "checked_string_key (params r) ''name''")
  case (Inl e)
  then show ?thesis by (auto simp: do_identify_def intro: served_refusal checked_string_key_Inl)
next
  case (Inr nm)
  let ?w = "w\<lparr>usrs := (usrs w)(ru r \<mapsto> y\<lparr>uname := nm\<rparr>)\<rparr>"
  have ok: "world_ok ?w" using w y members_ok_user_upd [of "usrs w" "chans w" "ru r" y] by (simp add: world_ok_def)
  have "\<exists>b w1 ms. chan_insert system_on_insert E c (ru r) ?w = (Inr b, w1) \<and> sent w1 = sent w @ ms"
  proof (cases "ru r \<in> set (cusers x)")
    case True
    with system_insert.insert_present [of ?w c x "ru r" E] x show ?thesis by auto
  next
    case False
    with system_insert.insert_fresh [OF ok, of c x "ru r" "y\<lparr>uname := nm\<rparr>" E] x obtain w1 where
      "chan_insert system_on_insert E c (ru r) ?w = (Inr True, w1)"
      "core w1 = core (after_insert E c x (ru r) (y\<lparr>uname := nm\<rparr>) ?w)" by auto
    with core_eqD(6) [OF this(2)] show ?thesis by (auto simp: after_insert_def)
  qed
  then show ?thesis
    using y Inr by (auto simp: do_identify_def set_user_def seq_act_def bind_act_def intro: served_complete)
qed

lemma system_dispatch_served:
  assumes "world_ok w" and "chans w c = Some x" and "usrs w (ru r) = Some y"
  shows "served E r w (system_on_dispatch E c r w)"
  using identify_served [OF assms, of E]
  by (simp add: system_on_dispatch_def do_shutdown_def do_stop_def server_shutdown_def server_stop_def
      post_srv_def upd_srv_def seq_act_def bind_act_def served_complete [where ms = "[]"])

lemma table_dispatch_served: "served E r w (table_on_dispatch c r w)"
  by (simp add: table_on_dispatch_def table_post_def) (auto simp: served_def table_requests_def rpc_error_of_code_def)

lemma join_leave_served:
  assumes w: "world_ok w" and x: "chans w c = Some x" and y: "usrs w (ru r) = Some y"
  shows "served E r w (do_join virt_on_insert E c r w)" "served E r w (do_leave virt_on_erase E c r w)"
proof -
  show "served E r w (do_join virt_on_insert E c r w)"
    using lounge_insert.insert_present [OF x, of "ru r" E] lounge_insert.insert_fresh [OF w x y, of E]
    by (cases "ru r \<in> set (cusers x)")
      (auto simp: do_join_def seq_act_def bind_act_def checked_user_eq [OF y] after_insert_def
        dest!: core_eqD(6) intro: served_complete)
  show "served E r w (do_leave virt_on_erase E c r w)"
    using lounge_erase.erase_absent [OF x, of "ru r" E] lounge_erase.erase_present [OF w x y, of E]
    by (cases "ru r \<in> set (cusers x)")
      (auto simp: do_leave_def bind_act_def after_erase_def dest!: core_eqD(6) intro: served_complete)
qed

lemma chan_dispatch_served:
  assumes w: "world_ok w" and x: "chans w c = Some x" and y: "usrs w (ru r) = Some y"
  shows "served E r w (chan_dispatch virt_on_insert virt_on_erase (virt_on_dispatch E) E c r w)"
proof -
  have "served E r w (virt_on_dispatch E c r w)"
    using x room_dispatch_served [OF w x y] system_dispatch_served [OF w x y] table_dispatch_served
    by (cases "ckind x") (simp_all add: virt_on_dispatch_def)
  with join_leave_served [OF w x y, of E] show ?thesis by (simp add: chan_dispatch_def)
qed

text \<open>The states of a started server, seen from the vector of channels.\<close>

lemma three_channels_at:
  assumes "three_channels cs cr ct s" and "static w = s"
  shows "cl_at i w = (if i = 1 then Some cs else if i = 2 then Some cr else if i = 3 then Some ct else None)"
    "cl_at i w = Some c \<Longrightarrow> c \<in> dom (chans w)"
proof -
  from assms have v: "cvec w = [None, Some cs, Some cr, Some ct]" by (auto simp: three_channels_def static_def)
  show at: "cl_at i w = (if i = 1 then Some cs else if i = 2 then Some cr else if i = 3 then Some ct else None)"
    by (auto simp: cl_at_def v numeral_eq_Suc nth_Cons')
  from assms have "cs \<in> dom (chans w)" "cr \<in> dom (chans w)" "ct \<in> dom (chans w)"
    by (auto simp: three_channels_def static_def)
  then show "cl_at i w = Some c \<Longrightarrow> c \<in> dom (chans w)" unfolding at by (auto split: if_splits)
qed

lemma dispatch_served:
  assumes ok: "lounge_ok s w" and t: "three_channels cs cr ct s" and u: "ru r \<in> dom (usrs w)"
    and nc: "number_cast_ok (env_number_cast E)"
  shows "served E r w (lounge_dispatch E r w) \<or>
    (lounge_dispatch E r w = (Inl System_error, w) \<and>
     (\<exists>j. member_of (params r) ''cid'' = Some j \<and> env_number_cast E j = Inl System_error))"
proof (cases "checked_value (params r) ''cid''")
  case (Inl e)
  then show ?thesis
    using served_refusal [OF checked_value_Inl [OF Inl], of E r w] by (simp add: lounge_dispatch_def cl_dispatch_def)
next
  case (Inr j)
  then have j: "member_of (params r) ''cid'' = Some j" by (simp add: checked_value_Inr_iff)
  show ?thesis
  proof (cases "env_number_cast E j")
    case (Inl e)
    with nc have "e = System_error" unfolding number_cast_ok_def by blast
    with Inr Inl j show ?thesis by (auto simp: lounge_dispatch_def cl_dispatch_def)
  next
    case n: (Inr i)
    show ?thesis
    proof (cases "cl_at i w")
      case None
      with Inr n show ?thesis by (simp add: lounge_dispatch_def cl_dispatch_def)
    next
      case (Some c)
      from ok have "static w = s" "world_ok w" by (simp_all add: lounge_ok_def frame_ok_def)
      with three_channels_at(2) [OF t _ Some] u obtain x y where
        "chans w c = Some x" "usrs w (ru r) = Some y" by auto
      from chan_dispatch_served [OF \<open>world_ok w\<close> this, of E] Inr n Some show ?thesis
        by (simp add: lounge_dispatch_def cl_dispatch_def)
    qed
  qed
qed

text \<open>
  What a connection has to do about a request: the code and the message of the refusal, if it is
  refused, and the messages that go out for it, which carry the id of the request.
\<close>

definition refusal :: "env \<Rightarrow> uptr \<Rightarrow> json \<Rightarrow> 'a lounge_scheme \<Rightarrow> (int \<times> string) option" where
  "refusal E u jv w =
     (case extract_call (make_rpc_call u) jv of
        (r, Some e) \<Rightarrow> Some (- 32600, snd (make_error_code e))
      | (r, None) \<Rightarrow> (case lounge_dispatch E r w of (Inl (Rpc_error code msg), w') \<Rightarrow> Some (code, msg) | _ \<Rightarrow> None))"

definition answer :: "env \<Rightarrow> uptr \<Rightarrow> json \<Rightarrow> (json \<Rightarrow> json) \<Rightarrow> (uptr \<times> message) list" where
  "answer E u jv f = (case member_of jv ''id'' of None \<Rightarrow> [] | Some i \<Rightarrow> [(u, make_message (env_sr E) (f i))])"

definition error_response :: "int \<times> string \<Rightarrow> json \<Rightarrow> json" where
  "error_response e i = JObj [(''jsonrpc'', JStr ''2.0''),
     (''error'', JObj [(''code'', JInt (fst e)), (''message'', JStr (snd e))]), (''id'', i)]"

definition success_response :: "json \<Rightarrow> json" where
  "success_response i = JObj [(''id'', i), (''result'', JNull)]"

lemma answer_replies:
  assumes "r = fst (extract_call (make_rpc_call u) jv)"
  shows "replies E (complete r) = answer E u jv success_response"
    "replies E (complete_error r code msg) = answer E u jv (error_response (code, msg))"
  using extract_call_keeps [of "make_rpc_call u" jv]
  by (simp_all add: assms complete_def complete_error_def rpc_error_to_json_def obj_emplace_def Let_def answer_def
      error_response_def success_response_def make_rpc_call_def split: option.splits)

definition request_effect :: "env \<Rightarrow> uptr \<Rightarrow> json \<Rightarrow> 'a lounge_scheme \<Rightarrow> 'a lounge_scheme \<Rightarrow> bool" where
  "request_effect E u jv w w' \<longleftrightarrow>
     (case refusal E u jv w of
        Some e \<Rightarrow> w' = w\<lparr>sent := sent w @ answer E u jv (error_response e)\<rparr>
      | None \<Rightarrow>
          (\<exists>ms. sent w' = sent w @ ms @ answer E u jv success_response) \<or>
          (\<exists>r t. extract_call (make_rpc_call u) jv = (r, None) \<and>
             map_of (table_requests r) (method r) = Some t \<and> w' = w\<lparr>table_q := table_q w @ [t]\<rparr>))"

lemma handle_json_served:
  assumes ok: "lounge_ok s w" and t: "three_channels cs cr ct s" and u: "u \<in> dom (usrs w)"
    and nc: "number_cast_ok (env_number_cast E)"
  shows "(\<exists>w'. handle_json E u jv w = (Inr (), w') \<and> request_effect E u jv w w') \<or>
    (handle_json E u jv w = (Inl System_error, w) \<and>
     (\<exists>ps j. member_of jv ''params'' = Some ps \<and> member_of ps ''cid'' = Some j \<and>
        env_number_cast E j = Inl System_error))"
proof -
  obtain r ec where r: "extract_call (make_rpc_call u) jv = (r, ec)" by force
  then have r': "r = fst (extract_call (make_rpc_call u) jv)" by simp
  have ru: "ru r = u" using extract_call_keeps [of "make_rpc_call u" jv] r by (simp add: make_rpc_call_def)
  note h = handle_json_def catch_rpc_def do_complete_error_def send_all_eq request_effect_def refusal_def
    answer_replies [OF r'] r
  show ?thesis
  proof (cases ec)
    case (Some e)
    then show ?thesis by (simp add: h)
  next
    case None
    have "ru r \<in> dom (usrs w)" using u ru by simp
    from dispatch_served [OF ok t this nc] show ?thesis
    proof (elim disjE conjE exE)
      fix j assume d: "lounge_dispatch E r w = (Inl System_error, w)"
        and j: "member_of (params r) ''cid'' = Some j" "env_number_cast E j = Inl System_error"
      have "member_of jv ''params'' = Some (params r)"
        using extract_accepts_iff [of u jv r] r None j(1) by (auto split: option.splits)
      with j None d show ?thesis by (auto simp: h)
    next
      assume "served E r w (lounge_dispatch E r w)"
      with None show ?thesis by (auto simp: served_def h)
    qed
  qed
qed

lemma handle_json_outcome:
  assumes "lounge_ok s w" and "three_channels cs cr ct s" and "u \<in> dom (usrs w)"
    and "number_cast_ok (env_number_cast E)"
  shows "fst (handle_json E u jv w) = Inr () \<or>
    (fst (handle_json E u jv w) = Inl System_error \<and>
     (\<exists>ps j. member_of jv ''params'' = Some ps \<and> member_of ps ''cid'' = Some j \<and>
        env_number_cast E j = Inl System_error))"
  using handle_json_served [OF assms, of jv] by auto

section \<open>The other steps\<close>

interpretation table_lounge: table_frame "lounge_ok s"
  by unfold_locales
    (auto simp: lounge_ok_def frame_ok_def world_ok_def intro: join_ok leave_ok bet_ok surrender_ok start_ok)

text \<open>The server's strand sends and changes its own state, nothing else.\<close>

lemma keeps_srv_task:
  assumes s: "sent_closed P" and v: "\<And>w x. P (w\<lparr>srv := x\<rparr>) = P w"
  shows "keeps P (run_srv_task E t t0 t1 t2)"
proof -
  have u: "keeps P (upd_srv f)" for f by (simp add: keeps_def upd_srv_def v)
  have st: "keeps P (server_stop b)" for b
    using u by (auto simp: keeps_def server_stop_def post_srv_def)
  have arm: "keeps P (arm_timer t n)" for t n using u by (simp add: keeps_def arm_timer_def)
  have body: "keeps P (bind_act (get_chan c) (\<lambda>x. seq_act (chan_send E c (shutdown_json x n)) (arm_timer t m)))" for c n m t
    by (intro keeps_intros keeps_sending s arm)
  have tm: "keeps P (server_on_timer E ab t t')" for ab t t'
    using st keepsD [OF body] by (auto simp: keeps_def server_on_timer_def Let_def split: option.splits)
  have sd: "keeps P (server_shutdown E b cd t0 t1 t2)" for b cd
  proof -
    have "keeps P (seq_act (upd_srv f) (server_on_timer E False t1 t2))" for f by (intro keeps_intros u tm)
    then show ?thesis using u by (auto simp: keeps_def server_shutdown_def post_srv_def)
  qed
  have sg: "keeps P (server_on_signal E ab n t0 t1 t2)" for ab n
  proof -
    have "keeps P (seq_act (upd_srv f) (server_shutdown E True 30 t0 t1 t2))" for f by (intro keeps_intros u sd)
    then have "keeps P (\<lambda>w. if expiry (srv w) = never then seq_act (upd_srv f) (server_shutdown E True 30 t0 t1 t2) w
        else server_stop True w)" for f using st by (auto simp: keeps_def)
    then have "keeps P (seq_act (upd_srv g) (\<lambda>w. if expiry (srv w) = never
        then seq_act (upd_srv f) (server_shutdown E True 30 t0 t1 t2) w else server_stop True w))" for f g
      by (intro keeps_intros u)
    then show ?thesis by (auto simp: keeps_def server_on_signal_def)
  qed
  show ?thesis by (cases t) (simp_all add: st tm sd sg)
qed

lemma lounge_ok_upd [simp]:
  "lounge_ok s (w\<lparr>sent := m\<rparr>) = lounge_ok s w" "lounge_ok s (w\<lparr>srv := x\<rparr>) = lounge_ok s w"
  by (simp_all add: lounge_ok_def world_ok_def)

text \<open>While a user is destroyed, no task that holds it is in the queue.\<close>

definition gone_frame :: "statics \<Rightarrow> uptr \<Rightarrow> 'a lounge_scheme \<Rightarrow> bool" where
  "gone_frame s u w \<longleftrightarrow> user_frame s u w \<and> (\<forall>t \<in> set (table_q w). u \<notin> task_refs t)"

lemma gone_frame_hook: "keeps (gone_frame s u) (virt_on_erase c u)"
  using user_req.hooks(2) [of s u c]
  by (auto simp: keeps_def gone_frame_def virt_on_erase_def room_on_erase_def system_on_erase_def
      table_on_erase_def table_post_def split: option.splits chan_kind.splits)

interpretation frame_gone: membership_frame "gone_frame s u" virt_on_erase u
  by unfold_locales (rule gone_frame_hook | simp add: gone_frame_def user_frame_laws)+

lemma destroy_ok:
  assumes ok: "lounge_ok s w" and y: "usrs w u = Some y" and q: "\<forall>t \<in> set (table_q w). u \<notin> task_refs t"
  shows "\<exists>w'. user_destroy virt_on_erase E u w = Some (Inr (), w') \<and> lounge_ok s w' \<and>
    usrs w' = (usrs w)(u := None) \<and> joined w' = joined w - UNIV \<times> {u}"
proof -
  from ok have wok: "world_ok w" by (simp add: lounge_ok_def)
  from lounge_erase.destroy_ends [OF wok y, of E] obtain w' where
    w': "user_destroy virt_on_erase E u w = Some (Inr (), w')" "world_ok w'"
      "usrs w' = (usrs w)(u := None)" "joined w' = joined w - UNIV \<times> {u}" by blast
  let ?w = "w\<lparr>usrs := (usrs w)(u \<mapsto> y\<lparr>ualive := False\<rparr>)\<rparr>"
  from w'(1) y obtain w1 where w1: "user_dtor_loop virt_on_erase E u ?w = Some (Inr (), w1)"
    "w' = w1\<lparr>usrs := (usrs w1)(u := None)\<rparr>"
    by (auto simp: user_destroy_def split: option.splits prod.splits sum.splits)
  have "user_frame s u w" using ok y by (auto simp: user_frame_def lounge_ok_def)
  then have "user_frame s u ?w"
    using ok y by (intro user_frame_user) (auto simp: lounge_ok_def frame_ok_def)
  with q have "gone_frame s u ?w" by (simp add: gone_frame_def)
  from frame_gone.Q_dtor_loop [OF w1(1) this] have "frame_ok s w'"
    by (auto simp: w1(2) gone_frame_def user_frame_def frame_ok_def)
  with w' show ?thesis by (auto simp: lounge_ok_def)
qed

text \<open>
  The steps of a running server. A user that connects is a new object; it can be destroyed when no
  posted task holds it. Steps whose outcome is an exception end the process and lead nowhere.
\<close>

inductive lounge_reach :: "env \<Rightarrow> cptr \<Rightarrow> lounge \<Rightarrow> lounge \<Rightarrow> bool" for E ct w0 where
  boot: "lounge_reach E ct w0 w0"
| connect: "lounge_reach E ct w0 w \<Longrightarrow> usrs w u = None \<Longrightarrow>
    lounge_reach E ct w0 (w\<lparr>usrs := (usrs w)(u \<mapsto> \<lparr>uname = [], uchans = [], ualive = True\<rparr>)\<rparr>)"
| request: "lounge_reach E ct w0 w \<Longrightarrow> u \<in> dom (usrs w) \<Longrightarrow> handle_json E u jv w = (Inr (), w') \<Longrightarrow>
    lounge_reach E ct w0 w'"
| disconnect: "lounge_reach E ct w0 w \<Longrightarrow> usrs w u = Some y \<Longrightarrow> \<forall>t \<in> set (table_q w). u \<notin> task_refs t \<Longrightarrow>
    user_destroy virt_on_erase E u w = Some (Inr (), w') \<Longrightarrow> lounge_reach E ct w0 w'"
| table: "lounge_reach E ct w0 w \<Longrightarrow> table_q w = t # q \<Longrightarrow>
    run_table_task E ct t (w\<lparr>table_q := q\<rparr>) = (Inr (), w') \<Longrightarrow> lounge_reach E ct w0 w'"
| server: "lounge_reach E ct w0 w \<Longrightarrow> srv_q (srv w) = t # q \<Longrightarrow>
    run_srv_task E t t0 t1 t2 (w\<lparr>srv := (srv w)\<lparr>srv_q := q\<rparr>\<rparr>) = (Inr (), w') \<Longrightarrow> lounge_reach E ct w0 w'"
| timer: "lounge_reach E ct w0 w \<Longrightarrow> timer_wait (srv w) \<Longrightarrow>
    lounge_reach E ct w0 (w\<lparr>srv := (srv w)\<lparr>timer_wait := False, srv_q := srv_q (srv w) @ [Task_timer False]\<rparr>\<rparr>)"
| signal: "lounge_reach E ct w0 w \<Longrightarrow> signal_wait (srv w) \<Longrightarrow>
    lounge_reach E ct w0 (w\<lparr>srv := (srv w)\<lparr>signal_wait := False, srv_q := srv_q (srv w) @ [Task_signal False n]\<rparr>\<rparr>)"

lemma connect_ok:
  assumes "lounge_ok s w" and "usrs w u = None"
  shows "lounge_ok s (w\<lparr>usrs := (usrs w)(u \<mapsto> \<lparr>uname = [], uchans = [], ualive = True\<rparr>)\<rparr>)"
proof -
  have "world_ok (w\<lparr>usrs := (usrs w)(u \<mapsto> \<lparr>uname = [], uchans = [], ualive = True\<rparr>)\<rparr>)"
    using assms unfolding lounge_ok_def world_ok_def members_ok_def by (auto split: if_splits) (metis option.distinct(1))
  with assms show ?thesis by (auto simp: lounge_ok_def frame_ok_def)
qed

lemma reach_ok:
  assumes "lounge_reach E ct w0 w" and "lounge_ok s w0"
  shows "lounge_ok s w"
  using assms
proof (induction rule: lounge_reach.induct)
  case (connect w u)
  then show ?case by (intro connect_ok)
next
  case (request w u jv w')
  with handle_json_ok(1) [of s w u E jv] show ?case by simp
next
  case (disconnect w u y w')
  with destroy_ok [of s w u y E] show ?case by auto
next
  case (table w t q w')
  then have "lounge_ok s (w\<lparr>table_q := q\<rparr>)" by (simp add: lounge_ok_def world_ok_def frame_ok_def)
  from keepsD [OF table_lounge.keeps_task this, of E ct t] table show ?case by simp
next
  case (server w t q t0 t1 t2 w')
  then have a: "lounge_ok s (w\<lparr>srv := (srv w)\<lparr>srv_q := q\<rparr>\<rparr>)" by simp
  have k: "keeps (lounge_ok s) (run_srv_task E t t0 t1 t2 :: (lounge, unit) act)"
    by (rule keeps_srv_task) simp_all
  from keepsD [OF k a] server.hyps(3) show ?case by simp
qed simp_all

section \<open>The start of the server\<close>

lemma boot_channels:
  assumes "distinct [cr, cs, ct]" and g: "make_game 1 mem rnd = Inr (g, rnd')"
  shows "\<exists>w. server_boot cr cs ct mem (boot_world g0 rnd) = (Inr (), w) \<and>
    usrs w = Map.empty \<and> cvec w = [None, Some cs, Some cr, Some ct] \<and>
    chans w = [cr \<mapsto> new_channel 1001 2 ''General'' Room_impl, cs \<mapsto> new_channel 1002 1 ''System'' System_channel,
      ct \<mapsto> new_channel 1003 3 ''Blackjack'' Table] \<and>
    table_g w = g \<and> table_q w = [] \<and> sent w = [] \<and> running (srv w) \<and> signal_wait (srv w)"
  using assms
  by (simp add: server_boot_def make_room_def make_system_channel_def insert_channel_def
      channel_ctor_reserved_def cl_next_uid_def cl_insert_def set_chan_def server_insert_def
      server_run_begin_def start_service_def blackjack_on_start_def table_ctor_def make_blackjack_service_def boot_world_def cl_init_def
      new_srv_state_def upd_srv_def resize_vec_def new_channel_def seq_act_def bind_act_def Let_def
      get_chan_def numeral_eq_Suc)

lemma boot_ok:
  assumes "distinct [cr, cs, ct]"
  shows "\<exists>w. server_boot cr cs ct mem (boot_world g0 rnd) = (Inr (), w) \<and>
    lounge_ok (static w) w \<and> three_channels cs cr ct (static w) \<and> usrs w = Map.empty"
proof -
  obtain g rnd' where g: "make_game 1 mem rnd = Inr (g, rnd')" "game_ok g"
    using make_game_ok [of 1 mem rnd] by auto
  from boot_channels [OF assms g(1), of g0] obtain w where
    w: "server_boot cr cs ct mem (boot_world g0 rnd) = (Inr (), w)" "usrs w = Map.empty"
      "cvec w = [None, Some cs, Some cr, Some ct]"
      "chans w = [cr \<mapsto> new_channel 1001 2 ''General'' Room_impl, cs \<mapsto> new_channel 1002 1 ''System'' System_channel,
        ct \<mapsto> new_channel 1003 3 ''Blackjack'' Table]"
      "table_g w = g" "table_q w = []" by blast
  have "lounge_ok (static w) w"
    using w(2,5,6) g(2) by (auto simp: lounge_ok_def frame_ok_def world_ok_def members_ok_def w(4) new_channel_def split: if_splits)
  moreover have "three_channels cs cr ct (static w)"
    using assms by (auto simp: three_channels_def static_def w(3,4) new_channel_def)
  ultimately show ?thesis using w(1,2) by blast
qed

section \<open>Properties\<close>

text \<open>
  C1: the running server keeps its state consistent. In every state it reaches from its start
  through users that connect, send requests and disconnect, the tasks of the table's and the
  server's strands, timers and signals: the memberships of users and channels agree and name live
  objects only, the game is well formed, every request that waits for the table has a live user,
  no name is longer than twenty characters, and the three channels are at the ids 1, 2 and 3.
\<close>

theorem reachable_lounge_ok:
  assumes "distinct [cr, cs, ct]" and "server_boot cr cs ct mem (boot_world g0 rnd) = (Inr (), w0)"
    and "lounge_reach E ct w0 w"
  shows "world_ok w \<and> game_ok (table_g w) \<and>
    (\<forall>t \<in> set (table_q w). task_refs t \<subseteq> dom (usrs w)) \<and>
    (\<forall>u y. usrs w u = Some y \<longrightarrow> length (uname y) \<le> 20) \<and>
    cl_at 1 w = Some cs \<and> cl_at 2 w = Some cr \<and> cl_at 3 w = Some ct"
proof -
  from boot_ok [OF assms(1), of mem g0 rnd] assms(2)
  have b: "lounge_ok (static w0) w0" "three_channels cs cr ct (static w0)" by auto
  from reach_ok [OF assms(3) b(1)] have "lounge_ok (static w0) w" .
  with three_channels_at(1) [OF b(2), of w] show ?thesis by (simp add: lounge_ok_def frame_ok_def)
qed

text \<open>A started server with one user.\<close>

definition sample_boot :: lounge where
  "sample_boot = snd (server_boot 50 40 60 (\<lambda>_. 0) (boot_world sample_game (\<lambda>_. 0)))"

definition sample_live :: lounge where
  "sample_live = sample_boot\<lparr>usrs := (usrs sample_boot)(1 \<mapsto> \<lparr>uname = [], uchans = [], ualive = True\<rparr>)\<rparr>"

lemma sample_boot_eq: "server_boot 50 40 60 (\<lambda>_. 0) (boot_world sample_game (\<lambda>_. 0)) = (Inr (), sample_boot)"
  using boot_ok [of 50 40 60 "\<lambda>_. 0" sample_game "\<lambda>_. 0"] by (auto simp: sample_boot_def)

lemma sample_live_ok:
  "lounge_reach E 60 sample_boot sample_live" "usrs sample_live = [1 \<mapsto> \<lparr>uname = [], uchans = [], ualive = True\<rparr>]"
  "table_q sample_live = []"
proof -
  obtain g rnd where g: "make_game 1 (\<lambda>_. 0) (\<lambda>_. 0) = Inr (g, rnd)" using make_game_ok [of 1 "\<lambda>_. 0" "\<lambda>_. 0"] by auto
  from boot_channels [OF _ g, of 50 40 60 sample_game] sample_boot_eq
  have "usrs sample_boot = Map.empty" "table_q sample_boot = []" by auto
  then show "usrs sample_live = [1 \<mapsto> \<lparr>uname = [], uchans = [], ualive = True\<rparr>]" "table_q sample_live = []"
    and "lounge_reach E 60 sample_boot sample_live"
    using lounge_reach.connect [OF lounge_reach.boot, of sample_boot 1 E 60] by (simp_all add: sample_live_def)
qed

lemma sample_boot_sent: "sent sample_boot = []"
proof -
  obtain g rnd where g: "make_game 1 (\<lambda>_. 0) (\<lambda>_. 0) = Inr (g, rnd)" using make_game_ok [of 1 "\<lambda>_. 0" "\<lambda>_. 0"] by auto
  from boot_channels [OF _ g, of 50 40 60 sample_game] sample_boot_eq show ?thesis by auto
qed

lemma sample_live_sent: "sent sample_live = []"
  by (simp add: sample_live_def sample_boot_sent)

theorem reachable_lounge_ok_witness: "world_ok sample_live \<and> cl_at 3 sample_live = Some 60"
  using reachable_lounge_ok [OF _ sample_boot_eq sample_live_ok(1) [of sample_env]] by simp


lemma sample_env_cast: "number_cast_ok (env_number_cast sample_env)"
  by (auto simp: number_cast_ok_def sample_env_def split: json.splits)


text \<open>
  C38: any connected user, named or not, can end the server with one request: a well-formed
  request whose \<^verbatim>\<open>cid\<close> is not a number makes the conversion throw a \<^verbatim>\<open>system_error\<close>, which leaves the
  completion handler.
\<close>

theorem non_numeric_cid_escapes:
  assumes "number_cast_ok (env_number_cast E)" and "v2_request jv" and "member_of jv ''method'' = Some (JStr m)"
    and "member_of jv ''params'' = Some ps" and "member_of ps ''cid'' = Some j" and "\<not> is_number j"
  shows "handle_json E u jv w = (Inl System_error, w)"
proof -
  obtain r where r: "extract_call (make_rpc_call u) jv = (r, None)" "params r = ps"
    using extract_accepts_iff [of u jv] assms(2,3,4) by force
  have "env_number_cast E j = Inl System_error" using assms(1,6) by (simp add: number_cast_ok_def)
  moreover have "checked_value ps ''cid'' = Inr j" using assms(5) by (simp add: checked_value_Inr_iff)
  ultimately show ?thesis
    by (simp add: handle_json_def r lounge_dispatch_def cl_dispatch_def catch_rpc_def)
qed

theorem non_numeric_cid_escapes_witness:
  "fst (handle_json sample_env 1 (JObj [(''jsonrpc'', JStr ''2.0''), (''method'', JStr ''join''),
     (''params'', JObj [(''cid'', JStr ''x'')])]) sample_live) = Inl System_error"
  using non_numeric_cid_escapes [OF sample_env_cast, of "JObj [(''jsonrpc'', JStr ''2.0''), (''method'', JStr ''join''),
     (''params'', JObj [(''cid'', JStr ''x'')])]" "''join''" "JObj [(''cid'', JStr ''x'')]" "JStr ''x''" 1 sample_live]
  by (simp add: v2_request_def)

text \<open>
  A request of version 1 never reaches a channel: its parameters are an array, the channel id is
  looked up in an object, and the user gets the error \<^verbatim>\<open>expected object\<close> whatever the method is.
\<close>

theorem version_1_never_dispatched:
  assumes "v1_request jv" and "member_of jv ''method'' = Some (JStr m)" and "member_of jv ''id'' = Some i"
  shows "handle_json E u jv w = (Inr (), w\<lparr>sent := sent w @
    [(u, make_message (env_sr E) (rpc_error_to_json (- 32602) ''expected object'' (Some i)))]\<rparr>)"
proof -
  from assms(1) obtain ps where ps: "member_of jv ''params'' = Some (JArr ps)" by (auto simp: v1_request_def)
  obtain r where r: "extract_call (make_rpc_call u) jv = (r, None)" "params r = JArr ps" "rid r = Some i" "ru r = u"
    using extract_accepts_iff [of u jv] assms ps by force
  then show ?thesis
    by (simp add: handle_json_def lounge_dispatch_def cl_dispatch_def checked_value_def catch_rpc_def
        do_complete_error_def complete_error_def user_send_json_def user_send_def)
qed

theorem version_1_never_dispatched_witness:
  "length (sent (snd (handle_json sample_env 1 (JObj [(''id'', JNull), (''method'', JStr ''join''),
     (''params'', JArr [])]) sample_lounge))) = 1"
  using version_1_never_dispatched [of "JObj [(''id'', JNull), (''method'', JStr ''join''), (''params'', JArr [])]"
      "''join''" JNull sample_env 1 sample_lounge]
  by (simp add: v1_request_def sample_lounge_def)

text \<open>
  C14: joining and leaving a channel are exactly insertion into and removal from the relation
  between channels and users, each reports whether it changed anything, and both keep the two
  sides of the relation in step.
\<close>

theorem membership_refines:
  assumes "world_ok w" and "chans w c = Some x" and "usrs w u = Some y"
  shows "let (a, w1) = chan_insert virt_on_insert E c u w; (b, w2) = chan_erase virt_on_erase E c u w in
    a = Inr ((c, u) \<notin> joined w) \<and> joined w1 = insert (c, u) (joined w) \<and> world_ok w1 \<and>
    b = Inr ((c, u) \<in> joined w) \<and> joined w2 = joined w - {(c, u)} \<and> world_ok w2"
  using lounge_insert.insert_refines [OF assms, of E] lounge_erase.erase_refines [OF assms, of E] by auto

theorem membership_refines_witness:
  "joined (snd (chan_insert virt_on_insert sample_env 60 2 sample_lounge)) = {(60, 1), (60, 2)}"
proof -
  have s: "world_ok sample_lounge" using sample_lounge_ok(1) by (simp add: table_ready_def)
  have c: "chans sample_lounge 60 = Some \<lparr>chan_uid = 1003, cid = 3, cname = ''Blackjack'', cusers = [1], ckind = Table\<rparr>"
    "usrs sample_lounge 2 = Some \<lparr>uname = ''bob'', uchans = [], ualive = True\<rparr>"
    "joined sample_lounge = {(60, 1)}"
    by (auto simp: sample_lounge_def joined_def split: if_splits)
  from membership_refines [OF s c(1,2), of sample_env] c(3) show ?thesis
    by (auto simp: case_prod_beta Let_def)
qed

text \<open>
  C20: a user that disconnects leaves nothing behind in the channels. In every reachable state the
  destructor of a user that no posted task holds ends; afterwards the user is in no channel, the
  memberships of all others are as before and the object is gone.
\<close>

theorem disconnect_cleans_up:
  assumes "distinct [cr, cs, ct]" and "server_boot cr cs ct mem (boot_world g0 rnd) = (Inr (), w0)"
    and "lounge_reach E ct w0 w" and "u \<in> dom (usrs w)" and "\<forall>t \<in> set (table_q w). u \<notin> task_refs t"
  shows "\<exists>w'. user_destroy virt_on_erase E u w = Some (Inr (), w') \<and>
    joined w' = joined w - UNIV \<times> {u} \<and> usrs w' = (usrs w)(u := None) \<and> lounge_reach E ct w0 w'"
proof -
  from boot_ok [OF assms(1), of mem g0 rnd] assms(2) have b: "lounge_ok (static w0) w0" by auto
  from assms(4) obtain y where y: "usrs w u = Some y" by auto
  from destroy_ok [OF reach_ok [OF assms(3) b] y assms(5), of E] obtain w' where
    w': "user_destroy virt_on_erase E u w = Some (Inr (), w')"
      "usrs w' = (usrs w)(u := None)" "joined w' = joined w - UNIV \<times> {u}" by blast
  with lounge_reach.disconnect [OF assms(3) y assms(5) w'(1)] show ?thesis by blast
qed

theorem disconnect_cleans_up_witness:
  "\<exists>w'. user_destroy virt_on_erase sample_env 1 sample_live = Some (Inr (), w') \<and> usrs w' 1 = None"
  using disconnect_cleans_up [OF _ sample_boot_eq sample_live_ok(1), of 1 sample_env] sample_live_ok(2,3)
  by auto

text \<open>
  A server starts. Whatever the addresses of its channels and the contents of fresh memory, its
  start returns with the room, the system channel and the table in the list under the ids 2, 1 and
  3, with distinct unique ids, no user, and a well-formed game.
\<close>

theorem server_starts:
  assumes "distinct [cr, cs, ct]"
  shows "\<exists>w. server_boot cr cs ct mem (boot_world g0 rnd) = (Inr (), w) \<and> world_ok w \<and> registry_ok w \<and>
    game_ok (table_g w) \<and> usrs w = Map.empty \<and>
    map_option chan_uid (chans w cs) = Some 1002 \<and> map_option chan_uid (chans w cr) = Some 1001 \<and>
    map_option chan_uid (chans w ct) = Some 1003 \<and>
    cl_at 1 w = Some cs \<and> cl_at 2 w = Some cr \<and> cl_at 3 w = Some ct"
proof -
  from boot_ok [OF assms, of mem g0 rnd] obtain w where
    w: "server_boot cr cs ct mem (boot_world g0 rnd) = (Inr (), w)" "lounge_ok (static w) w"
      "three_channels cs cr ct (static w)" "usrs w = Map.empty" by blast
  note at = three_channels_at(1) [OF w(3) refl]
  have "registry_ok w" unfolding registry_ok_def at
    using w(3) by (auto simp: three_channels_def static_def split: if_splits)
  with w at show ?thesis by (auto simp: lounge_ok_def frame_ok_def three_channels_def static_def)
qed

theorem server_starts_witness:
  "cl_at 2 (snd (server_boot 50 40 60 (\<lambda>_. 0) (boot_world sample_game (\<lambda>_. 0)))) = Some 50"
  using server_starts [of 50 40 60 "\<lambda>_. 0" sample_game "\<lambda>_. 0"] by auto

end
