(* ===== verification/Ws_Queue.thy ===== *)
theory Ws_Queue
  imports Lounge_State
begin

text \<open>
  The writing side of a connection in \<^verbatim>\<open>server/core/ws_user.cpp\<close>: a vector of outgoing messages of
  which one is being written at a time.
\<close>

section \<open>The code\<close>

subsection \<open>The queue of outgoing messages\<close>

text \<open>
  \<open>mq\<close> is the vector \<^verbatim>\<open>mq_\<close>. \<open>pending\<close> is the outstanding \<^verbatim>\<open>async_write\<close>: the index its handler was
  bound to and the message, of which the operation holds a copy. \<open>written\<close> is what went out.
\<close>

record ws_queue =
  ws_open :: bool
  mq :: "message list"
  pending :: "(nat \<times> string) option"
  written :: "string list"

definition new_queue :: ws_queue where
  "new_queue = \<lparr>ws_open = True, mq = [], pending = None, written = []\<rparr>"

text \<open>
  Starting a write takes the buffer of the last message: there is none in a null message. A second
  write while one is outstanding is a violation of the stream's contract.
\<close>

definition ws_do_write :: "ws_queue \<Rightarrow> ws_queue outcome" where
  "ws_do_write q =
     (if mq q = [] then Inl Assert_failed
      else if pending q \<noteq> None then Inl Undefined
      else case last (mq q) of
        None \<Rightarrow> Inl Undefined
      | Some m \<Rightarrow> Inr (q\<lparr>pending := Some (length (mq q) - 1, m)\<rparr>))"

definition ws_do_send :: "message \<Rightarrow> ws_queue \<Rightarrow> ws_queue outcome" where
  "ws_do_send m q =
     (if \<not> ws_open q then Inr q
      else
        (let q1 = q\<lparr>mq := mq q @ [m]\<rparr> in
         if length (mq q1) = 1 then ws_do_write q1 else Inr q1))"

definition ws_send_json :: "env \<Rightarrow> json \<Rightarrow> ws_queue \<Rightarrow> ws_queue outcome" where
  "ws_send_json E jv q = ws_do_send (make_message (env_sr E) jv) q"

text \<open>
  The completion of a write: \<open>failed\<close> is whether it reports an error. The message that was written
  is swapped to the end of the vector and cut off there.
\<close>

definition swap_pop :: "nat \<Rightarrow> 'a list \<Rightarrow> 'a list" where
  "swap_pop idx xs =
     (let last_i = length xs - 1 in
      take last_i (if idx \<noteq> last_i then swap_elems idx last_i xs else xs))"

definition ws_on_write :: "nat \<Rightarrow> bool \<Rightarrow> ws_queue \<Rightarrow> ws_queue outcome" where
  "ws_on_write idx failed q =
     (if mq q = [] then Inl Assert_failed
      else if failed then Inr q
      else
        (let q1 = q\<lparr>mq := swap_pop idx (mq q)\<rparr> in
         if mq q1 \<noteq> [] then ws_do_write q1 else Inr q1))"

text \<open>The transport completes the outstanding write and calls its handler.\<close>

definition ws_write_done :: "ws_queue \<Rightarrow> ws_queue outcome" where
  "ws_write_done q =
     (case pending q of
        None \<Rightarrow> Inr q
      | Some (i, m) \<Rightarrow> ws_on_write i False (q\<lparr>pending := None, written := written q @ [m]\<rparr>))"

definition ws_write_failed :: "ws_queue \<Rightarrow> ws_queue outcome" where
  "ws_write_failed q =
     (case pending q of
        None \<Rightarrow> Inr q
      | Some (i, m) \<Rightarrow> ws_on_write i True (q\<lparr>pending := None\<rparr>))"

definition ws_do_stop :: "ws_queue \<Rightarrow> ws_queue" where
  "ws_do_stop q = q\<lparr>ws_open := False\<rparr>"

section \<open>The invariant of the queue\<close>

text \<open>
  While no write has failed, a write is outstanding exactly when the queue is not empty, and it is
  the write of the message at the index its handler will remove.
\<close>

definition queue_ok :: "ws_queue \<Rightarrow> bool" where
  "queue_ok q \<longleftrightarrow>
     list_all (\<lambda>m. m \<noteq> None) (mq q) \<and>
     (case pending q of
        None \<Rightarrow> mq q = []
      | Some (i, m) \<Rightarrow> i < length (mq q) \<and> mq q ! i = Some m)"

lemma do_write_starts:
  assumes "list_all (\<lambda>m. m \<noteq> None) (mq q)" and "mq q \<noteq> []" and "pending q = None"
  shows "\<exists>m. last (mq q) = Some m \<and> ws_do_write q = Inr (q\<lparr>pending := Some (length (mq q) - 1, m)\<rparr>)"
proof -
  from assms(1,2) have "last (mq q) \<noteq> None" by (simp add: list_all_iff)
  then obtain m where "last (mq q) = Some m" by auto
  with assms show ?thesis by (simp add: ws_do_write_def)
qed

lemma do_send_ok:
  assumes ok: "queue_ok q" and m: "m = Some s"
  shows "\<exists>q'. ws_do_send m q = Inr q' \<and> queue_ok q' \<and> written q' = written q \<and> ws_open q' = ws_open q \<and>
    mset (mq q') = mset (mq q) + (if ws_open q then {#m#} else {#})"
proof (cases "ws_open q \<and> mq q = []")
  case True
  with ok have "pending q = None" by (auto simp: queue_ok_def split: option.splits)
  with True m show ?thesis by (simp add: ws_do_send_def ws_do_write_def queue_ok_def)
next
  case False
  with ok m show ?thesis
    by (auto simp: ws_do_send_def queue_ok_def nth_append split: option.splits)
qed

lemma mset_swap_pop:
  assumes "i < length xs"
  shows "mset xs = add_mset (xs ! i) (mset (swap_pop i xs))" "length (swap_pop i xs) = length xs - 1"
proof -
  let ?k = "length xs - 1"
  define ys where "ys = (if i \<noteq> ?k then swap_elems i ?k xs else xs)"
  from assms have k: "?k < length xs" by simp
  have ys: "length ys = length xs" "mset ys = mset xs" "ys ! ?k = xs ! i"
    using assms k by (auto simp: ys_def swap_elems_def nth_list_update mset_swap)
  have p: "swap_pop i xs = take ?k ys" by (simp add: swap_pop_def ys_def Let_def)
  have "ys = take ?k ys @ [ys ! ?k]" using take_Suc_conv_app_nth [of ?k ys] k ys(1) by simp
  then have "mset ys = mset (take ?k ys @ [ys ! ?k])" by (rule arg_cong)
  then have "mset ys = add_mset (ys ! ?k) (mset (take ?k ys))" by simp
  then show "mset xs = add_mset (xs ! i) (mset (swap_pop i xs))" using ys p by simp
  show "length (swap_pop i xs) = length xs - 1" using p ys(1) by simp
qed

lemma write_done_ok:
  assumes ok: "queue_ok q"
  shows "\<exists>q'. ws_write_done q = Inr q' \<and> queue_ok q' \<and> ws_open q' = ws_open q \<and>
    mset (map Some (written q')) + mset (mq q') = mset (map Some (written q)) + mset (mq q) \<and>
    length (mq q') = length (mq q) - 1"
proof (cases "pending q")
  case None
  with ok show ?thesis by (auto simp: ws_write_done_def queue_ok_def)
next
  case (Some p)
  then obtain i m where p: "pending q = Some (i, m)" by (cases p) auto
  with ok have i: "i < length (mq q)" "mq q ! i = Some m" and all: "list_all (\<lambda>m. m \<noteq> None) (mq q)"
    by (auto simp: queue_ok_def)
  define xs where "xs = swap_pop i (mq q)"
  let ?q = "q\<lparr>pending := None, written := written q @ [m], mq := xs\<rparr>"
  have ms: "mset (mq q) = add_mset (Some m) (mset xs)" and len: "length xs = length (mq q) - 1"
    using mset_swap_pop [OF i(1)] i(2) by (simp_all add: xs_def)
  have "set (mq q) = insert (Some m) (set xs)" using ms by (metis set_mset_mset set_mset_add_mset_insert)
  then have all': "list_all (\<lambda>m. m \<noteq> None) (mq ?q)" using all by (auto simp: list_all_iff)
  have d: "ws_write_done q = (if xs \<noteq> [] then ws_do_write ?q else Inr ?q)"
    using i(1) by (auto simp: ws_write_done_def p ws_on_write_def Let_def xs_def)
  show ?thesis
  proof (cases "xs = []")
    case True
    with d ms len show ?thesis by (simp add: queue_ok_def)
  next
    case False
    then have ne: "mq ?q \<noteq> []" by simp
    from do_write_starts [OF all' ne] obtain m' where
      m': "last xs = Some m'" "ws_do_write ?q = Inr (?q\<lparr>pending := Some (length xs - 1, m')\<rparr>)" by auto
    have "queue_ok (?q\<lparr>pending := Some (length xs - 1, m')\<rparr>)"
      using all' False m'(1) by (simp add: queue_ok_def last_conv_nth)
    with d False m' ms len show ?thesis by simp
  qed
qed

section \<open>Runs of the queue\<close>

datatype ws_event = Ev_send message | Ev_done

fun ws_run :: "ws_event list \<Rightarrow> ws_queue \<Rightarrow> ws_queue outcome" where
  "ws_run [] q = Inr q"
| "ws_run (Ev_send m # es) q = (case ws_do_send m q of Inl e \<Rightarrow> Inl e | Inr q' \<Rightarrow> ws_run es q')"
| "ws_run (Ev_done # es) q = (case ws_write_done q of Inl e \<Rightarrow> Inl e | Inr q' \<Rightarrow> ws_run es q')"

definition sends :: "ws_event list \<Rightarrow> message list" where
  "sends es = concat (map (\<lambda>e. case e of Ev_send m \<Rightarrow> [m] | Ev_done \<Rightarrow> []) es)"

lemma sends_simps [simp]:
  "sends [] = []" "sends (Ev_send m # es) = m # sends es" "sends (Ev_done # es) = sends es"
  by (simp_all add: sends_def)

lemma ws_run_ok:
  assumes "queue_ok q" and "ws_open q" and "None \<notin> set (sends es)"
  shows "\<exists>q'. ws_run es q = Inr q' \<and> queue_ok q' \<and> ws_open q' \<and>
    mset (map Some (written q')) + mset (mq q') =
      mset (map Some (written q)) + mset (mq q) + mset (sends es)"
  using assms
proof (induction es q rule: ws_run.induct)
  case (2 m es q)
  then obtain s where s: "m = Some s" by (cases m) auto
  from do_send_ok [OF "2.prems"(1) s] "2.prems"(2) obtain q1 where
    q1: "ws_do_send m q = Inr q1" "queue_ok q1" "written q1 = written q" "ws_open q1"
      "mset (mq q1) = add_mset m (mset (mq q))" by auto
  from "2.IH" [OF q1(1,2,4)] "2.prems"(3) q1 show ?case by simp
next
  case (3 es q)
  from write_done_ok [OF "3.prems"(1)] "3.prems"(2) obtain q1 where
    q1: "ws_write_done q = Inr q1" "queue_ok q1" "ws_open q1"
      "mset (map Some (written q1)) + mset (mq q1) = mset (map Some (written q)) + mset (mq q)" by auto
  from "3.IH" [OF q1(1-3)] "3.prems"(3) q1 show ?case by simp
qed simp

lemma new_queue_ok: "queue_ok new_queue" "ws_open new_queue"
  by (simp_all add: new_queue_def queue_ok_def)

lemma ws_drain:
  assumes "queue_ok q"
  shows "\<exists>q'. ws_run (replicate (length (mq q)) Ev_done) q = Inr q' \<and> mq q' = [] \<and> pending q' = None \<and>
    mset (map Some (written q')) = mset (map Some (written q)) + mset (mq q)"
  using assms
proof (induction "length (mq q)" arbitrary: q)
  case 0
  then show ?case by (auto simp: queue_ok_def split: option.splits)
next
  case (Suc n)
  from write_done_ok [OF Suc.prems] obtain q1 where
    q1: "ws_write_done q = Inr q1" "queue_ok q1"
      "mset (map Some (written q1)) + mset (mq q1) = mset (map Some (written q)) + mset (mq q)"
      "length (mq q1) = length (mq q) - 1" by auto
  with Suc.hyps(2) have n: "n = length (mq q1)" by simp
  from Suc.hyps(1) [OF this q1(2)] obtain q2 where
    q2: "ws_run (replicate n Ev_done) q1 = Inr q2" "mq q2 = []" "pending q2 = None"
      "mset (map Some (written q2)) = mset (map Some (written q1)) + mset (mq q1)" using n by auto
  have "ws_run (replicate (length (mq q)) Ev_done) q = Inr q2"
    unfolding Suc.hyps(2) [symmetric] using q1(1) q2(1) by simp
  with q1(3) q2(2-) show ?case by metis
qed

text \<open>
  After a write has failed the queue keeps its messages and starts no further write: its handler
  returns before it takes the message out, and only an empty queue starts a write.
\<close>

definition halted :: "ws_queue \<Rightarrow> bool" where
  "halted q \<longleftrightarrow> pending q = None \<and> mq q \<noteq> [] \<and> list_all (\<lambda>m. m \<noteq> None) (mq q)"

definition queue_safe :: "ws_queue \<Rightarrow> bool" where
  "queue_safe q \<longleftrightarrow> queue_ok q \<or> halted q"

definition held_messages :: "ws_queue \<Rightarrow> message multiset" where
  "held_messages q = mset (map Some (written q)) + mset (mq q)"

lemma send_safe:
  assumes "queue_safe q" and m: "m = Some s"
  shows "\<exists>q'. ws_do_send m q = Inr q' \<and> queue_safe q' \<and> ws_open q' = ws_open q \<and>
    held_messages q' = held_messages q + (if ws_open q then {#m#} else {#})"
proof (cases "queue_ok q")
  case True
  with do_send_ok [OF True m] show ?thesis by (auto simp: queue_safe_def held_messages_def)
next
  case False
  with assms have "halted q" by (simp add: queue_safe_def)
  with m show ?thesis by (auto simp: ws_do_send_def queue_safe_def halted_def held_messages_def)
qed

lemma write_safe:
  assumes "queue_safe q"
  shows "\<exists>q'. ws_write_done q = Inr q' \<and> queue_safe q' \<and> ws_open q' = ws_open q \<and> held_messages q' = held_messages q"
    "\<exists>q'. ws_write_failed q = Inr q' \<and> queue_safe q' \<and> ws_open q' = ws_open q \<and> held_messages q' = held_messages q"
proof -
  show "\<exists>q'. ws_write_done q = Inr q' \<and> queue_safe q' \<and> ws_open q' = ws_open q \<and> held_messages q' = held_messages q"
  proof (cases "queue_ok q")
    case True
    from write_done_ok [OF True] show ?thesis by (auto simp: queue_safe_def held_messages_def)
  next
    case False
    with assms show ?thesis by (auto simp: queue_safe_def halted_def ws_write_done_def)
  qed
  have "ws_write_failed q = Inr (q\<lparr>pending := None\<rparr>)"
    using assms by (auto simp: ws_write_failed_def ws_on_write_def queue_safe_def queue_ok_def halted_def split: option.splits)
  moreover have "queue_safe (q\<lparr>pending := None\<rparr>)"
    using assms by (cases "mq q") (auto simp: queue_safe_def queue_ok_def halted_def split: option.splits)
  ultimately show "\<exists>q'. ws_write_failed q = Inr q' \<and> queue_safe q' \<and> ws_open q' = ws_open q \<and> held_messages q' = held_messages q"
    by (simp add: held_messages_def)
qed

lemma stop_safe:
  "queue_safe (ws_do_stop q) = queue_safe q" "held_messages (ws_do_stop q) = held_messages q" "\<not> ws_open (ws_do_stop q)"
  by (simp_all add: ws_do_stop_def queue_safe_def queue_ok_def halted_def held_messages_def split: option.split)

lemma ws_run_append:
  "ws_run (es @ fs) q = (case ws_run es q of Inl e \<Rightarrow> Inl e | Inr q' \<Rightarrow> ws_run fs q')"
  by (induction es q rule: ws_run.induct) (auto split: sum.splits)

text \<open>A queue that has not halted writes everything, whatever else is handed to it.\<close>

lemma sends_map: "sends (map Ev_send ms) = ms"
  by (induction ms) simp_all

lemma queue_empties:
  assumes "queue_ok q" and "ws_open q" and "None \<notin> set ms"
  shows "\<exists>n q'. ws_run (map Ev_send ms @ replicate n Ev_done) q = Inr q' \<and>
    mset (map Some (written q')) = held_messages q + mset ms"
proof -
  have "None \<notin> set (sends (map Ev_send ms))" using assms(3) by (simp add: sends_map)
  from ws_run_ok [OF assms(1,2) this] obtain q1 where
    q1: "ws_run (map Ev_send ms) q = Inr q1" "queue_ok q1"
      "mset (map Some (written q1)) + mset (mq q1) = held_messages q + mset ms"
    by (auto simp: held_messages_def sends_map)
  from ws_drain [OF q1(2)] obtain q2 where
    "ws_run (replicate (length (mq q1)) Ev_done) q1 = Inr q2"
    "mset (map Some (written q2)) = mset (map Some (written q1)) + mset (mq q1)" by blast
  with q1 show ?thesis by (intro exI [of _ "length (mq q1)"] exI [of _ q2]) (simp add: ws_run_append)
qed

section \<open>Properties\<close>

text \<open>
  No message is lost, duplicated or made up. However sends and completed writes interleave on an
  open connection, no two writes are ever outstanding and no handler finds the queue empty; what
  was handed to the connection is, as a multiset, what has been written and what still waits; and
  when as many writes complete as messages wait, all of them have gone out.
\<close>

theorem ws_queue_conserves:
  assumes "None \<notin> set (sends es)"
  shows "\<exists>q. ws_run es new_queue = Inr q \<and>
    mset (map Some (written q)) + mset (mq q) = mset (sends es) \<and> (pending q = None \<longleftrightarrow> mq q = []) \<and>
    (\<exists>q'. ws_run (replicate (length (mq q)) Ev_done) q = Inr q' \<and> mq q' = [] \<and>
       mset (map Some (written q')) = mset (sends es))"
proof -
  from ws_run_ok [OF new_queue_ok assms] obtain q where
    q: "ws_run es new_queue = Inr q" "queue_ok q" "mset (map Some (written q)) + mset (mq q) = mset (sends es)"
    by (auto simp: new_queue_def)
  moreover have "pending q = None \<longleftrightarrow> mq q = []" using q(2) by (auto simp: queue_ok_def split: option.splits)
  ultimately show ?thesis using ws_drain [OF q(2)] by auto
qed

theorem ws_queue_conserves_witness:
  "\<exists>q. ws_run [Ev_send (Some ''a''), Ev_send (Some ''b''), Ev_done] new_queue = Inr q \<and>
     mset (map Some (written q)) + mset (mq q) = {#Some ''a'', Some ''b''#}"
  using ws_queue_conserves [of "[Ev_send (Some ''a''), Ev_send (Some ''b''), Ev_done]"] by auto

text \<open>
  Messages can overtake each other. Four messages are handed to a connection in order, the
  fourth after the first has been written; the peer receives the fourth before the third.
\<close>

theorem ws_queue_not_fifo:
  "\<exists>q. ws_run [Ev_send (Some ''1''), Ev_send (Some ''2''), Ev_send (Some ''3''), Ev_done,
       Ev_send (Some ''4''), Ev_done, Ev_done, Ev_done] new_queue = Inr q \<and>
     written q = [''1'', ''2'', ''4'', ''3'']"
  by (simp add: new_queue_def ws_do_send_def ws_do_write_def ws_write_done_def ws_on_write_def
      swap_pop_def swap_elems_def Let_def)

text \<open>
  A value that does not fit the buffer of \<^verbatim>\<open>make_message\<close> is not refused: it becomes a null
  message, and writing it reads through a null pointer.
\<close>

theorem oversize_json_null_write:
  assumes "queue_ok q" and "ws_open q" and "mq q = []" and "snd (env_sr E jv 16384) = False"
  shows "make_message (env_sr E) jv = None \<and> ws_send_json E jv q = Inl Undefined"
proof -
  from assms(1,3) have "pending q = None" by (auto simp: queue_ok_def split: option.splits)
  with assms show ?thesis
    by (simp add: ws_send_json_def ws_do_send_def ws_do_write_def make_message_def case_prod_beta)
qed

theorem oversize_json_null_write_witness:
  "ws_send_json \<lparr>env_sr = (\<lambda>j n. (replicate n CHR ''x'', False)), env_number_cast = (\<lambda>_. Inl System_error)\<rparr>
     JNull new_queue = Inl Undefined"
  using oversize_json_null_write [OF new_queue_ok,
      of "\<lparr>env_sr = (\<lambda>j n. (replicate n CHR ''x'', False)), env_number_cast = (\<lambda>_. Inl System_error)\<rparr>" JNull]
  by (simp add: new_queue_def)

end
