(* ===== verification/Logger.thy ===== *)
theory Logger
  imports Lounge_Prelude "HOL-Library.Char_ord" "HOL-Library.List_Lexorder"
begin

text \<open>
  The log of the server (\<^verbatim>\<open>server/core/logger.hpp\<close>, \<^verbatim>\<open>server/core/logger.cpp\<close>): named sections, each with
  a threshold, that write lines to the error device and to a file. What the file's \<^verbatim>\<open>open\<close> and
  \<^verbatim>\<open>write\<close> report belongs to the system and is an argument.
\<close>

section \<open>The code\<close>

record section_impl =
  sec_name :: string
  thresh :: int

text \<open>
  \<open>sections\<close> is the ordered set of the sections. \<open>log_file\<close> is what has reached the file, or \<open>None\<close> while
  no file is open.
\<close>

record logger_impl =
  cerr_out :: string
  cfg_path :: string
  log_file :: "string option"
  sections :: "section_impl list"

definition make_logger :: logger_impl where
  "make_logger = \<lparr>cerr_out = [], cfg_path = [], log_file = None, sections = []\<rparr>"

definition new_section :: "string \<Rightarrow> section_impl" where
  "new_section name = \<lparr>sec_name = name, thresh = 0\<rparr>"

fun emplace_section :: "section_impl \<Rightarrow> section_impl list \<Rightarrow> section_impl list" where
  "emplace_section s [] = [s]"
| "emplace_section s (t # ts) =
     (if sec_name t < sec_name s then t # emplace_section s ts
      else if sec_name s < sec_name t then s # t # ts
      else t # ts)"

text \<open>The reference that is returned is the name, which identifies the node of the set.\<close>

definition get_section :: "string \<Rightarrow> logger_impl \<Rightarrow> string \<times> logger_impl" where
  "get_section name L = (name, L\<lparr>sections := emplace_section (new_section name) (sections L)\<rparr>)"

definition section_of :: "logger_impl \<Rightarrow> string \<Rightarrow> section_impl option" where
  "section_of L name = List.find (\<lambda>s. sec_name s = name) (sections L)"

text \<open>\<open>err\<close> is the message of the error that opening the file reports, if it does.\<close>

definition log_open :: "string option \<Rightarrow> string \<Rightarrow> logger_impl \<Rightarrow> bool \<times> logger_impl" where
  "log_open err path L =
     (let L1 = L\<lparr>cfg_path := path\<rparr> in
      case err of
        Some msg \<Rightarrow>
          (False, L1\<lparr>cerr_out := cerr_out L1 @ ''logger::open '' @ [CHR 0x22] @ path @ [CHR 0x22] @ '': '' @ msg @ [CHR 0x0A]\<rparr>)
      | None \<Rightarrow> (True, L1\<lparr>log_file := Some []\<rparr>))"

definition prepare :: "int \<Rightarrow> section_impl \<Rightarrow> string" where
  "prepare level s = sec_name s @ [CHR 0x09] @ int_to_string level @ [CHR 0x09]"

text \<open>\<open>stored\<close> says how many characters the write to the file stores; its error code is dropped.\<close>

definition log_do_write :: "nat \<Rightarrow> string \<Rightarrow> logger_impl \<Rightarrow> logger_impl" where
  "log_do_write stored s L =
     L\<lparr>cerr_out := cerr_out L @ s, log_file := map_option (\<lambda>f. f @ take stored s) (log_file L)\<rparr>"

definition section_write :: "nat \<Rightarrow> section_impl \<Rightarrow> int \<Rightarrow> string list \<Rightarrow> logger_impl \<Rightarrow> logger_impl" where
  "section_write stored s level args L = log_do_write stored (prepare level s @ concat args @ [CHR 0x0A]) L"

definition log_at_level :: "nat \<Rightarrow> string \<Rightarrow> int \<Rightarrow> string list \<Rightarrow> logger_impl \<Rightarrow> logger_impl" where
  "log_at_level stored name level args L =
     (case section_of L name of
        None \<Rightarrow> L
      | Some s \<Rightarrow> if level \<ge> thresh s then section_write stored s level args L else L)"

datatype severity = LOG_TRC | LOG_DBG | LOG_INF | LOG_WRN | LOG_ERR | LOG_FTL

fun severity_level :: "severity \<Rightarrow> int" where
  "severity_level LOG_TRC = 0"
| "severity_level LOG_DBG = 1"
| "severity_level LOG_INF = 2"
| "severity_level LOG_WRN = 3"
| "severity_level LOG_ERR = 4"
| "severity_level LOG_FTL = 0"

definition log_sev :: "nat \<Rightarrow> string \<Rightarrow> severity \<Rightarrow> string list \<Rightarrow> logger_impl \<Rightarrow> logger_impl" where
  "log_sev stored name sev args L = log_at_level stored name (severity_level sev) args L"

section \<open>The set of sections\<close>

definition sections_ok :: "logger_impl \<Rightarrow> bool" where
  "sections_ok L \<longleftrightarrow>
     sorted_wrt (<) (map sec_name (sections L)) \<and> list_all (\<lambda>s. thresh s = 0) (sections L)"

lemma emplace_names: "sec_name ` set (emplace_section s ts) = insert (sec_name s) (sec_name ` set ts)"
  by (induction s ts rule: emplace_section.induct) (auto simp: not_less antisym)

lemma emplace_sorted:
  "sorted_wrt (<) (map sec_name ts) \<Longrightarrow> sorted_wrt (<) (map sec_name (emplace_section s ts))"
proof (induction s ts rule: emplace_section.induct)
  case (2 s t ts)
  have "\<forall>n \<in> sec_name ` set (emplace_section s ts). sec_name t < n" if "sec_name t < sec_name s"
    using that "2.prems" by (simp add: emplace_names)
  with 2 show ?case by (auto dest: less_trans)
qed simp

lemma emplace_set: "set (emplace_section s ts) \<subseteq> insert s (set ts)"
  by (induction s ts rule: emplace_section.induct) auto

lemma emplace_keeps: "set ts \<subseteq> set (emplace_section s ts)"
  by (induction s ts rule: emplace_section.induct) auto

lemma emplace_present:
  assumes "sorted_wrt (<) (map sec_name ts)" and "sec_name s \<in> sec_name ` set ts"
  shows "emplace_section s ts = ts"
  using assms by (induction s ts rule: emplace_section.induct) auto

lemma get_section_ok:
  assumes "sections_ok L"
  shows "sections_ok (snd (get_section name L))"
  using assms emplace_set [of "new_section name" "sections L"]
  by (auto simp: sections_ok_def get_section_def emplace_sorted list_all_iff new_section_def)

lemma section_of_ok:
  assumes "sections_ok L" and "name \<in> sec_name ` set (sections L)"
  shows "section_of L name = Some (new_section name)"
proof -
  from assms(2) have "section_of L name \<noteq> None" by (auto simp: section_of_def find_None_iff)
  then obtain s where s: "section_of L name = Some s" by auto
  then have "s \<in> set (sections L)" "sec_name s = name" by (auto simp: section_of_def find_Some_iff)
  with assms(1) have "thresh s = 0" "sec_name s = name" by (auto simp: sections_ok_def list_all_iff)
  with s show ?thesis by (simp add: new_section_def)
qed

fun get_sections :: "string list \<Rightarrow> logger_impl \<Rightarrow> logger_impl" where
  "get_sections [] L = L"
| "get_sections (n # ns) L = get_sections ns (snd (get_section n L))"

lemma get_section_names:
  "sec_name ` set (sections (snd (get_section n L))) = insert n (sec_name ` set (sections L))"
  by (simp add: get_section_def emplace_names new_section_def)

lemma get_sections_ok:
  assumes "sections_ok L"
  shows "sections_ok (get_sections ns L)"
    "sec_name ` set (sections (get_sections ns L)) = set ns \<union> sec_name ` set (sections L)"
  using assms by (induction ns arbitrary: L) (simp_all add: get_section_ok get_section_names)

lemma make_logger_ok: "sections_ok make_logger" "sections make_logger = []"
  by (simp_all add: sections_ok_def make_logger_def)

lemma log_at_level_line:
  assumes "sections_ok L" and "name \<in> sec_name ` set (sections L)" and "0 \<le> level"
  shows "cerr_out (log_at_level stored name level args L) =
    cerr_out L @ name @ [CHR 0x09] @ int_to_string level @ [CHR 0x09] @ concat args @ [CHR 0x0A]"
  using section_of_ok [OF assms(1,2)] assms(3)
  by (simp add: log_at_level_def section_write_def log_do_write_def prepare_def new_section_def)

section \<open>Properties\<close>

text \<open>
  The sections are shared, and nothing is filtered. Whatever sections the components ask for,
  in whatever order and however often, there is one section of each name, asking again for one
  changes nothing, and every line that is logged through one of them, at any level, reaches the
  error device with the section's name and the level in front.
\<close>

theorem sections_shared_and_open:
  assumes "name \<in> set ns"
  shows "let L = get_sections ns make_logger in
    distinct (map sec_name (sections L)) \<and> set (map sec_name (sections L)) = set ns \<and>
    get_section name L = (name, L) \<and>
    cerr_out (log_sev stored name sev args L) =
      cerr_out L @ name @ [CHR 0x09] @ int_to_string (severity_level sev) @ [CHR 0x09] @ concat args @ [CHR 0x0A]"
proof -
  define L where "L = get_sections ns make_logger"
  have ok: "sections_ok L" and names: "sec_name ` set (sections L) = set ns"
    using get_sections_ok [OF make_logger_ok(1), of ns] make_logger_ok(2) by (simp_all add: L_def)
  have srt: "sorted_wrt (<) (map sec_name (sections L))" using ok by (simp add: sections_ok_def)
  have "get_section name L = (name, L)"
    using emplace_present [OF srt, of "new_section name"] names assms by (simp add: get_section_def new_section_def)
  moreover have "0 \<le> severity_level sev" by (cases sev) simp_all
  moreover have "distinct (map sec_name (sections L))" using srt by (simp add: strict_sorted_iff)
  ultimately show ?thesis
    using log_at_level_line [OF ok] names assms unfolding L_def [symmetric] by (simp add: Let_def log_sev_def)
qed

theorem sections_shared_and_open_witness:
  "get_section ''http_session'' (get_sections [''listener'', ''http_session'', ''listener''] make_logger) =
     (''http_session'', get_sections [''listener'', ''http_session'', ''listener''] make_logger)"
  using sections_shared_and_open [of "''http_session''" "[''listener'', ''http_session'', ''listener'']"]
  by (simp add: Let_def)

text \<open>A fatal line carries the level of a trace line, and no other severity does.\<close>

theorem fatal_logged_as_trace:
  "log_sev stored name LOG_FTL args L = log_sev stored name LOG_TRC args L \<and>
   (severity_level sev = 0 \<longleftrightarrow> sev = LOG_TRC \<or> sev = LOG_FTL)"
  by (cases sev) (simp_all add: log_sev_def)

section \<open>Errors of the network\<close>

text \<open>
  The error codes of the transport that the sessions tell apart, and what each kind of session logs
  when an operation fails: the severity and the name of the operation, if anything.
\<close>

datatype net_error = Operation_aborted | Stream_truncated | End_of_stream | Other_error

definition plain_fail :: "net_error \<Rightarrow> string \<Rightarrow> (severity \<times> string) list" where
  "plain_fail ec what = (if ec = Operation_aborted then [(LOG_TRC, what)] else [(LOG_INF, what)])"

definition ssl_fail :: "net_error \<Rightarrow> string \<Rightarrow> (severity \<times> string) list" where
  "ssl_fail ec what =
     (if ec = Stream_truncated then []
      else if ec = Operation_aborted then [(LOG_TRC, what)] else [(LOG_INF, what)])"

end
