(* ===== verification/Ws_Session.thy ===== *)
theory Ws_Session
  imports Lounge Ws_Queue Logger
begin

text \<open>
  The reading side of a connection in \<^verbatim>\<open>server/core/ws_user.cpp\<close>: a coroutine that reads a message,
  parses it, hands the request to the channel list and reads the next. The transport and the JSON
  parser are not part of the repository: what they deliver is an argument.
\<close>

section \<open>The code\<close>

datatype coro = Accepting | Reading | Finished

text \<open>
  \<open>msg_buf\<close> is the buffer \<^verbatim>\<open>msg_\<close>, \<open>read_max\<close> the limit that \<^verbatim>\<open>run\<close> sets for incoming messages and \<open>ws_log\<close>
  what the session has logged.
\<close>

record ws_reader =
  coro :: coro
  read_max :: nat
  msg_buf :: string
  ws_log :: "(severity \<times> string) list"

definition new_reader :: ws_reader where
  "new_reader = \<lparr>coro = Accepting, read_max = 64 * 1024, msg_buf = [], ws_log = []\<rparr>"

text \<open>
  The calls of \<^verbatim>\<open>fail\<close> in the coroutine are to the function of the base class for both kinds of
  session, since they are not made through \<^verbatim>\<open>impl()\<close> and the function is not virtual.
\<close>

definition ws_fail :: "net_error \<Rightarrow> string \<Rightarrow> ws_reader \<Rightarrow> ws_reader" where
  "ws_fail ec what s =
     s\<lparr>coro := Finished, ws_log := ws_log s @
       (if ec = Operation_aborted then [(LOG_TRC, what)] else [(LOG_INF, what)])\<rparr>"

text \<open>
  A resumption of the coroutine: \<open>ec\<close> is the error that the operation it waited for reports, if any,
  \<open>bytes\<close> is what a read put into the buffer, \<open>parse\<close> is \<^verbatim>\<open>json::parse\<close>. Leaving the body other than
  at a \<^verbatim>\<open>yield\<close> ends the coroutine.
\<close>

definition ws_resume ::
    "env \<Rightarrow> (string \<Rightarrow> json option) \<Rightarrow> uptr \<Rightarrow> net_error option \<Rightarrow> string \<Rightarrow> ws_reader \<Rightarrow>
     'a lounge_scheme \<Rightarrow> unit outcome \<times> ws_reader \<times> 'a lounge_scheme" where
  "ws_resume E parse u ec bytes s w =
     (case coro s of
        Finished \<Rightarrow> (Inr (), s, w)
      | Accepting \<Rightarrow>
          (case ec of
             Some e \<Rightarrow> (Inr (), ws_fail e ''async_accept'' s, w)
           | None \<Rightarrow> (Inr (), s\<lparr>coro := Reading\<rparr>, w))
      | Reading \<Rightarrow>
          (case ec of
             Some e \<Rightarrow> (Inr (), ws_fail e ''async_read'' s, w)
           | None \<Rightarrow>
               (let s1 = s\<lparr>msg_buf := msg_buf s @ bytes\<rparr> in
                case parse (msg_buf s1) of
                  None \<Rightarrow> (Inr (), ws_fail Other_error ''parse-json'' s1, w)
                | Some jv \<Rightarrow>
                    (case handle_json E u jv w of
                       (Inl e, w') \<Rightarrow> (Inl e, s1\<lparr>coro := Finished\<rparr>, w')
                     | (Inr _, w') \<Rightarrow> (Inr (), s1\<lparr>msg_buf := []\<rparr>, w')))))"

section \<open>A stream of messages\<close>

text \<open>The events of the transport, in order: an error or the bytes of one message.\<close>

type_synonym ws_input = "net_error option \<times> string"

fun ws_feed ::
    "env \<Rightarrow> (string \<Rightarrow> json option) \<Rightarrow> uptr \<Rightarrow> ws_input list \<Rightarrow> ws_reader \<Rightarrow>
     'a lounge_scheme \<Rightarrow> unit outcome \<times> ws_reader \<times> 'a lounge_scheme" where
  "ws_feed E parse u [] s w = (Inr (), s, w)"
| "ws_feed E parse u ((ec, bytes) # is) s w =
     (case ws_resume E parse u ec bytes s w of
        (Inl e, s', w') \<Rightarrow> (Inl e, s', w')
      | (Inr _, s', w') \<Rightarrow> ws_feed E parse u is s' w')"

text \<open>Requests that are handled one after the other, without a connection.\<close>

fun handle_all :: "env \<Rightarrow> uptr \<Rightarrow> json list \<Rightarrow> ('a lounge_scheme, unit) act" where
  "handle_all E u [] w = (Inr (), w)"
| "handle_all E u (jv # jvs) w =
     (case handle_json E u jv w of (Inl e, w') \<Rightarrow> (Inl e, w') | (Inr _, w') \<Rightarrow> handle_all E u jvs w')"

lemma feed_finished: "coro s = Finished \<Longrightarrow> ws_feed E parse u is s w = (Inr (), s, w)"
  by (induction "is") (auto simp: ws_resume_def)

lemma resume_message:
  assumes "coro s = Reading" and "msg_buf s = []" and "parse bytes = Some jv"
  shows "ws_resume E parse u None bytes s w =
    (case handle_json E u jv w of
       (Inl e, w') \<Rightarrow> (Inl e, s\<lparr>coro := Finished, msg_buf := bytes\<rparr>, w')
     | (Inr _, w') \<Rightarrow> (Inr (), s, w'))"
proof -
  have "s\<lparr>msg_buf := []\<rparr> = s" using assms(2) by simp
  with assms show ?thesis by (simp add: ws_resume_def split: prod.splits sum.splits)
qed

lemma feed_messages:
  assumes "coro s = Reading" and "msg_buf s = []" and "list_all2 (\<lambda>b jv. parse b = Some jv) bs jvs"
    and "handle_all E u jvs w = (Inr (), w')"
  shows "ws_feed E parse u (map (Pair None) bs @ is) s w = ws_feed E parse u is s w'"
  using assms(3,4)
proof (induction bs arbitrary: jvs w)
  case (Cons b bs)
  then obtain jv js where "jvs = jv # js" "parse b = Some jv" "list_all2 (\<lambda>b jv. parse b = Some jv) bs js"
    by (auto simp: list_all2_Cons1)
  moreover from this Cons.prems(2) obtain w1 where "handle_json E u jv w = (Inr (), w1)" "handle_all E u js w1 = (Inr (), w')"
    by (auto split: prod.splits sum.splits)
  ultimately show ?case using Cons.IH assms(1,2) by (simp add: resume_message)
qed simp

text \<open>The requests that the channel list can look up.\<close>

definition castable :: "env \<Rightarrow> json \<Rightarrow> bool" where
  "castable E jv \<longleftrightarrow>
     (\<forall>ps j. member_of jv ''params'' = Some ps \<longrightarrow> member_of ps ''cid'' = Some j \<longrightarrow>
        env_number_cast E j \<noteq> Inl System_error)"

lemma handle_all_reaches:
  assumes "lounge_ok s w0" and "three_channels cs cr ct s" and nc: "number_cast_ok (env_number_cast E)"
    and "lounge_reach E ct w0 w" and "u \<in> dom (usrs w)" and "list_all (castable E) jvs"
  shows "\<exists>w'. handle_all E u jvs w = (Inr (), w') \<and> lounge_reach E ct w0 w' \<and> u \<in> dom (usrs w')"
  using assms(4-6)
proof (induction jvs arbitrary: w)
  case (Cons jv jvs)
  have ok: "lounge_ok s w" by (rule reach_ok [OF Cons.prems(1) assms(1)])
  from handle_json_outcome [OF ok assms(2) Cons.prems(2) nc, of jv] Cons.prems(3)
  obtain w1 where w1: "handle_json E u jv w = (Inr (), w1)"
    by (cases "handle_json E u jv w") (auto simp: castable_def)
  from handle_json_ok(2) [OF ok Cons.prems(2), of E jv] w1 have "u \<in> dom (usrs w1)" by simp
  with Cons.IH [OF lounge_reach.request [OF Cons.prems(1,2) w1]] Cons.prems(3) w1 show ?case by simp
qed auto

section \<open>Properties\<close>

text \<open>
  C16: a connection serves its messages one by one, whatever their number. In a reachable state of
  the server, with the coroutine waiting for a read, every sequence of messages that parse (and
  whose channel ids convert) has exactly the effect of handling the parsed values in order; the
  buffer is empty again for every read, so that no message sees bytes of another; the server is
  again in a reachable state, and what follows on the connection finds the coroutine as it was.
  An error or a message that does not parse ends the session, and nothing after it has an effect.
\<close>

theorem session_serves_stream:
  assumes "distinct [cr, cs, ct]" and "server_boot cr cs ct mem (boot_world g0 rnd) = (Inr (), w0)"
    and "lounge_reach E ct w0 w" and "u \<in> dom (usrs w)" and "number_cast_ok (env_number_cast E)"
    and "coro s = Reading" and "msg_buf s = []"
    and "list_all2 (\<lambda>b jv. parse b = Some jv) bs jvs" and "list_all (castable E) jvs"
  shows "\<exists>w'. handle_all E u jvs w = (Inr (), w') \<and> lounge_reach E ct w0 w' \<and>
    (\<forall>is. ws_feed E parse u (map (Pair None) bs @ is) s w = ws_feed E parse u is s w') \<and>
    (\<forall>e x is. ws_feed E parse u (map (Pair None) bs @ (Some e, x) # is) s w =
       (Inr (), ws_fail e ''async_read'' s, w')) \<and>
    (\<forall>x is. parse x = None \<longrightarrow> ws_feed E parse u (map (Pair None) bs @ (None, x) # is) s w =
       (Inr (), ws_fail Other_error ''parse-json'' (s\<lparr>msg_buf := x\<rparr>), w'))"
proof -
  from boot_ok [OF assms(1), of mem g0 rnd] assms(2)
  have b: "lounge_ok (static w0) w0" "three_channels cs cr ct (static w0)" by auto
  from handle_all_reaches [OF b assms(5,3,4,9)] obtain w' where
    w': "handle_all E u jvs w = (Inr (), w')" "lounge_reach E ct w0 w'" by blast
  note f = feed_messages [OF assms(6-8) w'(1)]
  have "ws_feed E parse u ((Some e, x) # is) s w' = (Inr (), ws_fail e ''async_read'' s, w')" for e x "is"
    using assms(6) by (simp add: ws_resume_def feed_finished ws_fail_def)
  moreover have "ws_feed E parse u ((None, x) # is) s w' =
      (Inr (), ws_fail Other_error ''parse-json'' (s\<lparr>msg_buf := x\<rparr>), w')" if "parse x = None" for x "is"
    using assms(6,7) that by (simp add: ws_resume_def feed_finished ws_fail_def)
  ultimately show ?thesis using w' f by (intro exI [of _ w']) (simp only: f, simp)
qed

theorem session_serves_stream_witness:
  "\<exists>w'. ws_feed sample_env (\<lambda>b. if b = ''[]'' then Some (JArr []) else None) 1
      [(None, ''[]''), (None, ''[]''), (None, ''x''), (None, ''[]'')] (new_reader\<lparr>coro := Reading\<rparr>) sample_live =
    (Inr (), ws_fail Other_error ''parse-json'' (new_reader\<lparr>coro := Reading, msg_buf := ''x''\<rparr>), w')"
proof -
  have c: "castable sample_env (JArr [])" by (simp add: castable_def)
  show ?thesis
    using session_serves_stream [OF _ sample_boot_eq sample_live_ok(1) _ sample_env_cast, of 1
        "new_reader\<lparr>coro := Reading\<rparr>" "\<lambda>b. if b = ''[]'' then Some (JArr []) else None"
        "[''[]'', ''[]'']" "[JArr [], JArr []]"] c sample_live_ok(2)
    by (auto simp: new_reader_def)
qed

text \<open>
  A TLS peer that closes without the closing handshake is logged by the coroutine as a failure,
  although the session's own \<^verbatim>\<open>fail\<close> would ignore it.
\<close>

theorem truncation_logged:
  "ws_log (ws_fail Stream_truncated what s) = ws_log s @ [(LOG_INF, what)] \<and> ssl_fail Stream_truncated what = []"
  by (simp add: ws_fail_def ssl_fail_def)

end
