(* ===== verification/Http_Request.thy ===== *)
theory Http_Request
  imports Lounge_Prelude "HOL-Library.Sublist"
begin

text \<open>
  The answer to an HTTP request (\<^verbatim>\<open>mime_type\<close>, \<^verbatim>\<open>path_cat\<close> and \<^verbatim>\<open>handle_request\<close> of
  \<^verbatim>\<open>server/core/http_session.cpp\<close>). The file system, the case-insensitive comparison and the version
  string of the HTTP library are arguments.
\<close>

section \<open>The code\<close>

datatype verb = Get | Head | Other_verb

text \<open>A request as the parser delivers it; \<open>upgrade\<close> is \<^verbatim>\<open>websocket::is_upgrade\<close> of it.\<close>

record http_request =
  req_method :: verb
  target :: string
  req_version :: nat
  req_keep_alive :: bool
  upgrade :: bool

datatype http_body = String_body string | Empty_body | File_body string nat

record http_response =
  status :: nat
  res_version :: nat
  server_field :: string
  content_type :: string
  content_length :: nat
  res_keep_alive :: bool
  body :: http_body

datatype open_result = No_such_file | Open_error string | Opened nat

record http_env =
  doc_root :: string
  msvc :: bool
  version_string :: string
  iequals :: "string \<Rightarrow> string \<Rightarrow> bool"
  file_open :: "string \<Rightarrow> open_result"

text \<open>\<^verbatim>\<open>path.rfind(".")\<close>\<close>

fun rfind :: "char \<Rightarrow> string \<Rightarrow> nat option" where
  "rfind c [] = None"
| "rfind c (x # xs) =
     (case rfind c xs of Some i \<Rightarrow> Some (Suc i) | None \<Rightarrow> if x = c then Some 0 else None)"

definition ext_of :: "string \<Rightarrow> string" where
  "ext_of path = (case rfind CHR ''.'' path of None \<Rightarrow> [] | Some pos \<Rightarrow> drop pos path)"

definition mime_table :: "(string \<times> string) list" where
  "mime_table =
     [(''.htm'', ''text/html''), (''.html'', ''text/html''), (''.php'', ''text/html''),
      (''.css'', ''text/css''), (''.txt'', ''text/plain''), (''.js'', ''application/javascript''),
      (''.json'', ''application/json''), (''.xml'', ''application/xml''),
      (''.swf'', ''application/x-shockwave-flash''), (''.flv'', ''video/x-flv''),
      (''.png'', ''image/png''), (''.jpe'', ''image/jpeg''), (''.jpeg'', ''image/jpeg''),
      (''.jpg'', ''image/jpeg''), (''.gif'', ''image/gif''), (''.bmp'', ''image/bmp''),
      (''.ico'', ''image/vnd.microsoft.icon''), (''.tiff'', ''image/tiff''), (''.tif'', ''image/tiff''),
      (''.svg'', ''image/svg+xml''), (''.svgz'', ''image/svg+xml'')]"

definition mime_type :: "http_env \<Rightarrow> string \<Rightarrow> string" where
  "mime_type E path =
     (case List.find (\<lambda>p. iequals E (ext_of path) (fst p)) mime_table of
        Some p \<Rightarrow> snd p
      | None \<Rightarrow> ''application/text'')"

definition path_separator :: "http_env \<Rightarrow> char" where
  "path_separator E = (if msvc E then CHR 0x5C else CHR ''/'')"

definition normalized :: "http_env \<Rightarrow> string \<Rightarrow> string" where
  "normalized E s = (if msvc E then map (\<lambda>c. if c = CHR ''/'' then CHR 0x5C else c) s else s)"

definition path_cat :: "http_env \<Rightarrow> string \<Rightarrow> string \<Rightarrow> string" where
  "path_cat E base path =
     (if base = [] then path
      else normalized E ((if last base = path_separator E then butlast base else base) @ path))"

text \<open>\<^verbatim>\<open>target.find("..") != npos\<close>\<close>

fun has_dotdot :: "string \<Rightarrow> bool" where
  "has_dotdot (a # b # cs) \<longleftrightarrow> (a = CHR ''.'' \<and> b = CHR ''.'') \<or> has_dotdot (b # cs)"
| "has_dotdot _ \<longleftrightarrow> False"

text \<open>The three responses with a text, which differ in the status and the text.\<close>

definition text_response :: "http_env \<Rightarrow> http_request \<Rightarrow> nat \<Rightarrow> string \<Rightarrow> http_response" where
  "text_response E req st txt =
     \<lparr>status = st, res_version = req_version req, server_field = version_string E,
      content_type = ''text/html'', content_length = length txt, res_keep_alive = req_keep_alive req,
      body = String_body txt\<rparr>"

definition bad_request :: "http_env \<Rightarrow> http_request \<Rightarrow> string \<Rightarrow> http_response" where
  "bad_request E req why = text_response E req 400 why"

definition not_found :: "http_env \<Rightarrow> http_request \<Rightarrow> string \<Rightarrow> http_response" where
  "not_found E req tgt = text_response E req 404 (''The resource '' @ [CHR 0x27] @ tgt @ [CHR 0x27] @ '' was not found.'')"

definition server_error :: "http_env \<Rightarrow> http_request \<Rightarrow> string \<Rightarrow> http_response" where
  "server_error E req what = text_response E req 500 (''An error occurred: '' @ [CHR 0x27] @ what @ [CHR 0x27])"

text \<open>The file system gets the characters before the first null character.\<close>

definition c_str :: "string \<Rightarrow> string" where
  "c_str s = takeWhile (\<lambda>c. c \<noteq> CHR 0x00) s"

text \<open>\<open>handle_request\<close> gives the path that it tries to open, if any, and the response that it sends.\<close>

definition handle_request :: "http_env \<Rightarrow> http_request \<Rightarrow> string option \<times> http_response" where
  "handle_request E req =
     (if req_method req \<noteq> Get \<and> req_method req \<noteq> Head then
        (None, bad_request E req ''Unknown HTTP-method'')
      else if target req = [] \<or> hd (target req) \<noteq> CHR ''/'' \<or> has_dotdot (target req) then
        (None, bad_request E req ''Illegal request-target'')
      else
        (let path0 = path_cat E (doc_root E) (target req);
             path = (if last (target req) = CHR ''/'' then path0 @ ''index.html'' else path0)
         in (Some (c_str path),
             case file_open E (c_str path) of
               No_such_file \<Rightarrow> not_found E req (target req)
             | Open_error msg \<Rightarrow> server_error E req msg
             | Opened n \<Rightarrow>
                 \<lparr>status = 200, res_version = req_version req, server_field = version_string E,
                  content_type = mime_type E path, content_length = n,
                  res_keep_alive = req_keep_alive req,
                  body = (if req_method req = Head then Empty_body else File_body (c_str path) n)\<rparr>)))"

section \<open>Paths\<close>

lemma has_dotdot_iff: "has_dotdot s \<longleftrightarrow> sublist ''..'' s"
  by (induction s rule: has_dotdot.induct) (auto simp: sublist_Cons_right)

text \<open>
  What a path means to a file system, as far as its text says: its components between separators,
  and the depth that walking along them reaches, or \<open>None\<close> when a component leads above the start.
\<close>

fun path_parts :: "char \<Rightarrow> string \<Rightarrow> string list" where
  "path_parts sep [] = [[]]"
| "path_parts sep (c # cs) =
     (if c = sep then [] # path_parts sep cs
      else case path_parts sep cs of [] \<Rightarrow> [[c]] | p # ps \<Rightarrow> (c # p) # ps)"

fun walk_depth :: "nat \<Rightarrow> string list \<Rightarrow> nat option" where
  "walk_depth d [] = Some d"
| "walk_depth d (p # ps) =
     (if p = [] \<or> p = ''.'' then walk_depth d ps
      else if p = ''..'' then (if d = 0 then None else walk_depth (d - 1) ps)
      else walk_depth (Suc d) ps)"

lemma path_parts_sublist: "p \<in> set (path_parts sep s) \<Longrightarrow> sublist p s"
  and path_parts_hd: "prefix (hd (path_parts sep s)) s" and path_parts_ne: "path_parts sep s \<noteq> []"
proof -
  have "path_parts sep s \<noteq> [] \<and> prefix (hd (path_parts sep s)) s \<and> (\<forall>p \<in> set (path_parts sep s). sublist p s)"
    by (induction s) (auto split: list.splits simp: sublist_Cons_right)
  then show "p \<in> set (path_parts sep s) \<Longrightarrow> sublist p s" "prefix (hd (path_parts sep s)) s" "path_parts sep s \<noteq> []"
    by auto
qed

lemma walk_depth_defined: "''..'' \<notin> set ps \<Longrightarrow> walk_depth d ps \<noteq> None"
  by (induction ps arbitrary: d) auto

lemma no_dotdot_walks: "\<not> has_dotdot s \<Longrightarrow> walk_depth d (path_parts sep s) \<noteq> None"
  by (rule walk_depth_defined) (auto simp: has_dotdot_iff dest: path_parts_sublist)

lemma has_dotdot_map:
  assumes "\<And>c. c \<in> set s \<Longrightarrow> f c = CHR ''.'' \<longleftrightarrow> c = CHR ''.''"
  shows "has_dotdot (map f s) \<longleftrightarrow> has_dotdot s"
  using assms by (induction s rule: has_dotdot.induct) auto

lemma normalized_dotdot: "has_dotdot (normalized E s) \<longleftrightarrow> has_dotdot s"
  by (simp add: normalized_def has_dotdot_map)

lemma normalized_append: "normalized E (s @ t) = normalized E s @ normalized E t"
  by (simp add: normalized_def)

lemma has_dotdot_append:
  assumes "t = [] \<or> hd t \<noteq> CHR ''.''"
  shows "has_dotdot (s @ t) \<longleftrightarrow> has_dotdot s \<or> has_dotdot t"
proof (induction s)
  case (Cons x s)
  with assms show ?case by (cases s; cases t) auto
qed simp

definition root_dir :: "http_env \<Rightarrow> string" where
  "root_dir E =
     (if doc_root E = [] then []
      else normalized E (if last (doc_root E) = path_separator E then butlast (doc_root E) else doc_root E))"

lemma path_cat_root:
  "path_cat E (doc_root E) tgt = root_dir E @ (if doc_root E = [] then tgt else normalized E tgt)"
  by (simp add: path_cat_def root_dir_def normalized_append)

lemma root_dir_no_null: "CHR 0x00 \<notin> set (doc_root E) \<Longrightarrow> CHR 0x00 \<notin> set (root_dir E)"
  by (auto simp: root_dir_def normalized_def dest: in_set_butlastD split: if_splits)

lemma c_str_append: "CHR 0x00 \<notin> set s \<Longrightarrow> c_str (s @ t) = s @ c_str t"
  unfolding c_str_def by (rule takeWhile_append2) auto

lemma c_str_dotdot: "\<not> has_dotdot s \<Longrightarrow> \<not> has_dotdot (c_str s)"
  by (metis c_str_def has_dotdot_iff sublist_order.order_trans sublist_takeWhile)

lemma normalized_Cons: "normalized E (c # s) = (if c = CHR ''/'' then path_separator E else c) # normalized E s"
  by (simp add: normalized_def path_separator_def)

lemma legal_target:
  "target req = [] \<or> hd (target req) \<noteq> CHR ''/'' \<or> has_dotdot (target req) \<longleftrightarrow>
   \<not> prefix ''/'' (target req) \<or> sublist ''..'' (target req)"
  by (cases "target req") (auto simp: has_dotdot_iff)

text \<open>The two outcomes of \<open>handle_request\<close>: a refusal, or the answer to opening one path.\<close>

definition request_path :: "http_env \<Rightarrow> string \<Rightarrow> string" where
  "request_path E tgt =
     (if last tgt = CHR ''/'' then path_cat E (doc_root E) tgt @ ''index.html'' else path_cat E (doc_root E) tgt)"

definition file_response :: "http_env \<Rightarrow> http_request \<Rightarrow> string \<Rightarrow> open_result \<Rightarrow> http_response" where
  "file_response E req path r =
     (case r of
        No_such_file \<Rightarrow> not_found E req (target req)
      | Open_error msg \<Rightarrow> server_error E req msg
      | Opened n \<Rightarrow>
          \<lparr>status = 200, res_version = req_version req, server_field = version_string E,
           content_type = mime_type E path, content_length = n, res_keep_alive = req_keep_alive req,
           body = (if req_method req = Head then Empty_body else File_body (c_str path) n)\<rparr>)"

lemma handle_request_eq:
  "handle_request E req =
     (if req_method req = Other_verb then (None, bad_request E req ''Unknown HTTP-method'')
      else if \<not> prefix ''/'' (target req) \<or> sublist ''..'' (target req)
      then (None, bad_request E req ''Illegal request-target'')
      else let p = request_path E (target req) in
        (Some (c_str p), file_response E req p (file_open E (c_str p))))"
  unfolding legal_target [symmetric]
  by (cases "req_method req") (simp_all add: handle_request_def Let_def request_path_def file_response_def)

lemmas response_defs = bad_request_def not_found_def server_error_def text_response_def file_response_def

lemma head_of_get:
  "snd (handle_request E (req\<lparr>req_method := Head\<rparr>)) =
     (let g = snd (handle_request E (req\<lparr>req_method := Get\<rparr>)) in
      if status g = 200 then g\<lparr>body := Empty_body\<rparr> else g)"
proof (cases "\<not> prefix ''/'' (target req) \<or> sublist ''..'' (target req)")
  case True
  then show ?thesis by (simp add: handle_request_eq response_defs)
next
  case False
  then show ?thesis
    by (cases "file_open E (c_str (request_path E (target req)))")
      (simp_all add: handle_request_eq response_defs Let_def)
qed

subsection \<open>The type of a file\<close>

text \<open>What the HTTP library documents of \<^verbatim>\<open>iequals\<close>: equality up to the case of ASCII letters.\<close>

definition ascii_lower :: "char \<Rightarrow> char" where
  "ascii_lower c = (let n = of_char c :: nat in if 65 \<le> n \<and> n \<le> 90 then char_of (n + 32) else c)"

definition iequals_ok :: "http_env \<Rightarrow> bool" where
  "iequals_ok E \<longleftrightarrow> (\<forall>a b. iequals E a b \<longleftrightarrow> map ascii_lower a = map ascii_lower b)"

lemma ascii_lower_dot: "ascii_lower c = CHR ''.'' \<longleftrightarrow> c = CHR ''.''"
proof
  assume a: "ascii_lower c = CHR ''.''"
  show "c = CHR ''.''"
  proof (cases "65 \<le> (of_char c :: nat) \<and> (of_char c :: nat) \<le> 90")
    case True
    with a have "char_of (of_char c + 32 :: nat) = CHR ''.''" by (simp add: ascii_lower_def Let_def)
    then have "of_char (char_of (of_char c + 32 :: nat)) = (46 :: nat)" by simp
    with True show ?thesis by simp
  next
    case False
    then have "ascii_lower c = c" unfolding ascii_lower_def Let_def by (rule if_not_P)
    with a show ?thesis by simp
  qed
qed (simp add: ascii_lower_def)

lemma rfind_None: "rfind c xs = None \<longleftrightarrow> c \<notin> set xs"
  by (induction xs) (auto split: option.splits)

lemma rfind_last: "c \<notin> set ys \<Longrightarrow> rfind c (xs @ c # ys) = Some (length xs)"
  by (induction xs) (auto simp: rfind_None split: option.splits)

lemma find_fst: "map_option snd (List.find (\<lambda>p. fst p = k) xs) = map_of xs k"
  by (induction xs) auto

lemma mime_table_facts:
  "distinct (map fst mime_table)" "list_all (\<lambda>p. map ascii_lower (fst p) = fst p) mime_table"
  "list_all (\<lambda>p. prefix ''.'' (fst p) \<and> CHR ''.'' \<notin> set (tl (fst p))) mime_table"
  by code_simp+

section \<open>Properties\<close>

text \<open>
  C17: no request reaches a file outside the document root, whose name has no NUL. Whatever the request, the path that is
  handed to the file system is the document root followed by a separator and a relative path
  without two adjacent dots, so that walking along its components, whatever the separator, never
  leads above the root.
\<close>

theorem served_path_below_root:
  assumes "CHR 0x00 \<notin> set (doc_root E)" and "fst (handle_request E req) = Some p"
  shows "\<exists>c rel. p = root_dir E @ c # rel \<and> c \<in> {CHR ''/'', path_separator E} \<and> \<not> has_dotdot (c # rel) \<and>
    (\<forall>sep d. walk_depth d (path_parts sep (c # rel)) \<noteq> None)"
proof -
  from assms(2) have t: "prefix ''/'' (target req)" "\<not> has_dotdot (target req)" and
    p0: "p = c_str (request_path E (target req))"
    by (simp_all add: handle_request_eq Let_def has_dotdot_iff split: if_splits)
  define tgt where "tgt = (if doc_root E = [] then target req else normalized E (target req))"
  define tl where "tl = (if last (target req) = CHR ''/'' then ''index.html'' else [])"
  have p: "p = root_dir E @ c_str (tgt @ tl)"
    using p0 c_str_append [OF root_dir_no_null [OF assms(1)]]
    by (simp add: request_path_def path_cat_root tgt_def tl_def)
  obtain rest where rest: "target req = CHR ''/'' # rest" using t(1) by (cases "target req") auto
  obtain c r where cr: "tgt @ tl = c # r" "c \<in> {CHR ''/'', path_separator E}"
    by (cases "doc_root E = []") (auto simp: tgt_def normalized_Cons rest)
  have nd: "\<not> has_dotdot (tgt @ tl)"
    using t(2) by (auto simp: has_dotdot_append tl_def tgt_def normalized_dotdot)
  have "c \<noteq> CHR 0x00" using cr(2) by (auto simp: path_separator_def split: if_splits)
  then have cs: "c_str (tgt @ tl) = c # c_str r" by (simp add: cr(1) c_str_def)
  then have "\<not> has_dotdot (c # c_str r)" using c_str_dotdot [OF nd] by simp
  with p cs cr(2) no_dotdot_walks show ?thesis by metis
qed

text \<open>An environment whose only file is \<^verbatim>\<open>/www/index.html\<close>.\<close>

definition sample_http :: http_env where
  "sample_http =
     \<lparr>doc_root = ''/www/'', msvc = False, version_string = ''Boost.Beast'', iequals = (=),
      file_open = (\<lambda>p. if p = ''/www/index.html'' then Opened 10 else No_such_file)\<rparr>"

definition get_root :: http_request where
  "get_root = \<lparr>req_method = Get, target = ''/'', req_version = 11, req_keep_alive = True, upgrade = False\<rparr>"

theorem served_path_below_root_witness:
  "fst (handle_request sample_http get_root) = Some ''/www/index.html'' \<and>
   (\<exists>c rel. ''/www/index.html'' = root_dir sample_http @ c # rel \<and> walk_depth 0 (path_parts CHR ''/'' (c # rel)) \<noteq> None)"
proof -
  have p: "fst (handle_request sample_http get_root) = Some ''/www/index.html''" by code_simp
  have n: "CHR 0x00 \<notin> set (doc_root sample_http)" by (simp add: sample_http_def)
  from served_path_below_root [OF n p] obtain c rel where
    c: "''/www/index.html'' = root_dir sample_http @ c # rel"
      "\<forall>sep d. walk_depth d (path_parts sep (c # rel)) \<noteq> None" by blast
  from c(2) have "walk_depth 0 (path_parts CHR ''/'' (c # rel)) \<noteq> None" by blast
  with p c(1) show ?thesis by blast
qed

text \<open>
  C33: every request gets one response, with the version and the connection option of the request
  and the length of what is sent; it is a bad request exactly when the method is neither \<^verbatim>\<open>GET\<close> nor
  \<^verbatim>\<open>HEAD\<close> or the target is not an absolute path without two adjacent dots, and then no file is
  touched; otherwise its status is that of opening the file. A \<^verbatim>\<open>HEAD\<close> gets what a \<^verbatim>\<open>GET\<close> would get
  without the file; its refusals, however, carry a text as body.
\<close>

theorem response_fits_request:
  "let (opened, res) = handle_request E req in
     res_version res = req_version req \<and> res_keep_alive res = req_keep_alive req \<and>
     (case body res of String_body s \<Rightarrow> content_length res = length s
      | File_body f n \<Rightarrow> content_length res = n \<and> opened = Some f
      | Empty_body \<Rightarrow> req_method req = Head) \<and>
     (status res = 400 \<longleftrightarrow> opened = None) \<and>
     (opened \<noteq> None \<longleftrightarrow> req_method req \<in> {Get, Head} \<and> prefix ''/'' (target req) \<and> \<not> sublist ''..'' (target req)) \<and>
     (case opened of
        None \<Rightarrow> True
      | Some p \<Rightarrow> status res =
          (case file_open E p of No_such_file \<Rightarrow> 404 | Open_error _ \<Rightarrow> 500 | Opened _ \<Rightarrow> 200)) \<and>
     snd (handle_request E (req\<lparr>req_method := Head\<rparr>)) =
       (let g = snd (handle_request E (req\<lparr>req_method := Get\<rparr>)) in
        if status g = 200 then g\<lparr>body := Empty_body\<rparr> else g)"
proof (cases "req_method req = Other_verb \<or> \<not> prefix ''/'' (target req) \<or> sublist ''..'' (target req)")
  case True
  then have "handle_request E req = (None, text_response E req 400
      (if req_method req = Other_verb then ''Unknown HTTP-method'' else ''Illegal request-target''))"
    by (auto simp: handle_request_eq bad_request_def)
  with True show ?thesis by (auto simp: head_of_get text_response_def)
next
  case False
  let ?p = "request_path E (target req)"
  have h: "handle_request E req = (Some (c_str ?p), file_response E req ?p (file_open E (c_str ?p)))"
    using False by (simp add: handle_request_eq Let_def)
  from False have "req_method req = Get \<or> req_method req = Head" by (cases "req_method req") auto
  then show ?thesis using False unfolding h head_of_get
    by (cases "file_open E (c_str ?p)") (auto simp: response_defs)
qed

text \<open>
  The type of a file follows from its extension alone: a name that ends in one of the known
  extensions, in whatever mixture of upper and lower case, has the type of that extension.
\<close>

theorem mime_by_extension:
  assumes "iequals_ok E" and "(ext, t) \<in> set mime_table" and "map ascii_lower x = ext"
  shows "mime_type E (name @ x) = t"
proof -
  have ext: "prefix ''.'' ext" "CHR ''.'' \<notin> set (tl ext)"
    using mime_table_facts(3) assms(2) by (auto simp: list_all_iff)
  then obtain a y where "x = a # y" "ascii_lower a = CHR ''.''" using assms(3) by (cases x) auto
  then have x: "x = CHR ''.'' # y" by (simp only: ascii_lower_dot)
  have "CHR ''.'' \<notin> set y"
  proof
    assume "CHR ''.'' \<in> set y"
    then have "ascii_lower CHR ''.'' \<in> set (map ascii_lower y)" by simp
    with ext(2) assms(3) show False by (auto simp: x ascii_lower_dot [THEN iffD2])
  qed
  then have "ext_of (name @ x) = x" by (simp add: ext_of_def x rfind_last)
  moreover have "iequals E x (fst p) \<longleftrightarrow> fst p = ext" if "p \<in> set mime_table" for p
    using assms(1,3) mime_table_facts(2) that by (auto simp: iequals_ok_def list_all_iff)
  ultimately have "List.find (\<lambda>p. iequals E (ext_of (name @ x)) (fst p)) mime_table = List.find (\<lambda>p. fst p = ext) mime_table"
    by (intro find_cong) auto
  moreover have "map_option snd (List.find (\<lambda>p. fst p = ext) mime_table) = Some t"
    using assms(2) mime_table_facts(1) by (simp add: find_fst)
  ultimately show ?thesis by (auto simp: mime_type_def split: option.splits)
qed

theorem mime_by_extension_witness:
  "mime_type (sample_http\<lparr>iequals := (\<lambda>a b. map ascii_lower a = map ascii_lower b)\<rparr>) (''logo.old'' @ ''.PnG'') = ''image/png''"
proof (rule mime_by_extension)
  show "iequals_ok (sample_http\<lparr>iequals := (\<lambda>a b. map ascii_lower a = map ascii_lower b)\<rparr>)"
    by (simp add: iequals_ok_def)
  show "(''.png'', ''image/png'') \<in> set mime_table" by (simp add: mime_table_def)
  show "map ascii_lower ''.PnG'' = ''.png''" by code_simp
qed

end
