(* ===== verification/Http_Session.thy ===== *)
theory Http_Session
  imports Http_Request Logger
begin

text \<open>
  A connection that speaks HTTP (\<^verbatim>\<open>server/core/http_session.cpp\<close>), plain or over TLS: the coroutine
  that reads a request, answers it or hands the stream to a WebSocket session, and the opening and
  closing handshakes of TLS. What the transport delivers is the argument of each completion.
\<close>

section \<open>The code\<close>

datatype http_coro = H_start | H_reading | H_writing | H_end

text \<open>
  The operation that is outstanding, if any; its handler owns the session, so that a session with
  none is destroyed.
\<close>

datatype http_op = Op_run | Op_handshake | Op_read | Op_write | Op_shutdown

record http_session =
  tls :: bool
  hcoro :: http_coro
  waiting :: "http_op option"
  storage :: string
  expires :: "nat option"
  limits :: "(nat \<times> nat) option"
  hsock_open :: bool
  send_open :: bool
  hlog :: "(severity \<times> string) list"
  responses :: "http_response list"
  upgraded :: "http_request list"

definition new_http :: "bool \<Rightarrow> string \<Rightarrow> http_session" where
  "new_http t st =
     \<lparr>tls = t, hcoro = H_start, waiting = None, storage = st, expires = None, limits = None,
      hsock_open = True, send_open = True, hlog = [], responses = [], upgraded = []\<rparr>"

definition expires_after :: "nat \<Rightarrow> http_session \<Rightarrow> http_session" where
  "expires_after n s = s\<lparr>expires := Some n\<rparr>"

definition expires_never :: "http_session \<Rightarrow> http_session" where
  "expires_never s = s\<lparr>expires := None\<rparr>"

text \<open>\<^verbatim>\<open>run\<close> of both kinds posts a call: of the coroutine, and of \<^verbatim>\<open>do_run\<close>.\<close>

definition plain_run :: "http_session \<Rightarrow> http_session" where
  "plain_run s = s\<lparr>waiting := Some Op_run\<rparr>"

definition ssl_run :: "http_session \<Rightarrow> http_session" where
  "ssl_run s = s\<lparr>waiting := Some Op_run\<rparr>"

definition run_http_session :: "string \<Rightarrow> http_session" where
  "run_http_session st = plain_run (new_http False st)"

definition run_https_session :: "string \<Rightarrow> http_session" where
  "run_https_session st = ssl_run (new_http True st)"

text \<open>
  \<^verbatim>\<open>fail\<close> and \<^verbatim>\<open>do_close\<close> of both kinds, and the calls through \<^verbatim>\<open>impl()\<close> that choose between them.
\<close>

definition plain_http_fail :: "net_error \<Rightarrow> string \<Rightarrow> http_session \<Rightarrow> http_session" where
  "plain_http_fail ec what s =
     s\<lparr>hlog := hlog s @ (if ec = Operation_aborted then [(LOG_TRC, what)] else [(LOG_INF, what)])\<rparr>"

definition ssl_http_fail :: "net_error \<Rightarrow> string \<Rightarrow> http_session \<Rightarrow> http_session" where
  "ssl_http_fail ec what s =
     (if ec = Stream_truncated then s
      else s\<lparr>hlog := hlog s @ (if ec = Operation_aborted then [(LOG_TRC, what)] else [(LOG_INF, what)])\<rparr>)"

definition http_fail :: "net_error \<Rightarrow> string \<Rightarrow> http_session \<Rightarrow> http_session" where
  "http_fail ec what s = (if tls s then ssl_http_fail ec what s else plain_http_fail ec what s)"

definition plain_do_close :: "http_session \<Rightarrow> http_session" where
  "plain_do_close s = s\<lparr>send_open := False\<rparr>"

definition ssl_do_close :: "http_session \<Rightarrow> http_session" where
  "ssl_do_close s = (expires_after 30 s)\<lparr>waiting := Some Op_shutdown\<rparr>"

definition http_do_close :: "http_session \<Rightarrow> http_session" where
  "http_do_close s = (if tls s then ssl_do_close s else plain_do_close s)"

definition http_do_stop :: "http_session \<Rightarrow> http_session" where
  "http_do_stop s = s\<lparr>hsock_open := False\<rparr>"

text \<open>
  The coroutine, from each of the points where it is entered: at the start, with the result of the
  read, and with the result of the write.
\<close>

definition http_start :: "http_session \<Rightarrow> http_session" where
  "http_start s =
     (expires_after 30 s)\<lparr>limits := Some (64 * 1024, 2048), hcoro := H_reading, waiting := Some Op_read\<rparr>"

text \<open>\<^verbatim>\<open>send_lambda\<close>: the handler of the write owns the response and the session.\<close>

definition send_lambda :: "http_response \<Rightarrow> http_session \<Rightarrow> http_session" where
  "send_lambda msg s = s\<lparr>waiting := Some Op_write, responses := responses s @ [msg]\<rparr>"

definition http_on_read :: "http_env \<Rightarrow> net_error + http_request \<Rightarrow> http_session \<Rightarrow> http_session" where
  "http_on_read E r s =
     (case r of
        Inl ec \<Rightarrow>
          if ec = End_of_stream then http_do_close (s\<lparr>hcoro := H_end\<rparr>)
          else http_fail ec ''http::async_read'' (s\<lparr>hcoro := H_end\<rparr>)
      | Inr req \<Rightarrow>
          if upgrade req then (expires_never s)\<lparr>hcoro := H_end, upgraded := upgraded s @ [req]\<rparr>
          else send_lambda (snd (handle_request E req)) (s\<lparr>hcoro := H_writing\<rparr>))"

definition http_on_write :: "net_error option \<Rightarrow> bool \<Rightarrow> http_session \<Rightarrow> http_session" where
  "http_on_write ec need_eof s =
     (case ec of
        Some e \<Rightarrow> http_fail e ''http::async_write'' (s\<lparr>hcoro := H_end\<rparr>)
      | None \<Rightarrow> if need_eof then http_do_close (s\<lparr>hcoro := H_end\<rparr>) else s\<lparr>hcoro := H_end\<rparr>)"

definition https_do_run :: "http_session \<Rightarrow> http_session" where
  "https_do_run s = (expires_after 30 s)\<lparr>waiting := Some Op_handshake\<rparr>"

definition https_on_handshake :: "net_error option \<Rightarrow> nat \<Rightarrow> http_session \<Rightarrow> http_session" where
  "https_on_handshake ec bytes s =
     (let s1 = s\<lparr>storage := drop bytes (storage s)\<rparr> in
      case ec of Some e \<Rightarrow> ssl_http_fail e ''async_handshake'' s1 | None \<Rightarrow> http_start s1)"

definition https_on_shutdown :: "net_error option \<Rightarrow> http_session \<Rightarrow> http_session" where
  "https_on_shutdown ec s =
     (case ec of Some e \<Rightarrow> ssl_http_fail e ''async_shutdown'' s | None \<Rightarrow> s)"

section \<open>Runs of a session\<close>

text \<open>
  The completions of the operations. Each is delivered when its operation is outstanding, and the
  operation is then no longer.
\<close>

datatype http_event =
    Ev_run
  | Ev_handshake "net_error option" nat
  | Ev_read "net_error + http_request"
  | Ev_write "net_error option" bool
  | Ev_shutdown "net_error option"

fun event_op :: "http_event \<Rightarrow> http_op" where
  "event_op Ev_run = Op_run"
| "event_op (Ev_handshake ec n) = Op_handshake"
| "event_op (Ev_read r) = Op_read"
| "event_op (Ev_write ec b) = Op_write"
| "event_op (Ev_shutdown ec) = Op_shutdown"

fun deliver :: "http_env \<Rightarrow> http_event \<Rightarrow> http_session \<Rightarrow> http_session" where
  "deliver E Ev_run s = (if tls s then https_do_run s else http_start s)"
| "deliver E (Ev_handshake ec n) s = https_on_handshake ec n s"
| "deliver E (Ev_read r) s = http_on_read E r s"
| "deliver E (Ev_write ec b) s = http_on_write ec b s"
| "deliver E (Ev_shutdown ec) s = https_on_shutdown ec s"

inductive http_reach :: "http_env \<Rightarrow> bool \<Rightarrow> string \<Rightarrow> http_event list \<Rightarrow> http_session \<Rightarrow> bool" for E t st where
  created: "http_reach E t st [] (if t then run_https_session st else run_http_session st)"
| completes: "http_reach E t st es s \<Longrightarrow> waiting s = Some (event_op e) \<Longrightarrow>
    http_reach E t st (es @ [e]) (deliver E e (s\<lparr>waiting := None\<rparr>))"
| stopped: "http_reach E t st es s \<Longrightarrow> http_reach E t st es (http_do_stop s)"

fun http_rank :: "http_op option \<Rightarrow> nat" where
  "http_rank (Some Op_run) = 5"
| "http_rank (Some Op_handshake) = 4"
| "http_rank (Some Op_read) = 3"
| "http_rank (Some Op_write) = 2"
| "http_rank (Some Op_shutdown) = 1"
| "http_rank None = 0"

lemmas session_defs = https_do_run_def http_start_def https_on_handshake_def http_on_read_def send_lambda_def
  http_on_write_def https_on_shutdown_def http_do_close_def http_fail_def Let_def
  expires_after_def expires_never_def plain_http_fail_def ssl_http_fail_def plain_do_close_def ssl_do_close_def
  run_http_session_def run_https_session_def plain_run_def ssl_run_def new_http_def

lemma deliver_ranks:
  "http_rank (waiting (deliver E e (s\<lparr>waiting := None\<rparr>))) < http_rank (Some (event_op e))"
  by (cases e) (auto simp: session_defs split: option.splits sum.splits)

text \<open>The answers to the requests among the events, and the requests that ask for an upgrade.\<close>

definition answers :: "http_env \<Rightarrow> http_event list \<Rightarrow> http_response list" where
  "answers E es = concat (map (\<lambda>e. case e of
     Ev_read (Inr req) \<Rightarrow> if upgrade req then [] else [snd (handle_request E req)] | _ \<Rightarrow> []) es)"

definition upgrades :: "http_event list \<Rightarrow> http_request list" where
  "upgrades es = concat (map (\<lambda>e. case e of Ev_read (Inr req) \<Rightarrow> if upgrade req then [req] else [] | _ \<Rightarrow> []) es)"

lemma answers_snoc:
  "answers E [] = []"
  "answers E (es @ [e]) = answers E es @ (case e of
     Ev_read (Inr req) \<Rightarrow> if upgrade req then [] else [snd (handle_request E req)] | _ \<Rightarrow> [])"
  "upgrades [] = []"
  "upgrades (es @ [e]) = upgrades es @ (case e of Ev_read (Inr req) \<Rightarrow> if upgrade req then [req] else [] | _ \<Rightarrow> [])"
  by (simp_all add: answers_def upgrades_def)

text \<open>What holds between the operations of a session.\<close>

definition session_ok :: "http_env \<Rightarrow> bool \<Rightarrow> http_event list \<Rightarrow> http_session \<Rightarrow> bool" where
  "session_ok E t es s \<longleftrightarrow>
     tls s = t \<and>
     (waiting s \<in> {Some Op_run, Some Op_handshake, Some Op_read} \<longrightarrow> responses s = [] \<and> upgraded s = []) \<and>
     (waiting s = Some Op_handshake \<or> waiting s = Some Op_shutdown \<longrightarrow> t) \<and>
     hcoro s = (case waiting s of
        Some Op_run \<Rightarrow> H_start | Some Op_handshake \<Rightarrow> H_start | Some Op_read \<Rightarrow> H_reading
      | Some Op_write \<Rightarrow> H_writing | Some Op_shutdown \<Rightarrow> H_end
      | None \<Rightarrow> if \<exists>e n. Ev_handshake (Some e) n \<in> set es then H_start else H_end) \<and>
     (waiting s \<noteq> None \<longrightarrow> \<not> (\<exists>e n. Ev_handshake (Some e) n \<in> set es)) \<and>
     responses s = answers E es \<and> upgraded s = upgrades es \<and>
     length (responses s) + length (upgraded s) \<le> 1"

lemma deliver_ok:
  assumes "session_ok E t es s" and "waiting s = Some (event_op e)"
  shows "session_ok E t (es @ [e]) (deliver E e (s\<lparr>waiting := None\<rparr>))"
  using assms
  by (cases e) (auto simp: session_ok_def session_defs answers_snoc split: option.splits sum.splits)

lemma session_ok_stop: "session_ok E t es (http_do_stop s) \<longleftrightarrow> session_ok E t es s" "waiting (http_do_stop s) = waiting s"
  by (simp_all add: session_ok_def http_do_stop_def)

lemma http_reach_ok:
  assumes "http_reach E t st es s"
  shows "session_ok E t es s \<and> length es + http_rank (waiting s) \<le> 5"
  using assms
proof induction
  case created
  then show ?case by (simp add: session_ok_def session_defs answers_snoc)
next
  case (completes es s e)
  with deliver_ok [of E t es s e] deliver_ranks [of E e s] show ?case by simp
next
  case (stopped es s)
  then show ?case by (simp add: session_ok_stop)
qed

lemma kept_alive_ends:
  assumes "http_reach E t st es s"
  shows "(waiting s \<noteq> None \<longrightarrow> send_open s) \<and>
    (Ev_write None False \<in> set es \<longrightarrow> waiting s = None \<and> last es = Ev_write None False \<and> send_open s)"
  using assms
proof induction
  case created
  then show ?case by (simp add: session_defs)
next
  case (completes es s e)
  then have "send_open s" "Ev_write None False \<notin> set es" by auto
  then show ?case by (cases e) (auto simp: session_defs split: option.splits sum.splits)
next
  case (stopped es s)
  then show ?case by (simp add: http_do_stop_def)
qed

section \<open>Properties\<close>

text \<open>
  C30: a connection ends. However its operations complete, and whenever it is stopped, a session
  goes through at most five of them, the opening handshake and the closing one included; it sends
  at most one response or hands its stream to one WebSocket session; what it sends is the answer
  to the request that it read; and when it waits for nothing any more its coroutine is at its end,
  unless the TLS handshake failed before it started.
\<close>

theorem http_session_ends:
  assumes "http_reach E t st es s"
  shows "length es \<le> 5 \<and> responses s = answers E es \<and> upgraded s = upgrades es \<and>
    length (responses s) + length (upgraded s) \<le> 1 \<and>
    hcoro s = (case waiting s of
        Some Op_run \<Rightarrow> H_start | Some Op_handshake \<Rightarrow> H_start | Some Op_read \<Rightarrow> H_reading
      | Some Op_write \<Rightarrow> H_writing | Some Op_shutdown \<Rightarrow> H_end
      | None \<Rightarrow> if \<exists>e n. Ev_handshake (Some e) n \<in> set es then H_start else H_end)"
  using http_reach_ok [OF assms] unfolding session_ok_def by auto

lemma sample_http_run:
  "http_reach sample_http False [] [Ev_run, Ev_read (Inr get_root), Ev_write None False]
     (http_on_write None False (http_on_read sample_http (Inr get_root)
       (http_start (run_http_session []))\<lparr>waiting := None\<rparr>))"
proof -
  have upg: "upgrade get_root = False" by (simp add: get_root_def)
  have 0: "http_reach sample_http False [] [] (run_http_session [])"
    using http_reach.created [of sample_http False "[]"] by simp
  have 1: "http_reach sample_http False [] [Ev_run] (http_start (run_http_session []))"
    using http_reach.completes [OF 0, of Ev_run]
    by (simp add: session_defs)
  have 2: "http_reach sample_http False [] [Ev_run, Ev_read (Inr get_root)]
      (http_on_read sample_http (Inr get_root) ((http_start (run_http_session []))\<lparr>waiting := None\<rparr>))"
    using http_reach.completes [OF 1, of "Ev_read (Inr get_root)"] by (simp add: session_defs)
  show ?thesis
    using http_reach.completes [OF 2, of "Ev_write None False"] upg
    by (simp add: session_defs)
qed

theorem http_session_ends_witness:
  "\<exists>s. http_reach sample_http False [] [Ev_run, Ev_read (Inr get_root), Ev_write None False] s \<and>
     responses s = answers sample_http [Ev_run, Ev_read (Inr get_root), Ev_write None False] \<and> hcoro s = H_end"
  using http_session_ends [OF sample_http_run] sample_http_run
  by (intro exI [of _ "http_on_write None False (http_on_read sample_http (Inr get_root)
       (http_start (run_http_session []))\<lparr>waiting := None\<rparr>)"])
    (auto simp: session_defs)

text \<open>
  A connection is not kept alive. When the response of a request that asks for a persistent
  connection has been written, nothing is outstanding and no later event follows: the session is
  dropped with its sending side still open, and no second request is read from it.
\<close>

theorem keep_alive_dropped:
  assumes "http_reach E t st es s" and "Ev_write None False \<in> set es"
  shows "waiting s = None \<and> last es = Ev_write None False \<and> send_open s"
  using kept_alive_ends [OF assms(1)] assms(2) by blast

theorem keep_alive_dropped_witness:
  "\<exists>s. http_reach sample_http False [] [Ev_run, Ev_read (Inr get_root), Ev_write None False] s \<and>
     waiting s = None \<and> send_open s"
  using keep_alive_dropped [OF sample_http_run] sample_http_run by auto

end
