(* ===== verification/Listener.thy ===== *)
theory Listener
  imports Logger
begin

text \<open>
  The listening socket (\<^verbatim>\<open>server/core/listener.hpp\<close>, \<^verbatim>\<open>server/core/listener.cpp\<close>): it accepts
  connections, finds out with a detector whether they want TLS, and keeps the set of all sessions
  in order to stop them. The sessions are objects with an address; an object is kept alive by the
  handler of the operation it waits for and by the calls that are posted to it with a shared
  pointer. What the network delivers is the argument of each completion.
\<close>

section \<open>The code\<close>

type_synonym sptr = nat

datatype tls_kind = No_tls | Allow_tls | Require_tls

datatype sess_kind = K_detector | K_http | K_https | K_ws | K_wss

text \<open>
  \<open>op_pending\<close> says that an operation holds the session, \<open>lockable\<close> that a weak pointer to it can be locked,
  and \<open>io_stopped\<close> that its input and output have been cancelled.
\<close>

record sess_obj =
  skind :: sess_kind
  op_pending :: bool
  lockable :: bool
  io_stopped :: bool

text \<open>The calls that are posted: to the listener, to a detector by its address, to a session.\<close>

datatype lst_task = T_do_stop | T_detector_stop sptr | T_session_stop sptr

record lst =
  lkind :: tls_kind
  acc_open :: bool
  accept_pending :: bool
  lst_sessions :: "sptr list"
  objs :: "sptr \<rightharpoonup> sess_obj"
  tasks :: "lst_task list"
  lst_log :: "(severity \<times> string) list"
  lst_cerr :: string

record listener_config =
  lc_name :: string
  lc_address :: string
  lc_port :: nat
  lc_kind :: tls_kind

text \<open>The constructor overrides the kind of the configuration.\<close>

definition make_listener :: "listener_config \<Rightarrow> lst" where
  "make_listener cfg =
     \<lparr>lkind = Allow_tls, acc_open = False, accept_pending = False, lst_sessions = [], objs = Map.empty,
      tasks = [], lst_log = [], lst_cerr = []\<rparr>"

text \<open>
  \<^verbatim>\<open>open\<close>: the arguments are the messages of the errors that the four steps report, if they do. The
  option is set without an error code, so that its failure is thrown.
\<close>

definition lst_open ::
    "string option \<Rightarrow> string option \<Rightarrow> string option \<Rightarrow> string option \<Rightarrow> lst \<Rightarrow> bool outcome \<times> lst" where
  "lst_open e_open e_opt e_bind e_listen L =
     (case e_open of
        Some msg \<Rightarrow> (Inr False, L\<lparr>lst_cerr := lst_cerr L @ ''acceptor_.open: '' @ msg @ [CHR 0x0A]\<rparr>)
      | None \<Rightarrow>
          (let L1 = L\<lparr>acc_open := True\<rparr> in
           case e_opt of
             Some msg \<Rightarrow> (Inl System_error, L1)
           | None \<Rightarrow>
               (case e_bind of
                  Some msg \<Rightarrow> (Inr False, L1\<lparr>lst_cerr := lst_cerr L1 @ ''acceptor_.bind: '' @ msg @ [CHR 0x0A]\<rparr>)
                | None \<Rightarrow>
                    (case e_listen of
                       Some msg \<Rightarrow> (Inr False, L1\<lparr>lst_cerr := lst_cerr L1 @ ''acceptor_.listen: '' @ msg @ [CHR 0x0A]\<rparr>)
                     | None \<Rightarrow> (Inr True, L1)))))"

definition lst_insert :: "sptr \<Rightarrow> lst \<Rightarrow> lst" where
  "lst_insert p L = L\<lparr>lst_sessions := fst (flat_insert p (lst_sessions L))\<rparr>"

definition lst_erase :: "sptr \<Rightarrow> lst \<Rightarrow> lst" where
  "lst_erase p L = L\<lparr>lst_sessions := fst (flat_erase p (lst_sessions L))\<rparr>"

definition detector_fail :: "net_error \<Rightarrow> string \<Rightarrow> lst \<Rightarrow> lst" where
  "detector_fail ec what L =
     L\<lparr>lst_log := lst_log L @ (if ec = Operation_aborted then [(LOG_TRC, what)] else [(LOG_INF, what)])\<rparr>"

definition lst_fail :: "net_error \<Rightarrow> string \<Rightarrow> lst \<Rightarrow> lst" where
  "lst_fail ec what L =
     L\<lparr>lst_log := lst_log L @ (if ec = Operation_aborted then [(LOG_TRC, what)] else [(LOG_INF, what)])\<rparr>"

text \<open>Constructor and destructor of a session, as far as the listener is concerned.\<close>

definition session_ctor :: "sptr \<Rightarrow> sess_kind \<Rightarrow> lst \<Rightarrow> lst" where
  "session_ctor p k L =
     lst_insert p (L\<lparr>objs := (objs L)(p \<mapsto> \<lparr>skind = k, op_pending = True, lockable = True, io_stopped = False\<rparr>)\<rparr>)"

definition session_dtor :: "sptr \<Rightarrow> lst \<Rightarrow> lst" where
  "session_dtor p L = (lst_erase p L)\<lparr>objs := (objs L)(p := None)\<rparr>"

text \<open>The three kinds of sessions register and unregister in this way.\<close>

definition detector_ctor :: "sptr \<Rightarrow> lst \<Rightarrow> lst" where
  "detector_ctor p = session_ctor p K_detector"

definition http_ctor :: "sptr \<Rightarrow> bool \<Rightarrow> lst \<Rightarrow> lst" where
  "http_ctor p is_tls = session_ctor p (if is_tls then K_https else K_http)"

definition ws_ctor :: "sptr \<Rightarrow> bool \<Rightarrow> lst \<Rightarrow> lst" where
  "ws_ctor p is_tls = session_ctor p (if is_tls then K_wss else K_ws)"

text \<open>The handler that held the session is gone.\<close>

definition release :: "sptr \<Rightarrow> lst \<Rightarrow> lst" where
  "release p L = L\<lparr>objs := (objs L)(p := map_option (\<lambda>x. x\<lparr>op_pending := False\<rparr>) (objs L p))\<rparr>"

definition lst_on_start :: "lst \<Rightarrow> lst" where
  "lst_on_start L = L\<lparr>accept_pending := True\<rparr>"

text \<open>\<open>p\<close> is the address of the session that is launched for the connection.\<close>

definition launch :: "tls_kind \<Rightarrow> sptr \<Rightarrow> lst \<Rightarrow> lst" where
  "launch k p = (case k of No_tls \<Rightarrow> http_ctor p False | Allow_tls \<Rightarrow> detector_ctor p | Require_tls \<Rightarrow> http_ctor p True)"

definition lst_on_accept :: "net_error option \<Rightarrow> sptr \<Rightarrow> lst \<Rightarrow> lst" where
  "lst_on_accept ec p L =
     (case ec of
        Some e \<Rightarrow> lst_fail e ''listener::acceptor_.async_accept'' L
      | None \<Rightarrow>
          if \<not> acc_open L then L
          else (launch (lkind L) p L)\<lparr>accept_pending := True\<rparr>)"

text \<open>The detector \<open>p\<close> resumes; \<open>p'\<close> is the address of the session it launches.\<close>

definition detector_resume :: "net_error option \<Rightarrow> bool \<Rightarrow> sptr \<Rightarrow> sptr \<Rightarrow> lst \<Rightarrow> lst" where
  "detector_resume ec is_tls p p' L =
     release p
       (case ec of
          Some e \<Rightarrow> detector_fail e ''async_detect_ssl'' L
        | None \<Rightarrow> http_ctor p' is_tls L)"

text \<open>An HTTP session hands its stream to a WebSocket session.\<close>

definition ws_upgrade :: "sptr \<Rightarrow> sptr \<Rightarrow> sess_kind \<Rightarrow> lst \<Rightarrow> lst" where
  "ws_upgrade p p' k L = release p (ws_ctor p' (k = K_https) L)"

text \<open>
  \<^verbatim>\<open>on_stop\<close> of the sessions posts \<^verbatim>\<open>do_stop\<close>. That of the detector binds the bare address, those of the
  HTTP and WebSocket sessions a shared pointer. The call through \<^verbatim>\<open>session*\<close> chooses between them.
\<close>

definition detector_on_stop :: "sptr \<Rightarrow> lst_task" where
  "detector_on_stop p = T_detector_stop p"

definition http_on_stop :: "sptr \<Rightarrow> lst_task" where
  "http_on_stop p = T_session_stop p"

definition ws_on_stop :: "sptr \<Rightarrow> lst_task" where
  "ws_on_stop p = T_session_stop p"

definition session_on_stop :: "sptr \<Rightarrow> sess_kind \<Rightarrow> lst_task" where
  "session_on_stop p k =
     (case k of
        K_detector \<Rightarrow> detector_on_stop p
      | K_http \<Rightarrow> http_on_stop p
      | K_https \<Rightarrow> http_on_stop p
      | K_ws \<Rightarrow> ws_on_stop p
      | K_wss \<Rightarrow> ws_on_stop p)"

lemma session_on_stop_eq: "session_on_stop p k = (if k = K_detector then T_detector_stop p else T_session_stop p)"
  by (cases k) (simp_all add: session_on_stop_def detector_on_stop_def http_on_stop_def ws_on_stop_def)

definition stop_calls :: "lst \<Rightarrow> lst_task list" where
  "stop_calls L =
     concat (map (\<lambda>p. case objs L p of
        Some x \<Rightarrow> if lockable x then [session_on_stop p (skind x)] else []
      | None \<Rightarrow> []) (lst_sessions L))"

definition lst_do_stop :: "lst \<Rightarrow> lst" where
  "lst_do_stop L =
     L\<lparr>lst_log := lst_log L @ [(LOG_TRC, ''listener::do_stop'')], acc_open := False, lst_sessions := [],
       tasks := tasks L @ stop_calls L\<rparr>"

definition lst_on_stop :: "lst \<Rightarrow> lst" where
  "lst_on_stop L = L\<lparr>tasks := tasks L @ [T_do_stop]\<rparr>"

text \<open>\<^verbatim>\<open>do_stop\<close> of a session, on an object that has to exist.\<close>

definition stop_io :: "sptr \<Rightarrow> lst \<Rightarrow> lst outcome" where
  "stop_io p L =
     (case objs L p of
        None \<Rightarrow> Inl Undefined
      | Some x \<Rightarrow> Inr (L\<lparr>objs := (objs L)(p \<mapsto> x\<lparr>io_stopped := True\<rparr>)\<rparr>))"

fun run_lst_task :: "lst_task \<Rightarrow> lst \<Rightarrow> lst outcome" where
  "run_lst_task T_do_stop L = Inr (lst_do_stop L)"
| "run_lst_task (T_detector_stop p) L = stop_io p L"
| "run_lst_task (T_session_stop p) L = stop_io p L"

text \<open>\<^verbatim>\<open>~listener_impl\<close> and \<^verbatim>\<open>run_listener\<close>\<close>

definition lst_dtor_ok :: "lst \<Rightarrow> bool" where
  "lst_dtor_ok L \<longleftrightarrow> lst_sessions L = []"

definition run_listener ::
    "listener_config \<Rightarrow> string option \<Rightarrow> string option \<Rightarrow> string option \<Rightarrow> string option \<Rightarrow> (bool \<times> lst) outcome" where
  "run_listener cfg e1 e2 e3 e4 =
     (case lst_open e1 e2 e3 e4 (make_listener cfg) of
        (Inl e, L) \<Rightarrow> Inl e
      | (Inr b, L) \<Rightarrow> Inr (b, L))"

section \<open>The registry of the sessions\<close>

text \<open>
  What a session relies on: that the listener's \<^verbatim>\<open>insert\<close> and \<^verbatim>\<open>erase\<close> add and remove exactly its own
  address, in every listener that is in order.
\<close>

locale session_registry =
  fixes good :: "'l \<Rightarrow> bool" and regs :: "'l \<Rightarrow> sptr set"
    and ins :: "sptr \<Rightarrow> 'l \<Rightarrow> 'l" and era :: "sptr \<Rightarrow> 'l \<Rightarrow> 'l"
  assumes good_ins: "good l \<Longrightarrow> good (ins p l)" and good_era: "good l \<Longrightarrow> good (era p l)"
    and regs_ins: "good l \<Longrightarrow> regs (ins p l) = insert p (regs l)"
    and regs_era: "good l \<Longrightarrow> regs (era p l) = regs l - {p}"
begin

lemma scoped: "good l \<Longrightarrow> p \<notin> regs l \<Longrightarrow> regs (era p (ins p l)) = regs l"
  by (simp add: good_ins regs_ins regs_era)

lemma handed_over: "good l \<Longrightarrow> p \<noteq> p' \<Longrightarrow> regs (era p (ins p' l)) = insert p' (regs l - {p})"
  by (auto simp: good_ins regs_ins regs_era)

end

interpretation listed: session_registry "\<lambda>L. flat_set (lst_sessions L)" "\<lambda>L. set (lst_sessions L)" lst_insert lst_erase
  by unfold_locales (simp_all add: lst_insert_def lst_erase_def flat_set_simps)

section \<open>Runs of a listener\<close>

text \<open>
  The steps after the listener was opened and started. A connection and a new session get a fresh
  address; a session that no handler holds and no posted call shares expires and is then destroyed;
  \<open>finish\<close> is any end of a session's operations. A posted call whose outcome is undefined leads nowhere.
\<close>

definition held :: "sptr \<Rightarrow> lst \<Rightarrow> bool" where
  "held p L \<longleftrightarrow> (\<exists>x. objs L p = Some x \<and> op_pending x) \<or> T_session_stop p \<in> set (tasks L)"

inductive lst_reach :: "lst \<Rightarrow> lst \<Rightarrow> bool" for L0 where
  opened: "lst_reach L0 L0"
| accept: "lst_reach L0 L \<Longrightarrow> accept_pending L \<Longrightarrow> objs L p = None \<Longrightarrow>
    lst_reach L0 (lst_on_accept ec p (L\<lparr>accept_pending := False\<rparr>))"
| detect: "lst_reach L0 L \<Longrightarrow> objs L p = Some x \<Longrightarrow> skind x = K_detector \<Longrightarrow> op_pending x \<Longrightarrow> objs L p' = None \<Longrightarrow>
    lst_reach L0 (detector_resume ec is_tls p p' L)"
| upgrade: "lst_reach L0 L \<Longrightarrow> objs L p = Some x \<Longrightarrow> skind x \<in> {K_http, K_https} \<Longrightarrow> op_pending x \<Longrightarrow>
    objs L p' = None \<Longrightarrow> lst_reach L0 (ws_upgrade p p' (skind x) L)"
| finish: "lst_reach L0 L \<Longrightarrow> objs L p = Some x \<Longrightarrow> op_pending x \<Longrightarrow> lst_reach L0 (release p L)"
| expire: "lst_reach L0 L \<Longrightarrow> objs L p = Some x \<Longrightarrow> \<not> held p L \<Longrightarrow>
    lst_reach L0 (L\<lparr>objs := (objs L)(p \<mapsto> x\<lparr>lockable := False\<rparr>)\<rparr>)"
| destroy: "lst_reach L0 L \<Longrightarrow> objs L p = Some x \<Longrightarrow> \<not> lockable x \<Longrightarrow> lst_reach L0 (session_dtor p L)"
| stop: "lst_reach L0 L \<Longrightarrow> lst_reach L0 (lst_on_stop L)"
| task: "lst_reach L0 L \<Longrightarrow> t \<in> set (tasks L) \<Longrightarrow> run_lst_task t (L\<lparr>tasks := remove1 t (tasks L)\<rparr>) = Inr L' \<Longrightarrow>
    lst_reach L0 L'"

text \<open>The listener in order: its set lists existing sessions only, and all of them until it stops.\<close>

definition lst_ok :: "lst \<Rightarrow> bool" where
  "lst_ok L \<longleftrightarrow>
     flat_set (lst_sessions L) \<and> set (lst_sessions L) \<subseteq> dom (objs L) \<and>
     (acc_open L \<longrightarrow> dom (objs L) \<subseteq> set (lst_sessions L)) \<and>
     (\<forall>p x. objs L p = Some x \<longrightarrow> \<not> lockable x \<longrightarrow> \<not> held p L) \<and>
     (\<forall>p. T_session_stop p \<in> set (tasks L) \<longrightarrow> p \<in> dom (objs L))"

lemma registry_sel [simp]:
  "objs (lst_insert p L) = objs L" "tasks (lst_insert p L) = tasks L" "acc_open (lst_insert p L) = acc_open L"
  "objs (lst_erase p L) = objs L" "tasks (lst_erase p L) = tasks L" "acc_open (lst_erase p L) = acc_open L"
  by (simp_all add: lst_insert_def lst_erase_def)

lemma ctor_ok:
  assumes "lst_ok L" and "objs L p = None"
  shows "lst_ok (session_ctor p k L)"
proof -
  have "T_session_stop p \<notin> set (tasks L)" using assms by (auto simp: lst_ok_def)
  with assms show ?thesis
    by (auto simp: lst_ok_def session_ctor_def held_def listed.good_ins listed.regs_ins)
qed

lemma kind_ctor_ok:
  assumes "lst_ok L" and "objs L p = None"
  shows "lst_ok (http_ctor p b L)" "lst_ok (ws_ctor p b L)" "lst_ok (launch k p L)"
  using assms by (auto simp: http_ctor_def ws_ctor_def detector_ctor_def launch_def ctor_ok split: tls_kind.splits)

lemma release_ok: "lst_ok L \<Longrightarrow> lst_ok (release p L)"
  by (auto simp: lst_ok_def release_def held_def)

lemma dtor_ok:
  assumes "lst_ok L" and "objs L p = Some x" and "\<not> lockable x"
  shows "lst_ok (session_dtor p L)"
proof -
  have "T_session_stop p \<notin> set (tasks L)" using assms by (auto simp: lst_ok_def held_def)
  with assms show ?thesis
    by (auto simp: lst_ok_def session_dtor_def held_def listed.good_era listed.regs_era)
qed

lemma obj_upd_ok:
  assumes "lst_ok L" and "objs L p = Some x" and "\<not> lockable y \<longrightarrow> \<not> op_pending y \<and> T_session_stop p \<notin> set (tasks L)"
  shows "lst_ok (L\<lparr>objs := (objs L)(p \<mapsto> y)\<rparr>)"
proof -
  have "dom ((objs L)(p \<mapsto> y)) = dom (objs L)" using assms(2) by auto
  with assms(1,3) show ?thesis by (auto simp: lst_ok_def held_def split: if_splits)
qed

lemma expire_ok:
  assumes "lst_ok L" and "objs L p = Some x" and "\<not> held p L"
  shows "lst_ok (L\<lparr>objs := (objs L)(p \<mapsto> x\<lparr>lockable := False\<rparr>)\<rparr>)"
  using assms by (intro obj_upd_ok) (auto simp: held_def)

lemma stop_calls_sessions:
  assumes "T_session_stop p \<in> set (stop_calls L)"
  shows "\<exists>x. objs L p = Some x \<and> lockable x"
  using assms by (auto simp: stop_calls_def session_on_stop_eq dest!: sym [of "Some _"] split: option.splits if_splits)

lemma do_stop_ok:
  assumes "lst_ok L"
  shows "lst_ok (lst_do_stop L)"
proof -
  have "lockable x" if "objs L p = Some x" "T_session_stop p \<in> set (stop_calls L)" for p x
    using stop_calls_sessions [OF that(2)] that(1) by simp
  moreover have "p \<in> dom (objs L)" if "T_session_stop p \<in> set (stop_calls L)" for p
    using stop_calls_sessions [OF that] by auto
  ultimately show ?thesis using assms by (auto simp: lst_ok_def lst_do_stop_def held_def)
qed

lemma task_removed_ok: "lst_ok L \<Longrightarrow> lst_ok (L\<lparr>tasks := remove1 t (tasks L)\<rparr>)"
  by (auto simp: lst_ok_def held_def dest: notin_set_remove1)

lemma stop_io_ok:
  assumes "lst_ok L" and "stop_io p L = Inr L'"
  shows "lst_ok L'"
proof -
  from assms(2) obtain x where x: "objs L p = Some x" "L' = L\<lparr>objs := (objs L)(p \<mapsto> x\<lparr>io_stopped := True\<rparr>)\<rparr>"
    by (auto simp: stop_io_def split: option.splits)
  have "lockable x \<or> \<not> op_pending x \<and> T_session_stop p \<notin> set (tasks L)"
    using assms(1) x(1) by (auto simp: lst_ok_def held_def)
  then show ?thesis unfolding x(2) by (intro obj_upd_ok [OF assms(1) x(1)]) auto
qed

lemma lst_ok_upd [simp]:
  "lst_ok (L\<lparr>accept_pending := b\<rparr>) \<longleftrightarrow> lst_ok L" "lst_ok (lst_fail ec what L) \<longleftrightarrow> lst_ok L"
  "lst_ok (detector_fail ec what L) \<longleftrightarrow> lst_ok L"
  "lst_ok (lst_on_stop L) \<longleftrightarrow> lst_ok L"
  by (simp_all add: lst_ok_def held_def lst_fail_def detector_fail_def lst_on_stop_def)

lemma lst_reach_ok:
  assumes "lst_reach L0 L" and "lst_ok L0"
  shows "lst_ok L"
  using assms
proof induction
  case (accept L p ec)
  then show ?case by (auto simp: lst_on_accept_def kind_ctor_ok split: option.splits)
next
  case (detect L p x p' ec is_tls)
  then show ?case by (auto simp: detector_resume_def intro!: release_ok kind_ctor_ok split: option.splits)
next
  case (upgrade L p x p')
  then show ?case by (auto simp: ws_upgrade_def intro!: release_ok kind_ctor_ok)
next
  case (task L t L')
  then show ?case by (cases t) (auto intro: do_stop_ok task_removed_ok stop_io_ok)
qed (simp_all add: release_ok expire_ok dtor_ok)

lemma fresh_listener_ok: "objs L = Map.empty \<Longrightarrow> lst_sessions L = [] \<Longrightarrow> tasks L = [] \<Longrightarrow> lst_ok L"
  by (simp add: lst_ok_def)

lemma open_keeps:
  "let L' = snd (lst_open e1 e2 e3 e4 L) in
   objs L' = objs L \<and> lst_sessions L' = lst_sessions L \<and> tasks L' = tasks L \<and> lkind L' = lkind L"
  by (auto simp: lst_open_def Let_def split: option.splits)

lemma started_ok:
  assumes "run_listener cfg e1 e2 e3 e4 = Inr (b, L)"
  shows "lst_ok (lst_on_start L)" "lkind L = Allow_tls" "b \<longrightarrow> acc_open L"
    "objs L = Map.empty" "lst_sessions L = []" "tasks L = []"
proof -
  have L: "snd (lst_open e1 e2 e3 e4 (make_listener cfg)) = L" "fst (lst_open e1 e2 e3 e4 (make_listener cfg)) = Inr b"
    using assms by (auto simp: run_listener_def split: prod.splits sum.splits)
  show "objs L = Map.empty" "lst_sessions L = []" "tasks L = []" "lkind L = Allow_tls"
    using open_keeps [of e1 e2 e3 e4 "make_listener cfg"] unfolding Let_def L(1) by (simp_all add: make_listener_def)
  then show "lst_ok (lst_on_start L)" by (simp add: lst_on_start_def fresh_listener_ok)
  show "b \<longrightarrow> acc_open L" using L by (auto simp: lst_open_def Let_def split: option.splits)
qed

lemma stop_calls_exact:
  assumes "lst_ok L" and "acc_open L"
  shows "set (stop_calls L) = {session_on_stop p (skind x) | p x. objs L p = Some x \<and> lockable x}"
proof -
  have "set (lst_sessions L) = dom (objs L)" using assms by (auto simp: lst_ok_def)
  then have dom: "p \<in> set (lst_sessions L) \<longleftrightarrow> (\<exists>x. objs L p = Some x)" for p by auto
  have "t \<in> set (stop_calls L) \<longleftrightarrow> (\<exists>p x. t = session_on_stop p (skind x) \<and> objs L p = Some x \<and> lockable x)" for t
    by (simp add: stop_calls_def dom Bex_def, auto split: if_splits, blast)
  then show ?thesis by auto
qed

lemma stop_calls_distinct:
  assumes "distinct ps"
  shows "distinct (concat (map (\<lambda>p. case f p of
    Some x \<Rightarrow> if lockable x then [session_on_stop p (skind x)] else [] | None \<Rightarrow> []) ps))"
  using assms
  by (induction ps) (auto simp: session_on_stop_eq split: option.splits if_splits)

lemma detector_lockable:
  assumes "lst_ok L" and "objs L p = Some x" and "op_pending x"
  shows "lockable x"
  using assms by (auto simp: lst_ok_def held_def)

section \<open>Properties\<close>

text \<open>
  C24: the listener knows its sessions. In every state it reaches, through connections that are
  accepted or fail, detectors that hand over, upgrades, sessions that end, and stopping: its set
  names existing sessions only; until it stops, it names all of them; and when the last session is
  gone the set is empty, as the destructor asserts.
\<close>

theorem sessions_registered:
  assumes "run_listener cfg e1 e2 e3 e4 = Inr (b, L0)" and "lst_reach (lst_on_start L0) L"
  shows "flat_set (lst_sessions L) \<and> set (lst_sessions L) \<subseteq> dom (objs L) \<and>
    (acc_open L \<longrightarrow> set (lst_sessions L) = dom (objs L)) \<and> (objs L = Map.empty \<longrightarrow> lst_dtor_ok L)"
proof -
  have "lst_ok L" by (rule lst_reach_ok [OF assms(2) started_ok(1) [OF assms(1)]])
  then show ?thesis by (auto simp: lst_ok_def lst_dtor_ok_def)
qed

text \<open>A listener that has accepted one connection, at address 8.\<close>

definition sample_cfg :: listener_config where
  "sample_cfg = \<lparr>lc_name = ''public'', lc_address = ''0.0.0.0'', lc_port = 8080, lc_kind = No_tls\<rparr>"

definition sample_lst :: lst where
  "sample_lst = lst_on_accept None 8 (lst_on_start (make_listener sample_cfg\<lparr>acc_open := True\<rparr>)\<lparr>accept_pending := False\<rparr>)"

lemma sample_listener: "run_listener sample_cfg None None None None = Inr (True, make_listener sample_cfg\<lparr>acc_open := True\<rparr>)"
  by (simp add: run_listener_def lst_open_def)

lemma sample_lst_reach: "lst_reach (lst_on_start (make_listener sample_cfg\<lparr>acc_open := True\<rparr>)) sample_lst"
  unfolding sample_lst_def
  by (rule lst_reach.accept [OF lst_reach.opened]) (simp_all add: lst_on_start_def make_listener_def)

lemma sample_lst_objs:
  "acc_open sample_lst" "objs sample_lst = [8 \<mapsto> \<lparr>skind = K_detector, op_pending = True, lockable = True, io_stopped = False\<rparr>]"
  by (simp_all add: sample_lst_def lst_on_accept_def detector_ctor_def session_ctor_def lst_insert_def lst_on_start_def
      make_listener_def launch_def)

lemma sample_lst_ok: "lst_ok sample_lst"
  by (rule lst_reach_ok [OF sample_lst_reach started_ok(1) [OF sample_listener]])

theorem sessions_registered_witness: "set (lst_sessions sample_lst) = {8}"
  using sessions_registered [OF sample_listener sample_lst_reach] sample_lst_objs by simp

text \<open>
  C29: stopping reaches every session. When a listener that still accepts is stopped, exactly one
  stop is posted for every session that has not already expired, the set of sessions is left empty
  and the acceptor closed, and whatever is accepted afterwards launches no session.
\<close>

theorem stop_reaches_every_session:
  assumes "run_listener cfg e1 e2 e3 e4 = Inr (b, L0)" and "lst_reach (lst_on_start L0) L" and "acc_open L"
  shows "tasks (lst_do_stop L) = tasks L @ stop_calls L \<and> distinct (stop_calls L) \<and>
    set (stop_calls L) = {session_on_stop p (skind x) | p x. objs L p = Some x \<and> lockable x} \<and>
    lst_sessions (lst_do_stop L) = [] \<and> objs (lst_on_accept ec q (lst_do_stop L)) = objs L"
proof -
  have ok: "lst_ok L" by (rule lst_reach_ok [OF assms(2) started_ok(1) [OF assms(1)]])
  then have "distinct (lst_sessions L)" by (simp add: lst_ok_def flat_set_def)
  from stop_calls_distinct [OF this, of "objs L"] have "distinct (stop_calls L)" by (simp add: stop_calls_def)
  with stop_calls_exact [OF ok assms(3)] show ?thesis
    by (auto simp: lst_do_stop_def lst_on_accept_def lst_fail_def split: option.splits)
qed

theorem stop_reaches_every_session_witness: "set (stop_calls sample_lst) = {T_detector_stop 8}"
  using stop_reaches_every_session [OF sample_listener sample_lst_reach sample_lst_objs(1)]
  by (auto simp: sample_lst_objs(2) session_on_stop_eq split: if_splits)

lemma stop_then_detect:
  assumes "tasks L = []" and "objs L p = Some x" and "skind x = K_detector" and "op_pending x" and "objs L p' = None"
  shows "lst_reach L (detector_resume None is_tls p p' (lst_do_stop L))"
proof -
  have "lst_reach L (lst_on_stop L)" by (rule lst_reach.stop [OF lst_reach.opened])
  then have "lst_reach L (lst_do_stop (L\<lparr>tasks := []\<rparr>))"
    using lst_reach.task [of L "lst_on_stop L" T_do_stop] assms(1) by (simp add: lst_on_stop_def)
  moreover have "L\<lparr>tasks := []\<rparr> = L" using assms(1) by simp
  ultimately have "lst_reach L (lst_do_stop L)" by (simp only:)
  from lst_reach.detect [OF this] show ?thesis using assms by (simp add: lst_do_stop_def)
qed

text \<open>
  C40: a session that is handed over while the listener stops is missed. When a detector has found
  out what its connection wants and the listener stops before the detector resumes, the session
  that it launches is registered and running, and no stop is posted for it.
\<close>

theorem handover_escapes_stop:
  assumes "lst_ok L" and "tasks L = []" and "objs L p = Some x" and "skind x = K_detector" and "op_pending x"
    and "objs L p' = None"
  shows "\<exists>L' y. lst_reach L L' \<and> \<not> acc_open L' \<and> p' \<in> set (lst_sessions L') \<and>
    T_do_stop \<notin> set (tasks L') \<and> T_session_stop p' \<notin> set (tasks L') \<and>
    objs L' p' = Some y \<and> op_pending y \<and> lockable y \<and> \<not> io_stopped y"
proof -
  let ?L = "detector_resume None True p p' (lst_do_stop L)"
  have ne: "p \<noteq> p'" using assms(3,6) by auto
  have "T_session_stop p' \<notin> set (stop_calls L)" using stop_calls_sessions [of p' L] assms(6) by auto
  moreover have "T_do_stop \<notin> set (stop_calls L)"
    by (auto simp: stop_calls_def session_on_stop_eq split: option.splits if_splits)
  ultimately have "\<not> acc_open ?L \<and> p' \<in> set (lst_sessions ?L) \<and> T_do_stop \<notin> set (tasks ?L) \<and>
      T_session_stop p' \<notin> set (tasks ?L) \<and>
      objs ?L p' = Some \<lparr>skind = K_https, op_pending = True, lockable = True, io_stopped = False\<rparr>"
    using assms(2) ne
    by (simp add: detector_resume_def release_def http_ctor_def session_ctor_def lst_insert_def lst_do_stop_def flat_set_simps)
  with stop_then_detect [OF assms(2-6), of True] show ?thesis by (intro exI [of _ ?L]) auto
qed

theorem handover_escapes_stop_witness:
  "\<exists>L' y. lst_reach sample_lst L' \<and> \<not> acc_open L' \<and> 9 \<in> set (lst_sessions L') \<and>
     T_session_stop 9 \<notin> set (tasks L') \<and> objs L' 9 = Some y \<and> \<not> io_stopped y"
proof -
  have "tasks sample_lst = []"
    by (simp add: sample_lst_def lst_on_accept_def launch_def detector_ctor_def session_ctor_def lst_insert_def lst_on_start_def
        make_listener_def)
  from handover_escapes_stop [OF sample_lst_ok this, of 8 _ 9] show ?thesis
    by (simp add: sample_lst_objs(2)) blast
qed

text \<open>
  C39: the stop of a detector can run on a destroyed object. It is posted with the bare address; when
  the detector resumes, hands its stream over and is destroyed before the posted call runs, the
  call reads freed memory.
\<close>

theorem detector_stop_dangles:
  assumes "lst_ok L" and "acc_open L" and "tasks L = []" and "objs L p = Some x" and "skind x = K_detector"
    and "op_pending x" and "objs L p' = None"
  shows "\<exists>L'. lst_reach L L' \<and> T_detector_stop p \<in> set (tasks L') \<and>
    run_lst_task (T_detector_stop p) L' = Inl Undefined"
proof -
  let ?L1 = "detector_resume None True p p' (lst_do_stop L)"
  have ne: "p \<noteq> p'" using assms(4,7) by auto
  have r1: "lst_reach L ?L1" by (rule stop_then_detect [OF assms(3-7)])
  have call: "T_detector_stop p \<in> set (stop_calls L)"
    using stop_calls_exact [OF assms(1,2)] detector_lockable [OF assms(1,4,6)] assms(4,5)
    by (force simp: session_on_stop_eq)
  have "T_session_stop p \<notin> set (stop_calls L)"
    using stop_calls_exact [OF assms(1,2)] assms(4,5) by (auto simp: session_on_stop_eq split: if_splits)
  then have p1: "objs ?L1 p = Some (x\<lparr>op_pending := False\<rparr>)" and h: "\<not> held p ?L1"
    and t: "tasks ?L1 = stop_calls L"
    using assms(3,4) ne
    by (simp_all add: held_def detector_resume_def release_def http_ctor_def session_ctor_def lst_insert_def lst_do_stop_def)
  let ?L2 = "?L1\<lparr>objs := (objs ?L1)(p \<mapsto> x\<lparr>op_pending := False, lockable := False\<rparr>)\<rparr>"
  have r2: "lst_reach L ?L2" using lst_reach.expire [OF r1 p1 h] by simp
  have r3: "lst_reach L (session_dtor p ?L2)" by (rule lst_reach.destroy [OF r2], simp, simp)
  have "run_lst_task (T_detector_stop p) (session_dtor p ?L2) = Inl Undefined"
    by (simp add: stop_io_def session_dtor_def lst_erase_def)
  moreover have "tasks (session_dtor p ?L2) = stop_calls L" using t by (simp add: session_dtor_def lst_erase_def)
  ultimately show ?thesis using r3 call by metis
qed

theorem detector_stop_dangles_witness:
  "\<exists>L'. lst_reach sample_lst L' \<and> T_detector_stop 8 \<in> set (tasks L') \<and>
     run_lst_task (T_detector_stop 8) L' = Inl Undefined"
proof -
  have "tasks sample_lst = []"
    by (simp add: sample_lst_def lst_on_accept_def launch_def detector_ctor_def session_ctor_def lst_insert_def lst_on_start_def
        make_listener_def)
  from detector_stop_dangles [OF sample_lst_ok sample_lst_objs(1) this, of 8 _ 9] show ?thesis
    by (simp add: sample_lst_objs(2))
qed

lemma not_accepting_stays:
  assumes "lst_reach L0 L" and "\<not> accept_pending L0"
  shows "\<not> accept_pending L"
  using assms
proof induction
  case (detect L p x p' ec is_tls)
  then show ?case
    by (auto simp: detector_resume_def release_def http_ctor_def session_ctor_def lst_insert_def detector_fail_def split: option.splits)
next
  case (task L t L')
  then show ?case by (cases t) (auto simp: lst_do_stop_def stop_io_def split: option.splits)
qed (simp_all add: ws_upgrade_def release_def ws_ctor_def session_ctor_def session_dtor_def lst_insert_def lst_erase_def lst_on_stop_def)

text \<open>
  The first failed accept is the last. Whatever the error, a listener whose accept fails starts
  no other: in no later state is it accepting, although its acceptor may be open.
\<close>

theorem accept_error_is_final:
  assumes "lst_reach (lst_on_accept (Some e) p (L\<lparr>accept_pending := False\<rparr>)) L'"
  shows "\<not> accept_pending L' \<and> acc_open (lst_on_accept (Some e) p L) = acc_open L"
  using not_accepting_stays [OF assms] by (simp add: lst_on_accept_def lst_fail_def)

theorem accept_error_is_final_witness:
  "\<not> accept_pending (lst_on_accept (Some Other_error) 9 (sample_lst\<lparr>accept_pending := False\<rparr>))"
  using accept_error_is_final [OF lst_reach.opened] by blast

end
