(* ===== verification/Startup.thy ===== *)
theory Startup
  imports Lounge Listener
begin

text \<open>
  The start of the program: reading the configuration file, the three kinds of configuration,
  \<^verbatim>\<open>make_server\<close> (\<^verbatim>\<open>server/core/server.cpp\<close>, with \<^verbatim>\<open>logger_config\<close> of \<^verbatim>\<open>server/core/logger.cpp\<close>) and the
  checks of \<^verbatim>\<open>main\<close>. The C library's file functions, the JSON parser and its checked accessors, the
  conversion of addresses and the sockets are arguments.
\<close>

section \<open>The code\<close>

subsection \<open>The configuration file\<close>

datatype cfg_error = Errno int | Json_error string

text \<open>
  What the calls of the C library return: the error number of a call that fails, the size, and the
  bytes that are read.
\<close>

record file_io =
  io_open :: "int option"
  io_seek_end :: "int option"
  io_tell :: "int + nat"
  io_seek_set :: "int option"
  io_data :: string
  io_ferror :: "int option"

text \<open>The result, whether the file was closed, and the size of the buffer that was not freed.\<close>

record parse_run =
  pr_result :: "cfg_error + json"
  pr_closed :: bool
  pr_leak :: nat

definition parse_file :: "(string \<Rightarrow> string + json) \<Rightarrow> file_io \<Rightarrow> parse_run" where
  "parse_file parse io =
     (case io_open io of
        Some n \<Rightarrow> \<lparr>pr_result = Inl (Errno n), pr_closed = False, pr_leak = 0\<rparr>
      | None \<Rightarrow>
          (let failed = (\<lambda>n leak. \<lparr>pr_result = Inl (Errno n), pr_closed = True, pr_leak = leak\<rparr>) in
           case io_seek_end io of
             Some n \<Rightarrow> failed n 0
           | None \<Rightarrow>
               (case io_tell io of
                  Inl n \<Rightarrow> failed n 0
                | Inr sz \<Rightarrow>
                    (case io_seek_set io of
                       Some n \<Rightarrow> failed n 0
                     | None \<Rightarrow>
                         (case io_ferror io of
                            Some n \<Rightarrow> failed n sz
                          | None \<Rightarrow>
                              \<lparr>pr_result = (case parse (take sz (io_data io)) of
                                   Inl msg \<Rightarrow> Inl (Json_error msg)
                                 | Inr jv \<Rightarrow> Inr jv),
                               pr_closed = True, pr_leak = 0\<rparr>)))))"

subsection \<open>The configurations\<close>

record cfg_env =
  ce_exn :: exn
  ce_parse :: "string \<Rightarrow> string + json"
  ce_msg :: "cfg_error \<Rightarrow> string"
  ce_what :: string
  ce_not_object :: string
  ce_uint :: "json \<Rightarrow> nat outcome"
  ce_ushort :: "json \<Rightarrow> nat outcome"
  ce_address :: "string \<Rightarrow> string outcome"
  ce_log_open :: "string \<Rightarrow> string option"
  ce_net :: "listener_config \<Rightarrow> string option \<times> string option \<times> string option \<times> string option"

fun out_bind :: "'a outcome \<Rightarrow> ('a \<Rightarrow> 'b outcome) \<Rightarrow> 'b outcome" where
  "out_bind (Inl e) f = Inl e"
| "out_bind (Inr x) f = f x"

text \<open>The accessors \<^verbatim>\<open>at\<close> and \<^verbatim>\<open>as_string\<close>, which throw.\<close>

definition json_at :: "cfg_env \<Rightarrow> json \<Rightarrow> string \<Rightarrow> json outcome" where
  "json_at E jv key = (case member_of jv key of Some j \<Rightarrow> Inr j | None \<Rightarrow> Inl (ce_exn E))"

definition as_str :: "cfg_env \<Rightarrow> json \<Rightarrow> string outcome" where
  "as_str E jv = (case jv of JStr s \<Rightarrow> Inr s | _ \<Rightarrow> Inl (ce_exn E))"

definition logger_config :: "cfg_env \<Rightarrow> json \<Rightarrow> string outcome" where
  "logger_config E jv = out_bind (json_at E jv ''log'') (\<lambda>l. out_bind (json_at E l ''path'') (as_str E))"

record server_cfg =
  num_threads :: nat
  cfg_doc_root :: string

definition server_config :: "cfg_env \<Rightarrow> json \<Rightarrow> server_cfg outcome" where
  "server_config E jv =
     out_bind (json_at E jv ''threads'') (\<lambda>t.
       out_bind (ce_uint E t) (\<lambda>n.
         out_bind (json_at E jv ''doc-root'') (\<lambda>d.
           out_bind (as_str E d) (\<lambda>s.
             Inr \<lparr>num_threads = (if n < 1 then 1 else n), cfg_doc_root = s\<rparr>))))"

definition listener_config_of :: "cfg_env \<Rightarrow> json \<Rightarrow> listener_config outcome" where
  "listener_config_of E jv =
     out_bind (json_at E jv ''name'') (\<lambda>n. out_bind (as_str E n) (\<lambda>name.
       out_bind (json_at E jv ''address'') (\<lambda>a. out_bind (as_str E a) (\<lambda>s. out_bind (ce_address E s) (\<lambda>addr.
         out_bind (json_at E jv ''port_num'') (\<lambda>p. out_bind (ce_ushort E p) (\<lambda>port.
           Inr \<lparr>lc_name = name, lc_address = addr, lc_port = port, lc_kind = No_tls\<rparr>)))))))"

subsection \<open>The server\<close>

record built_server =
  bs_cfg :: server_cfg
  bs_world :: lounge
  bs_listeners :: "lst list"

definition log_cerr :: "string \<Rightarrow> logger_impl \<Rightarrow> logger_impl" where
  "log_cerr s L = L\<lparr>cerr_out := cerr_out L @ s\<rparr>"

text \<open>
  A failure inside a \<^verbatim>\<open>try\<close> block: a \<^verbatim>\<open>system_error\<close> is reported and the function returns a null
  pointer; anything else leaves it.
\<close>

definition caught :: "cfg_env \<Rightarrow> string \<Rightarrow> exn \<Rightarrow> logger_impl \<Rightarrow> built_server option outcome \<times> logger_impl" where
  "caught E ctx e L =
     (if e = System_error then (Inr None, log_cerr (ctx @ ce_what E @ [CHR 0x0A]) L) else (Inl e, L))"

text \<open>The constructor of the server, with the addresses of the room and the system channel.\<close>

definition server_ctor :: "cptr \<Rightarrow> cptr \<Rightarrow> (lounge, unit) act" where
  "server_ctor cr cs = seq_act (make_room cr ''General'') (make_system_channel cs)"

fun add_listeners ::
    "cfg_env \<Rightarrow> json list \<Rightarrow> built_server \<Rightarrow> logger_impl \<Rightarrow> built_server option outcome \<times> logger_impl" where
  "add_listeners E [] B L = (Inr (Some B), L)"
| "add_listeners E (e # es) B L =
     (case listener_config_of E e of
        Inl x \<Rightarrow> caught E ''listener_config: '' x L
      | Inr cfg \<Rightarrow>
          (case ce_net E cfg of (e1, e2, e3, e4) \<Rightarrow>
             (case run_listener cfg e1 e2 e3 e4 of
                Inl x \<Rightarrow> caught E ''listener_config: '' x L
              | Inr (opened, l) \<Rightarrow>
                  (case server_insert (Listener_service (length (bs_listeners B))) (bs_world B) of
                     (Inl x, w) \<Rightarrow> (Inl x, L)
                   | (Inr _, w) \<Rightarrow>
                       (let B' = B\<lparr>bs_world := w, bs_listeners := bs_listeners B @ [l]\<rparr>;
                            L' = log_cerr (lst_cerr l) L
                        in if \<not> opened then (Inr None, L') else add_listeners E es B' L')))))"

definition make_server_srv ::
    "cfg_env \<Rightarrow> json \<Rightarrow> cptr \<Rightarrow> cptr \<Rightarrow> lounge \<Rightarrow> logger_impl \<Rightarrow> built_server option outcome \<times> logger_impl" where
  "make_server_srv E jv cr cs w0 L =
     (case member_of jv ''server'' of
        Some (JObj ms) \<Rightarrow>
          (case server_config E (JObj ms) of
             Inl x \<Rightarrow> caught E ''server_config: '' x L
           | Inr cfg \<Rightarrow>
               (case seq_act (server_ctor cr cs) make_blackjack_service w0 of
                  (Inl x, w) \<Rightarrow> (Inl x, L)
                | (Inr _, w) \<Rightarrow>
                    (case member_of jv ''listeners'' of
                       Some (JArr es) \<Rightarrow> add_listeners E es \<lparr>bs_cfg = cfg, bs_world = w, bs_listeners = []\<rparr> L
                     | _ \<Rightarrow> (Inr None, L))))
      | _ \<Rightarrow> (Inr None, log_cerr (''server_config: '' @ ce_not_object E @ [CHR 0x0A]) L))"

definition make_server ::
    "cfg_env \<Rightarrow> file_io \<Rightarrow> cptr \<Rightarrow> cptr \<Rightarrow> lounge \<Rightarrow> logger_impl \<Rightarrow> built_server option outcome \<times> logger_impl" where
  "make_server E io cr cs w0 L =
     (case pr_result (parse_file (ce_parse E) io) of
        Inl ec \<Rightarrow> (Inr None, log_cerr (''json::parse_file: '' @ ce_msg E ec @ [CHR 0x0A]) L)
      | Inr jv \<Rightarrow>
          (case logger_config E jv of
             Inl x \<Rightarrow> caught E ''logger_config: '' x L
           | Inr path \<Rightarrow>
               (case log_open (ce_log_open E path) path L of
                  (False, L1) \<Rightarrow> (Inr None, L1)
                | (True, L1) \<Rightarrow> make_server_srv E jv cr cs w0 L1)))"

text \<open>\<^verbatim>\<open>main\<close> up to \<^verbatim>\<open>run\<close>: the exit status, or the server that is run.\<close>

definition main_begin ::
    "cfg_env \<Rightarrow> nat \<Rightarrow> file_io \<Rightarrow> cptr \<Rightarrow> cptr \<Rightarrow> lounge \<Rightarrow> (nat + built_server) outcome \<times> logger_impl" where
  "main_begin E argc io cr cs w0 =
     (if argc \<noteq> 2 then (Inr (Inl 1), log_cerr (''Usage: lounge-server <config-path>'' @ [CHR 0x0A]) make_logger)
      else case make_server E io cr cs w0 make_logger of
        (Inl x, L) \<Rightarrow> (Inl x, L)
      | (Inr None, L) \<Rightarrow> (Inr (Inl 1), L)
      | (Inr (Some B), L) \<Rightarrow> (Inr (Inr B), L))"

section \<open>The construction\<close>

lemma ctor_world:
  assumes "cr \<noteq> cs"
  shows "\<exists>w. seq_act (server_ctor cr cs) make_blackjack_service (boot_world g0 rnd) = (Inr (), w) \<and>
    services (srv w) = [Blackjack_service] \<and> \<not> running (srv w) \<and>
    server_boot cr cs ct mem (boot_world g0 rnd) = server_run_begin (start_service ct mem) w"
  using assms
  by (simp add: server_boot_def make_blackjack_service_def server_ctor_def make_room_def make_system_channel_def insert_channel_def
      channel_ctor_reserved_def cl_next_uid_def cl_insert_def set_chan_def server_insert_def
      boot_world_def cl_init_def new_srv_state_def upd_srv_def resize_vec_def seq_act_def bind_act_def Let_def
      get_chan_def numeral_eq_Suc)

lemma start_listeners: "start_services (start_service ct mem) (map Listener_service is) = ret ()"
  by (induction "is") (simp_all add: start_service_def seq_act_def ret_def fun_eq_iff)

definition with_services :: "service list \<Rightarrow> 'a srv_world_scheme \<Rightarrow> 'a srv_world_scheme" where
  "with_services ss w = w\<lparr>srv := (srv w)\<lparr>services := ss\<rparr>\<rparr>"

lemma insert_more:
  "\<not> running (srv w) \<Longrightarrow> server_insert s w = (Inr (), with_services (services (srv w) @ [s]) w)"
  by (simp add: server_insert_def upd_srv_def with_services_def)

lemma with_services_simps [simp]:
  "with_services ss (with_services ts w) = with_services ss w" "services (srv (with_services ss w)) = ss"
  "running (srv (with_services ss w)) = running (srv w)"
  by (simp_all add: with_services_def)

lemma run_begin_listeners:
  fixes w :: lounge
  assumes "services (srv w) = [Blackjack_service]" and "\<not> running (srv w)"
    and "server_run_begin (start_service ct mem) w = (Inr (), w1)"
  shows "server_run_begin (start_service ct mem) (with_services (Blackjack_service # map Listener_service is) w) =
    (Inr (), with_services (Blackjack_service # map Listener_service is) w1)"
  using assms
  by (auto simp: server_run_begin_def with_services_def upd_srv_def start_service_def blackjack_on_start_def table_ctor_def
      insert_channel_def channel_ctor_reserved_def cl_next_uid_def set_chan_def cl_insert_def get_chan_def
      start_listeners seq_act_def bind_act_def ret_def modify_def Let_def split: sum.splits prod.splits if_splits)

lemma run_listener_opens:
  "\<exists>l. run_listener cfg None None None None = Inr (True, l) \<and> acc_open l \<and> lst_cerr l = [] \<and> lst_ok l"
  by (auto simp: run_listener_def lst_open_def make_listener_def fresh_listener_ok)

lemma add_listeners_ok:
  assumes "list_all2 (\<lambda>e c. listener_config_of E e = Inr c \<and> ce_net E c = (None, None, None, None)) es cs"
    and "\<not> running (srv (bs_world B))"
  shows "\<exists>ls. add_listeners E es B L =
      (Inr (Some (B\<lparr>bs_world := with_services (services (srv (bs_world B)) @
          map Listener_service [length (bs_listeners B)..<length (bs_listeners B) + length es]) (bs_world B),
        bs_listeners := bs_listeners B @ ls\<rparr>)), L) \<and>
    length ls = length es \<and> list_all (\<lambda>l. acc_open l \<and> lst_ok l) ls"
  using assms
proof (induction es arbitrary: cs B L)
  case Nil
  then show ?case by (simp add: with_services_def)
next
  case (Cons e es)
  then obtain c cs' where c: "listener_config_of E e = Inr c" "ce_net E c = (None, None, None, None)"
    "list_all2 (\<lambda>e c. listener_config_of E e = Inr c \<and> ce_net E c = (None, None, None, None)) es cs'"
    by (auto simp: list_all2_Cons1)
  obtain l where l: "run_listener c None None None None = Inr (True, l)" "acc_open l" "lst_cerr l = []" "lst_ok l"
    using run_listener_opens by blast
  let ?n = "length (bs_listeners B)"
  let ?B = "B\<lparr>bs_world := with_services (services (srv (bs_world B)) @ [Listener_service ?n]) (bs_world B),
    bs_listeners := bs_listeners B @ [l]\<rparr>"
  have L: "log_cerr [] L = L" by (simp add: log_cerr_def)
  have step: "add_listeners E (e # es) B L = add_listeners E es ?B L"
    using c(1,2) l(1,3) Cons.prems(2) by (simp add: insert_more L Let_def)
  have ids: "Listener_service ?n # map Listener_service [Suc ?n..<Suc (?n + length es)] =
      map Listener_service [?n..<?n + length (e # es)]"
    by (simp add: upt_conv_Cons del: upt_Suc)
  have "\<not> running (srv (bs_world ?B))" using Cons.prems(2) by simp
  from Cons.IH [OF c(3) this, of L] obtain ls where
    ls: "add_listeners E es ?B L =
      (Inr (Some (B\<lparr>bs_world := with_services (services (srv (bs_world B)) @
          Listener_service ?n # map Listener_service [Suc ?n..<Suc (?n + length es)]) (bs_world B),
        bs_listeners := bs_listeners B @ l # ls\<rparr>)), L)"
      "length ls = length es" "list_all (\<lambda>l. acc_open l \<and> lst_ok l) ls"
    by (auto simp del: upt_Suc)
  show ?case unfolding step ls(1) ids using ls(2,3) l(2,4) by (intro exI [of _ "l # ls"]) simp
qed

text \<open>What throws, throws a \<^verbatim>\<open>system_error\<close>.\<close>

definition cfg_env_ok :: "cfg_env \<Rightarrow> bool" where
  "cfg_env_ok E \<longleftrightarrow> ce_exn E = System_error \<and>
     (\<forall>j e. ce_uint E j = Inl e \<or> ce_ushort E j = Inl e \<longrightarrow> e = System_error) \<and>
     (\<forall>s e. ce_address E s = Inl e \<longrightarrow> e = System_error)"

lemma out_bind_Inl: "out_bind r f = Inl e \<longleftrightarrow> r = Inl e \<or> (\<exists>x. r = Inr x \<and> f x = Inl e)"
  by (cases r) auto

lemma configs_throw:
  assumes "cfg_env_ok E"
  shows "logger_config E jv = Inl e \<Longrightarrow> e = System_error" "server_config E jv = Inl e \<Longrightarrow> e = System_error"
    "listener_config_of E jv = Inl e \<Longrightarrow> e = System_error"
  using assms
  by (auto simp: logger_config_def server_config_def listener_config_of_def out_bind_Inl json_at_def as_str_def
      cfg_env_ok_def split: option.splits json.splits)

lemma run_listener_throws: "run_listener cfg e1 e2 e3 e4 = Inl e \<Longrightarrow> e = System_error"
  by (auto simp: run_listener_def lst_open_def Let_def split: prod.splits sum.splits option.splits)

lemma add_listeners_returns:
  assumes "cfg_env_ok E" and "\<not> running (srv (bs_world B))"
  shows "\<exists>r L'. add_listeners E es B L = (Inr r, L') \<and>
    (r \<noteq> None \<longrightarrow> (\<exists>cs. list_all2 (\<lambda>e c. listener_config_of E e = Inr c) es cs))"
  using assms(2)
proof (induction es arbitrary: B L)
  case (Cons e es)
  show ?case
  proof (cases "listener_config_of E e")
    case (Inl x)
    then show ?thesis using configs_throw(3) [OF assms(1) Inl] by (simp add: caught_def)
  next
    case (Inr c)
    obtain e1 e2 e3 e4 where n: "ce_net E c = (e1, e2, e3, e4)" by (metis prod_cases4)
    show ?thesis
    proof (cases "run_listener c e1 e2 e3 e4")
      case (Inl x)
      with Inr n show ?thesis using run_listener_throws [OF Inl] by (simp add: caught_def)
    next
      case r: (Inr p)
      obtain b l where p: "p = (b, l)" by force
      have "\<exists>r L'. add_listeners E es (B\<lparr>bs_world := with_services ss (bs_world B), bs_listeners := ls\<rparr>) L0 = (Inr r, L') \<and>
          (r \<noteq> None \<longrightarrow> (\<exists>cs. list_all2 (\<lambda>e c. listener_config_of E e = Inr c) es cs))" for ss ls L0
        by (rule Cons.IH) (use Cons.prems in simp)
      with Inr n r p Cons.prems show ?thesis
        by (fastforce simp: insert_more Let_def list_all2_Cons1)
    qed
  qed
qed (auto intro: exI [of _ "[]"])

text \<open>A configuration that has everything it needs.\<close>

definition config_ok :: "cfg_env \<Rightarrow> json \<Rightarrow> server_cfg \<Rightarrow> listener_config list \<Rightarrow> bool" where
  "config_ok E jv sc lcs \<longleftrightarrow>
     (\<exists>path ms es. logger_config E jv = Inr path \<and> ce_log_open E path = None \<and>
        member_of jv ''server'' = Some (JObj ms) \<and> server_config E (JObj ms) = Inr sc \<and>
        member_of jv ''listeners'' = Some (JArr es) \<and>
        list_all2 (\<lambda>e c. listener_config_of E e = Inr c) es lcs)"

lemma make_server_srv_returns:
  assumes "cfg_env_ok E" and "cr \<noteq> cs"
  shows "\<exists>r L'. make_server_srv E jv cr cs (boot_world g0 rnd) L = (Inr r, L') \<and>
    (r \<noteq> None \<longrightarrow> (\<exists>ms es sc lcs. member_of jv ''server'' = Some (JObj ms) \<and> server_config E (JObj ms) = Inr sc \<and>
        member_of jv ''listeners'' = Some (JArr es) \<and>
        list_all2 (\<lambda>e c. listener_config_of E e = Inr c) es lcs))"
proof (cases "\<exists>ms. member_of jv ''server'' = Some (JObj ms)")
  case True
  then obtain ms where ms: "member_of jv ''server'' = Some (JObj ms)" by blast
  show ?thesis
  proof (cases "server_config E (JObj ms)")
    case (Inl e)
    with ms show ?thesis using configs_throw(2) [OF assms(1) Inl] by (simp add: make_server_srv_def caught_def)
  next
    case (Inr sc)
    from ctor_world [OF assms(2), of g0 rnd] obtain w where
      w: "seq_act (server_ctor cr cs) make_blackjack_service (boot_world g0 rnd) = (Inr (), w)"
        "\<not> running (srv w)" by blast
    show ?thesis
    proof (cases "\<exists>es. member_of jv ''listeners'' = Some (JArr es)")
      case True
      then obtain es where "member_of jv ''listeners'' = Some (JArr es)" by blast
      with add_listeners_returns [OF assms(1), of "\<lparr>bs_cfg = sc, bs_world = w, bs_listeners = []\<rparr>" es L] w ms Inr
      show ?thesis by (simp add: make_server_srv_def)
    next
      case False
      with w(1) ms Inr show ?thesis by (auto simp: make_server_srv_def split: option.splits json.splits)
    qed
  qed
next
  case False
  then show ?thesis by (auto simp: make_server_srv_def split: option.splits json.splits)
qed

section \<open>Properties\<close>

text \<open>
  Reading the configuration file gives back everything it takes, but one buffer. A file that
  could be opened is closed on every path; the result is the error number of the first call that
  fails, the error of the parser or its value, for the bytes that were read; the buffer is not
  freed exactly when the read itself fails.
\<close>

theorem parse_file_releases:
  "let r = parse_file parse io in
     (pr_closed r \<longleftrightarrow> io_open io = None) \<and>
     (pr_leak r \<noteq> 0 \<longrightarrow> io_ferror io \<noteq> None \<and> Inr (pr_leak r) = io_tell io) \<and>
     (io_open io = None \<and> io_seek_end io = None \<and> io_seek_set io = None \<and> io_tell io = Inr n \<longrightarrow>
        (case io_ferror io of
           Some k \<Rightarrow> pr_result r = Inl (Errno k) \<and> pr_leak r = n
         | None \<Rightarrow> pr_leak r = 0 \<and>
             pr_result r = (case parse (take n (io_data io)) of Inl msg \<Rightarrow> Inl (Json_error msg) | Inr jv \<Rightarrow> Inr jv)))"
  by (auto simp: parse_file_def Let_def split: option.splits sum.splits)

text \<open>A file that is read without an error.\<close>

definition sample_io :: file_io where
  "sample_io = \<lparr>io_open = None, io_seek_end = None, io_tell = Inr 4, io_seek_set = None,
     io_data = ''null'', io_ferror = None\<rparr>"

theorem parse_file_releases_witness:
  "pr_result (parse_file (\<lambda>s. if s = ''null'' then Inr JNull else Inl ''bad'') sample_io) = Inr JNull"
  using parse_file_releases [of "\<lambda>s. if s = ''null'' then Inr JNull else Inl ''bad''" sample_io 4]
  by (simp add: sample_io_def Let_def)

text \<open>
  C25: a complete configuration gives a server that starts. When the file parses, the log opens, the
  sections for server and listeners are complete and every socket can be opened, \<^verbatim>\<open>make_server\<close>
  returns a server with at least one thread, an open listener in order for every entry and the
  services in the order of their creation; and when it is run, it is in the state of a started
  server with these services.
\<close>

theorem configured_server_starts:
  assumes "distinct [cr, cs, ct]" and "pr_result (parse_file (ce_parse E) io) = Inr jv"
    and "config_ok E jv sc lcs" and "\<forall>c \<in> set lcs. ce_net E c = (None, None, None, None)"
    and "server_boot cr cs ct mem (boot_world g0 rnd) = (Inr (), w1)"
  shows "\<exists>B L'. make_server E io cr cs (boot_world g0 rnd) L = (Inr (Some B), L') \<and>
    bs_cfg B = sc \<and> 1 \<le> num_threads sc \<and> length (bs_listeners B) = length lcs \<and>
    list_all (\<lambda>l. acc_open l \<and> lst_ok l) (bs_listeners B) \<and>
    server_run_begin (start_service ct mem) (bs_world B) =
      (Inr (), with_services (Blackjack_service # map Listener_service [0..<length lcs]) w1)"
proof -
  from assms(3) obtain path ms es where c: "logger_config E jv = Inr path" "ce_log_open E path = None"
    "member_of jv ''server'' = Some (JObj ms)" "server_config E (JObj ms) = Inr sc"
    "member_of jv ''listeners'' = Some (JArr es)" "list_all2 (\<lambda>e c. listener_config_of E e = Inr c) es lcs"
    by (auto simp: config_ok_def)
  from assms(1) have ne: "cr \<noteq> cs" by simp
  from ctor_world [OF ne, of g0 rnd ct mem] obtain w where
    w: "seq_act (server_ctor cr cs) make_blackjack_service (boot_world g0 rnd) = (Inr (), w)"
      "services (srv w) = [Blackjack_service]" "\<not> running (srv w)"
      "server_run_begin (start_service ct mem) w = (Inr (), w1)"
    using assms(5) by auto
  have es: "list_all2 (\<lambda>e c. listener_config_of E e = Inr c \<and> ce_net E c = (None, None, None, None)) es lcs"
    using c(6) assms(4) by (auto simp: list_all2_conv_all_nth)
  let ?B = "\<lparr>bs_cfg = sc, bs_world = w, bs_listeners = []\<rparr>"
  let ?L = "snd (log_open None path L)"
  from add_listeners_ok [OF es, of ?B ?L] w(2,3) list_all2_lengthD [OF es] obtain ls where
    ls: "add_listeners E es ?B ?L = (Inr (Some (?B\<lparr>bs_world :=
        with_services (Blackjack_service # map Listener_service [0..<length lcs]) w, bs_listeners := ls\<rparr>)), ?L)"
      "length ls = length lcs" "list_all (\<lambda>l. acc_open l \<and> lst_ok l) ls"
    by auto
  have "1 \<le> num_threads sc"
    using c(4) by (auto simp: server_config_def json_at_def as_str_def split: option.splits json.splits
        elim!: out_bind.elims)
  with ls run_begin_listeners [OF w(2-4), of "[0..<length lcs]"] show ?thesis
    by (simp add: make_server_def make_server_srv_def assms(2) c w(1) log_open_def Let_def)
qed

text \<open>
  C32: every other configuration is refused. When the libraries report what they refuse with a
  \<^verbatim>\<open>system_error\<close>, \<^verbatim>\<open>make_server\<close> always returns, and it returns a server only for a file that was read
  and a configuration that is complete.
\<close>

theorem make_server_refuses:
  assumes "cfg_env_ok E" and "cr \<noteq> cs"
  shows "\<exists>r L'. make_server E io cr cs (boot_world g0 rnd) L = (Inr r, L') \<and>
    (r \<noteq> None \<longrightarrow> (\<exists>jv sc lcs. pr_result (parse_file (ce_parse E) io) = Inr jv \<and> config_ok E jv sc lcs))"
proof (cases "pr_result (parse_file (ce_parse E) io)")
  case (Inr jv)
  show ?thesis
  proof (cases "logger_config E jv")
    case (Inl e)
    with Inr show ?thesis using configs_throw(1) [OF assms(1) Inl] by (simp add: make_server_def caught_def)
  next
    case path: (Inr path)
    show ?thesis
    proof (cases "ce_log_open E path")
      case None
      from make_server_srv_returns [OF assms, of jv g0 rnd "snd (log_open None path L)"] None path Inr
      show ?thesis by (auto simp: make_server_def log_open_def Let_def config_ok_def)
    qed (use Inr path in \<open>simp add: make_server_def log_open_def Let_def\<close>)
  qed
qed (simp add: make_server_def)

text \<open>A configuration with one listener, and libraries that accept it.\<close>

definition sample_config :: json where
  "sample_config = JObj [(''log'', JObj [(''path'', JStr ''log.txt'')]),
     (''server'', JObj [(''threads'', JUint 0), (''doc-root'', JStr ''/www'')]),
     (''listeners'', JArr [JObj [(''name'', JStr ''public''), (''address'', JStr ''0.0.0.0''), (''port_num'', JUint 8080)]])]"

definition sample_cenv :: cfg_env where
  "sample_cenv = \<lparr>ce_exn = System_error, ce_parse = (\<lambda>s. Inr sample_config), ce_msg = (\<lambda>_. []), ce_what = [],
     ce_not_object = [], ce_uint = (\<lambda>j. case j of JUint n \<Rightarrow> Inr n | _ \<Rightarrow> Inl System_error),
     ce_ushort = (\<lambda>j. case j of JUint n \<Rightarrow> Inr n | _ \<Rightarrow> Inl System_error), ce_address = Inr,
     ce_log_open = (\<lambda>_. None), ce_net = (\<lambda>_. (None, None, None, None))\<rparr>"

lemma sample_config_ok:
  "config_ok sample_cenv sample_config \<lparr>num_threads = 1, cfg_doc_root = ''/www''\<rparr>
     [\<lparr>lc_name = ''public'', lc_address = ''0.0.0.0'', lc_port = 8080, lc_kind = No_tls\<rparr>]"
  "pr_result (parse_file (ce_parse sample_cenv) sample_io) = Inr sample_config"
  "cfg_env_ok sample_cenv"
  by (auto simp: config_ok_def sample_config_def sample_cenv_def sample_io_def logger_config_def server_config_def
      listener_config_of_def json_at_def as_str_def parse_file_def cfg_env_ok_def split: json.splits)

theorem configured_server_starts_witness:
  "\<exists>B L'. make_server sample_cenv sample_io 50 40 (boot_world sample_game (\<lambda>_. 0)) make_logger = (Inr (Some B), L') \<and>
     num_threads (bs_cfg B) = 1 \<and> length (bs_listeners B) = 1"
  using configured_server_starts [OF _ sample_config_ok(2,1) _ sample_boot_eq, of make_logger]
  by (fastforce simp: sample_cenv_def)

theorem make_server_refuses_witness:
  "\<exists>L'. make_server (sample_cenv\<lparr>ce_parse := (\<lambda>s. Inr JNull)\<rparr>) sample_io 50 40 (boot_world sample_game (\<lambda>_. 0)) make_logger =
     (Inr None, L')"
proof -
  let ?E = "sample_cenv\<lparr>ce_parse := (\<lambda>s. Inr JNull)\<rparr>"
  have ok: "cfg_env_ok ?E" using sample_config_ok(3) by (simp add: cfg_env_ok_def)
  have "\<not> config_ok ?E JNull sc lcs" for sc lcs by (simp add: config_ok_def)
  moreover have "pr_result (parse_file (ce_parse ?E) sample_io) = Inr JNull"
    by (simp add: parse_file_def sample_io_def)
  ultimately show ?thesis
    using make_server_refuses [OF ok, of 50 40 sample_io sample_game "\<lambda>_. 0" make_logger] by auto
qed

end
