(* ===== verification/Protocol.thy ===== *)
theory Protocol
  imports Lounge
begin

text \<open>
  The language the server speaks: the shapes of the JSON values it sends, with the kind of every
  member, and that a running server sends nothing else. The components build these values in
  \<^verbatim>\<open>channel.cpp\<close>, \<^verbatim>\<open>room.cpp\<close>, \<^verbatim>\<open>blackjack.cpp\<close>, \<^verbatim>\<open>server.cpp\<close> and \<^verbatim>\<open>rpc.cpp\<close>; a client has to
  understand exactly the ones below.
\<close>

section \<open>The shapes\<close>

text \<open>An object that has exactly the given members, in the given order, each of the given kind.\<close>

fun fits :: "(string \<times> (json \<Rightarrow> bool)) list \<Rightarrow> json \<Rightarrow> bool" where
  "fits fs (JObj ms) \<longleftrightarrow> list_all2 (\<lambda>f m. fst m = fst f \<and> snd f (snd m)) fs ms"
| "fits fs _ \<longleftrightarrow> False"

fun each :: "(json \<Rightarrow> bool) \<Rightarrow> json \<Rightarrow> bool" where
  "each p (JArr js) \<longleftrightarrow> list_all p js"
| "each p _ \<longleftrightarrow> False"

fun is_int :: "json \<Rightarrow> bool" where
  "is_int (JInt _) = True" | "is_int _ = False"

fun is_uint :: "json \<Rightarrow> bool" where
  "is_uint (JUint _) = True" | "is_uint _ = False"

definition word_in :: "string list \<Rightarrow> json \<Rightarrow> bool" where
  "word_in ws j \<longleftrightarrow> (\<exists>w \<in> set ws. j = JStr w)"

text \<open>The game, from the inside out.\<close>

fun is_card :: "json \<Rightarrow> bool" where
  "is_card (JInt c) = valid_card c" | "is_card _ = False"

fun hands_shape :: "json \<Rightarrow> bool" where
  "hands_shape (JArr [h]) = each is_card h" | "hands_shape _ = False"

definition seat_shape :: "json \<Rightarrow> bool" where
  "seat_shape j \<longleftrightarrow>
     fits [(''hands'', hands_shape), (''state'', word_in [''dealer'', ''open''])] j \<or>
     fits [(''hands'', hands_shape), (''state'', word_in [''waiting'']), (''user'', is_string),
           (''chips'', is_int)] j \<or>
     fits [(''hands'', hands_shape), (''state'', word_in [''playing'', ''leaving'']), (''user'', is_string),
           (''chips'', is_int), (''wager'', is_int)] j"

fun seats_shape :: "json \<Rightarrow> bool" where
  "seats_shape (JArr js) \<longleftrightarrow> length js = 6 \<and> list_all seat_shape js" | "seats_shape _ = False"

definition game_shape :: "json \<Rightarrow> bool" where
  "game_shape =
     fits [(''message'', word_in [''Waiting for players'', ''Playing'']), (''seats'', seats_shape)]"

text \<open>The events of a channel.\<close>

definition member_event :: "json \<Rightarrow> bool" where
  "member_event =
     fits [(''cid'', is_uint), (''verb'', word_in [''join'', ''leave'']), (''name'', is_string), (''user'', is_string)]"

definition say_event :: "json \<Rightarrow> bool" where
  "say_event =
     fits [(''verb'', word_in [''say'']), (''cid'', is_uint), (''name'', is_string), (''user'', is_string),
           (''message'', is_string)]"

definition notice_event :: "json \<Rightarrow> bool" where
  "notice_event =
     fits [(''verb'', word_in [''say'']), (''cid'', is_uint), (''name'', is_string), (''message'', is_string)]"

definition update_event :: "json \<Rightarrow> bool" where
  "update_event =
     fits [(''cid'', is_uint), (''verb'', word_in [''update'']),
           (''action'', word_in [''init'', ''play'', ''watch'', ''bet'', ''deal'', ''surrender'']),
           (''game'', game_shape)]"

text \<open>The two answers to a request. The id is the client's and can be any value.\<close>

definition result_reply :: "json \<Rightarrow> bool" where
  "result_reply = fits [(''id'', \<lambda>_. True), (''result'', is_null)]"

definition error_reply :: "json \<Rightarrow> bool" where
  "error_reply =
     fits [(''jsonrpc'', word_in [''2.0'']), (''error'', fits [(''code'', is_int), (''message'', is_string)]),
           (''id'', \<lambda>_. True)]"

definition wire_shape :: "json \<Rightarrow> bool" where
  "wire_shape j \<longleftrightarrow>
     member_event j \<or> say_event j \<or> notice_event j \<or> update_event j \<or> result_reply j \<or> error_reply j"

section \<open>The values the components build\<close>

lemmas shape_defs = member_event_def say_event_def notice_event_def update_event_def result_reply_def
  error_reply_def word_in_def

lemma member_json_wire: "verb \<in> {''join'', ''leave''} \<Longrightarrow> wire_shape (member_json x verb nm)"
  by (auto simp: wire_shape_def shape_defs member_json_def)

lemma say_json_wire: "wire_shape (say_json x nm text)"
  by (simp add: wire_shape_def shape_defs say_json_def)

lemma shutdown_json_wire: "wire_shape (shutdown_json x n)"
  by (simp add: wire_shape_def shape_defs shutdown_json_def)

lemma update_json_wire:
  "game_shape g \<Longrightarrow> a \<in> {''init'', ''play'', ''watch'', ''bet'', ''deal'', ''surrender''} \<Longrightarrow>
    wire_shape (update_json x a g)"
  by (auto simp: wire_shape_def shape_defs update_json_def)

lemma complete_wire:
  assumes "result r = JNull" and "(u, j) \<in> set (complete r)"
  shows "wire_shape j"
  using assms by (auto simp: wire_shape_def shape_defs complete_def obj_emplace_def split: option.splits)

lemma complete_error_wire: "(u, j) \<in> set (complete_error r code msg) \<Longrightarrow> wire_shape j"
  by (auto simp: wire_shape_def shape_defs complete_error_def rpc_error_to_json_def Let_def split: option.splits)

lemma hands_shape_json: "seat_ok s \<Longrightarrow> hands_shape (JArr (map hand_to_json (hands s)))"
  by (auto simp: seat_ok_def hand_to_json_def list_all_iff length_Suc_conv)

lemma seat_shape_json: "seat_ok s \<Longrightarrow> seat_to_json names s = Inr j \<Longrightarrow> seat_shape j"
  using hands_shape_json [of s]
  by (auto simp: seat_to_json_def seated_json_def seat_shape_def word_in_def Let_def
      split: seat_state.splits option.splits)

lemma seats_shape_json:
  "list_all seat_ok ss \<Longrightarrow> seats_to_json names ss = Inr js \<Longrightarrow> list_all seat_shape js \<and> length js = length ss"
  by (induction ss arbitrary: js) (auto simp: seat_shape_json split: sum.splits)

lemma game_shape_json:
  assumes "game_ok g" and "game_to_json names g = Inr j"
  shows "game_shape j"
proof -
  from assms(2) obtain js where js: "seats_to_json names (seats g) = Inr js"
    and j: "j = JObj [(''message'', JStr (case game_s g of Wait \<Rightarrow> ''Waiting for players'' | Play \<Rightarrow> ''Playing'')),
      (''seats'', JArr js)]"
    by (auto simp: game_to_json_def Let_def split: sum.splits)
  have "list_all seat_shape js \<and> length js = 6"
    using seats_shape_json [OF _ js] assms(1) by (simp add: game_ok_def)
  then show ?thesis by (simp add: j game_shape_def word_in_def split: game_state.split)
qed

section \<open>What the operations send\<close>

text \<open>
  The states in which everything sent so far has one of the shapes, in which the requests that
  wait for the table have no result yet, and in which the game is as its invariant says.
\<close>

definition wire_ok :: "env \<Rightarrow> 'a world_scheme \<Rightarrow> bool" where
  "wire_ok E w \<longleftrightarrow> (\<forall>p \<in> set (sent w). \<exists>j. wire_shape j \<and> snd p = make_message (env_sr E) j)"

fun no_result :: "table_task \<Rightarrow> bool" where
  "no_result (Do_insert u) = True"
| "no_result (Do_erase u) = True"
| "no_result (Do_play r) = (result r = JNull)"
| "no_result (Do_watch r) = (result r = JNull)"
| "no_result (Do_bet r) = (result r = JNull)"
| "no_result (Do_start r) = (result r = JNull)"
| "no_result (Do_hit r) = (result r = JNull)"
| "no_result (Do_stand r) = (result r = JNull)"

definition speaks :: "env \<Rightarrow> 'a lounge_scheme \<Rightarrow> bool" where
  "speaks E w \<longleftrightarrow> wire_ok E w \<and> list_all no_result (table_q w) \<and> game_ok (table_g w)"

lemma speaks_upd [simp]:
  "speaks E (w\<lparr>usrs := us\<rparr>) = speaks E w" "speaks E (w\<lparr>chans := cs\<rparr>) = speaks E w"
  "speaks E (w\<lparr>srv := s\<rparr>) = speaks E w" "speaks E (w\<lparr>table_rnd := n\<rparr>) = speaks E w"
  by (simp_all add: speaks_def wire_ok_def)

lemma speaks_game: "speaks E w \<Longrightarrow> game_ok g \<Longrightarrow> speaks E (w\<lparr>table_g := g\<rparr>)" "speaks E w \<Longrightarrow> game_ok (table_g w)"
  by (simp_all add: speaks_def wire_ok_def)

named_theorems speaks_intros \<open>actions that send well-shaped values\<close>

lemma speaks_send [speaks_intros]: "wire_shape j \<Longrightarrow> keeps (speaks E) (user_send_json E u j)"
  by (auto simp: keeps_def speaks_def wire_ok_def user_send_json_def user_send_def)

lemma speaks_send_to:
  assumes "wire_shape j"
  shows "keeps (speaks E) (send_to us (make_message (env_sr E) j))"
proof (induction us)
  case (Cons u us)
  then show ?case unfolding send_to.simps
    using speaks_send [OF assms, of E u] by (intro keeps_intros) (simp_all add: user_send_json_def)
qed (simp add: keeps_def)

lemma speaks_chan_send [speaks_intros]: "wire_shape j \<Longrightarrow> keeps (speaks E) (chan_send E c j)"
  unfolding chan_send_def by (intro keeps_intros speaks_send_to)

lemma speaks_send_all: "(\<And>u j. (u, j) \<in> set xs \<Longrightarrow> wire_shape j) \<Longrightarrow> keeps (speaks E) (send_all E xs)"
proof (induction xs)
  case (Cons x xs)
  then show ?case unfolding send_all.simps
    by (intro keeps_intros speaks_intros) (auto intro: Cons.prems [of "fst x"])
qed (simp add: keeps_def)

lemma speaks_complete [speaks_intros]:
  "result r = JNull \<Longrightarrow> keeps (speaks E) (do_complete E r)" "keeps (speaks E) (do_complete_error E r code msg)"
  unfolding do_complete_def do_complete_error_def
  by (rule speaks_send_all, erule (1) complete_wire) (rule speaks_send_all, erule complete_error_wire)

lemma speaks_state [speaks_intros]:
  "keeps (speaks E) (set_user u y)" "keeps (speaks E) (set_chan c x)" "keeps (speaks E) (upd_srv f)"
  "game_ok g \<Longrightarrow> keeps (speaks E) (set_game g)" "no_result t \<Longrightarrow> keeps (speaks E) (table_post t)"
  by (simp_all add: keeps_def set_user_def set_chan_def upd_srv_def set_game_def speaks_game table_post_def)
    (simp add: speaks_def wire_ok_def)

lemma speaks_user_hooks [speaks_intros]:
  "keeps (speaks E) (user_on_insert u c)" "keeps (speaks E) (user_on_erase u c)" "keeps (speaks E) (checked_user r)"
  unfolding user_on_insert_def user_on_erase_def checked_user_def
  by (intro keeps_intros speaks_intros | simp only: Let_def split: prod.split, intro allI impI)+

lemma speaks_virt [speaks_intros]:
  "keeps (speaks E) (virt_on_insert c u)" "keeps (speaks E) (virt_on_erase c u)" "keeps (speaks E) (system_on_insert c u)"
  using speaks_state(5) [of "Do_insert u" E] speaks_state(5) [of "Do_erase u" E]
  by (auto simp: keeps_def virt_on_insert_def virt_on_erase_def room_on_insert_def room_on_erase_def
      system_on_insert_def system_on_erase_def table_on_insert_def table_on_erase_def
      split: option.splits chan_kind.splits)

lemma speaks_members:
  assumes "keeps (speaks E) (hook c u)"
  shows "keeps (speaks E) (chan_insert hook E c u)" "keeps (speaks E) (chan_erase hook E c u)"
  unfolding chan_insert_def chan_erase_def Let_def case_prod_beta
  by (intro keeps_intros speaks_intros assms member_json_wire; simp)+


text \<open>The dispatch of a request.\<close>

lemma speaks_join_leave:
  assumes "result r = JNull"
  shows "keeps (speaks E) (do_join virt_on_insert E c r)" "keeps (speaks E) (do_leave virt_on_erase E c r)"
  unfolding do_join_def do_leave_def by (intro keeps_intros speaks_intros speaks_members assms)+

lemma speaks_stop [speaks_intros]: "keeps (speaks E) (server_stop b)"
  by (simp add: keeps_def server_stop_def post_srv_def upd_srv_def)

lemma speaks_timer [speaks_intros]: "keeps (speaks E) (server_on_timer E ab t t')"
proof -
  have arm: "keeps (speaks E) (arm_timer t n :: ('a lounge_scheme, unit) act)" for t n
    by (simp add: keeps_def arm_timer_def upd_srv_def)
  have body: "keeps (speaks E) (bind_act (get_chan c) (\<lambda>x. seq_act (chan_send E c (shutdown_json x n)) (arm_timer t m)) ::
      ('a lounge_scheme, unit) act)" for c n m t
    by (intro keeps_intros speaks_intros shutdown_json_wire arm)
  show ?thesis
    using keepsD [OF body]
    by (auto simp: keepsD [OF speaks_stop] keeps_def server_on_timer_def Let_def split: option.splits)
qed

lemma speaks_shutdown [speaks_intros]: "keeps (speaks E) (server_shutdown E b cd t0 t t')"
  by (simp add: keepsD [OF speaks_timer] keeps_def server_shutdown_def post_srv_def upd_srv_def)

lemma speaks_signal [speaks_intros]: "keeps (speaks E) (server_on_signal E ab n t0 t t')"
  by (simp add: keepsD [OF speaks_stop] keepsD [OF speaks_shutdown] keeps_def server_on_signal_def upd_srv_def)

lemma speaks_dispatch:
  assumes "result r = JNull"
  shows "keeps (speaks E) (virt_on_dispatch E c r)"
proof -
  note intros = keeps_intros speaks_intros speaks_members assms say_json_wire
  have "keeps (speaks E) (room_on_dispatch E c r :: ('a lounge_scheme, unit) act)"
    unfolding room_on_dispatch_def do_say_def by (intro intros)
  moreover have "keeps (speaks E) (system_on_dispatch E c r :: ('a lounge_scheme, unit) act)"
    unfolding system_on_dispatch_def do_identify_def do_shutdown_def do_stop_def by (intro intros)
  moreover have "keeps (speaks E) (table_on_dispatch c r :: ('a lounge_scheme, unit) act)"
    unfolding table_on_dispatch_def by (intro intros; simp add: assms)
  ultimately show ?thesis
    by (auto simp: keeps_def virt_on_dispatch_def split: option.splits chan_kind.splits)
qed

lemma speaks_handle_json: "keeps (speaks E) (handle_json E u jv)"
proof -
  let ?r = "fst (extract_call (make_rpc_call u) jv)"
  have r: "result ?r = JNull" by (simp add: extract_call_keeps make_rpc_call_def)
  have "keeps (speaks E) (lounge_dispatch E ?r)"
    unfolding lounge_dispatch_def chan_dispatch_def
    by (intro cl_dispatch_keeps keeps_if speaks_join_leave speaks_dispatch r)
  then show ?thesis
    unfolding handle_json_def Let_def case_prod_beta
    by (intro keeps_intros speaks_intros) (auto intro: keeps_intros split: option.splits)
qed

text \<open>The tasks of the table.\<close>

lemma speaks_game_json:
  assumes "\<And>g. game_shape g \<Longrightarrow> keeps (speaks E) (f g)"
  shows "keeps (speaks E) (bind_act game_json f)"
  using assms by (auto simp: keeps_def bind_act_def game_json_def intro: game_shape_json [OF speaks_game(2)] split: sum.splits)

lemma speaks_update:
  "a \<in> {''play'', ''watch'', ''bet'', ''deal'', ''surrender''} \<Longrightarrow> keeps (speaks E) (table_update E c a)"
  unfolding table_update_def
  by (intro keeps_intros speaks_game_json speaks_intros update_json_wire) auto

lemma speaks_callbacks: "keeps (speaks E) (table_callbacks E c cbs)"
proof (induction cbs)
  case (Cons b bs)
  have "keeps (speaks E) (table_callback E c b)" by (cases b) (simp_all add: speaks_update)
  with Cons show ?case unfolding table_callbacks.simps by (intro keeps_intros)
qed (simp add: keeps_def)

lemma speaks_fail_ec: "keeps (speaks E) (fail_ec ec)"
  by (cases ec) (simp_all add: fail_ec_def keeps_def)

lemma speaks_rest:
  assumes "result r = JNull"
  shows "a \<in> {''play'', ''watch''} \<Longrightarrow>
      keeps (speaks E) (seq_act (fail_ec ec) (seq_act (table_update E c a) (do_complete E r)))"
    "keeps (speaks E) (seq_act (table_callbacks E c cbs) (seq_act (fail_ec ec) (do_complete E r)))"
  by (intro keeps_intros speaks_fail_ec speaks_update speaks_intros assms; blast)
    (intro keeps_intros speaks_fail_ec speaks_callbacks speaks_intros assms)

lemma speaks_after:
  "keeps (speaks E) m \<Longrightarrow> speaks E w \<Longrightarrow> game_ok g \<Longrightarrow> speaks E (snd (seq_act (set_game g) m w))"
  by (simp add: keeps_def set_game_def speaks_game)

lemma speaks_step:
  assumes "\<And>w. game_ok (table_g w) \<Longrightarrow> game_ok (f w)" and "\<And>w. keeps (speaks E) (m w)"
  shows "keeps (speaks E) (\<lambda>w. seq_act (set_game (f w)) (m w) w)"
  using assms by (auto simp: keeps_def [of _ "\<lambda>w. seq_act (set_game (f w)) (m w) w"] intro!: speaks_after dest: speaks_game(2))

lemma speaks_try: "keeps (speaks E) m \<Longrightarrow> keeps (speaks E) (table_try E r m)"
  unfolding table_try_def by (intro keeps_intros speaks_intros)

lemma speaks_membership: "keeps (speaks E) (table_do_insert E c u)" "keeps (speaks E) (table_do_erase E c u)"
proof -
  show "keeps (speaks E) (table_do_insert E c u)"
    unfolding table_do_insert_def by (intro keeps_intros speaks_game_json speaks_intros update_json_wire) auto
  show "keeps (speaks E) (table_do_erase E c u)"
    unfolding table_do_erase_def Let_def case_prod_beta
    by (intro speaks_step keeps_if speaks_update keeps_ret surrender_ok) simp_all
qed

lemma speaks_start: "result r = JNull \<Longrightarrow> keeps (speaks E) (table_do_start E c r)"
proof -
  assume r: "result r = JNull"
  have "speaks E (snd (seq_act (modify (\<lambda>w. w\<lparr>table_g := g, table_rnd := rnd\<rparr>))
      (seq_act (table_callbacks E c cbs) (seq_act (fail_ec ec) (do_complete E r))) w))"
    if "speaks E w" "start (table_g w) (table_rnd w) None = Inr (g, rnd, ec, cbs)" for w :: "'a lounge_scheme" and g rnd ec cbs
  proof -
    have "speaks E (w\<lparr>table_g := g, table_rnd := rnd\<rparr>)"
      using speaks_game(1) [OF that(1) start_ok [OF speaks_game(2) [OF that(1)] that(2)]] by simp
    from keepsD [OF speaks_rest(2) [OF r] this] show ?thesis by simp
  qed
  then show ?thesis unfolding table_do_start_def
    by (intro speaks_try) (auto simp: keeps_def split: sum.splits prod.splits)
qed

lemma speaks_requests:
  assumes "result r = JNull"
  shows "keeps (speaks E) (table_do_play E c r)" "keeps (speaks E) (table_do_watch E c r)"
    "keeps (speaks E) (table_do_bet E c r)" "keeps (speaks E) (table_do_start E c r)"
    "keeps (speaks E) (table_do_hit E r)" "keeps (speaks E) (table_do_stand E r)"
proof -
  show "keeps (speaks E) (table_do_play E c r)"
    unfolding table_do_play_def Let_def case_prod_beta by (intro speaks_try speaks_step speaks_rest(1) assms join_ok) simp_all
  show "keeps (speaks E) (table_do_watch E c r)"
    unfolding table_do_watch_def
    by (intro speaks_try) (auto simp: keeps_def split: sum.splits prod.splits
        intro!: speaks_after speaks_rest(1) assms dest: speaks_game(2) leave_ok)
  show "keeps (speaks E) (table_do_bet E c r)"
    unfolding table_do_bet_def
    by (intro speaks_try) (auto simp: keeps_def split: sum.splits prod.splits
        intro!: speaks_after speaks_rest(2) assms dest: speaks_game(2) bet_ok)
  show "keeps (speaks E) (table_do_hit E r)" "keeps (speaks E) (table_do_stand E r)"
    unfolding table_do_hit_def table_do_stand_def by (intro speaks_try speaks_intros assms)+
qed (rule speaks_start [OF assms])

lemma speaks_task: "no_result t \<Longrightarrow> keeps (speaks E) (run_table_task E c t)"
  by (cases t) (simp_all add: speaks_membership speaks_requests)

section \<open>The running server\<close>

lemma reach_speaks:
  assumes "lounge_reach E ct w0 w" and "speaks E w0"
  shows "speaks E w"
  using assms
proof (induction rule: lounge_reach.induct)
  case (request w u jv w')
  with keepsD [OF speaks_handle_json, of E w u jv] show ?case by simp
next
  case (disconnect w u y w')
  have "keeps (speaks E) (chan_erase virt_on_erase E c u :: (lounge, bool) act)" for c
    by (intro speaks_members speaks_virt)
  from dtor_loop_keeps [OF this] disconnect have "speaks E w1" if
    "user_dtor_loop virt_on_erase E u (w\<lparr>usrs := (usrs w)(u \<mapsto> y\<lparr>ualive := False\<rparr>)\<rparr>) = Some (Inr (), w1)" for w1
    using that by fastforce
  with disconnect show ?case by (auto simp: user_destroy_def split: option.splits prod.splits sum.splits)
next
  case (table w t q w')
  then have t: "no_result t" "speaks E (w\<lparr>table_q := q\<rparr>)" by (simp_all add: speaks_def wire_ok_def)
  from keepsD [OF speaks_task [OF t(1)] t(2), of ct] table show ?case by simp
next
  case (server w t q t0 t1 t2 w')
  then have a: "speaks E (w\<lparr>srv := (srv w)\<lparr>srv_q := q\<rparr>\<rparr>)" by simp
  have k: "keeps (speaks E) (run_srv_task E t t0 t1 t2 :: (lounge, unit) act)"
    by (cases t) (simp_all add: speaks_stop speaks_timer speaks_shutdown speaks_signal)
  from keepsD [OF k a] server.hyps(3) show ?case by simp
qed simp_all

lemma boot_speaks:
  assumes "distinct [cr, cs, ct]" and "server_boot cr cs ct mem (boot_world g0 rnd) = (Inr (), w0)"
  shows "speaks E w0"
proof -
  obtain g rnd' where g: "make_game 1 mem rnd = Inr (g, rnd')" "game_ok g" using make_game_ok [of 1 mem rnd] by auto
  from boot_channels [OF assms(1) g(1), of g0] assms(2) g(2) show ?thesis by (auto simp: speaks_def wire_ok_def)
qed

text \<open>
  C9: everything a running server sends is well formed. In every state the server reaches, each message
  it has handed to a session was made from a JSON value of one of six shapes: a user joined or left
  a channel, a user said something, a notice of the shutdown, the state of the game, or one of the
  two answers to a request, each with exactly the members the shape lists and of the kinds it lists.
\<close>

theorem sent_values_well_shaped:
  assumes "distinct [cr, cs, ct]" and "server_boot cr cs ct mem (boot_world g0 rnd) = (Inr (), w0)"
    and "lounge_reach E ct w0 w" and "(u, m) \<in> set (sent w)"
  shows "\<exists>j. wire_shape j \<and> m = make_message (env_sr E) j"
proof -
  have "speaks E w0" by (rule boot_speaks [OF assms(1,2)])
  from reach_speaks [OF assms(3) this] assms(4) show ?thesis by (force simp: speaks_def wire_ok_def)
qed

text \<open>A request without a method, which is answered with an error.\<close>

definition bad_call :: json where
  "bad_call = JObj [(''id'', JUint 1)]"

lemma bad_call_answered:
  "handle_json sample_env u bad_call w = (Inr (), w\<lparr>sent := sent w @ [(u, Some ''jsonrpcerrorid'')]\<rparr>)"
  by (simp add: handle_json_def bad_call_def extract_version_def extract_id_def validate_id_def extract_method_def
      make_rpc_call_def catch_rpc_def do_complete_error_def complete_error_def user_send_json_def user_send_def
      rpc_error_code_msg_def Let_def rpc_error_to_json_def sample_env_def make_message_def)

lemma bad_call_reach:
  "lounge_reach sample_env 60 sample_boot (snd (handle_json sample_env 1 bad_call sample_live))"
  "(1, snd (hd (sent (snd (handle_json sample_env 1 bad_call sample_live))))) \<in>
     set (sent (snd (handle_json sample_env 1 bad_call sample_live)))"
proof -
  show "lounge_reach sample_env 60 sample_boot (snd (handle_json sample_env 1 bad_call sample_live))"
    using lounge_reach.request [OF sample_live_ok(1) _ bad_call_answered, of 1] sample_live_ok(2)
    by (simp add: bad_call_answered)
  have "sent sample_live = []" using sample_live_sent .
  then show "(1, snd (hd (sent (snd (handle_json sample_env 1 bad_call sample_live))))) \<in>
     set (sent (snd (handle_json sample_env 1 bad_call sample_live)))" by (simp add: bad_call_answered)
qed

theorem sent_values_well_shaped_witness:
  "\<exists>j. wire_shape j \<and> snd (hd (sent (snd (handle_json sample_env 1 bad_call sample_live)))) = make_message (env_sr sample_env) j"
  using sent_values_well_shaped [OF _ sample_boot_eq bad_call_reach] by simp

end
