(* ===== verification/Client.thy ===== *)
theory Client
  imports Protocol
begin

text \<open>
  What a client achieves, through every layer: the requests the script \<^verbatim>\<open>static/wwwroot/lounge-chat.js\<close>
  sends when its connection opens are extracted from JSON, dispatched by channel id and carried out
  by the system channel and the room.
\<close>

section \<open>The code\<close>

text \<open>\<^verbatim>\<open>send_message\<close>: the value that is sent, with the running number as id.\<close>

definition send_message :: "nat \<Rightarrow> string \<Rightarrow> members \<Rightarrow> json" where
  "send_message n m ps =
     JObj [(''jsonrpc'', JStr ''2.0''), (''method'', JStr m), (''id'', JUint n), (''params'', JObj ps)]"

text \<open>The two requests of the handler of \<^verbatim>\<open>open\<close>.\<close>

definition open_requests :: "string \<Rightarrow> json list" where
  "open_requests user_name =
     [send_message 1 ''identify'' [(''cid'', JUint 1), (''name'', JStr user_name)],
      send_message 2 ''join'' [(''cid'', JUint 2)]]"

text \<open>The server takes the requests of a user one after the other.\<close>

fun serve :: "env \<Rightarrow> uptr \<Rightarrow> json list \<Rightarrow> ('a lounge_scheme, unit) act" where
  "serve E u [] = ret ()"
| "serve E u (j # js) = seq_act (handle_json E u j) (serve E u js)"

section \<open>Requests with a channel id\<close>

definition client_call :: "uptr \<Rightarrow> nat \<Rightarrow> string \<Rightarrow> members \<Rightarrow> rpc_call" where
  "client_call u n m ps =
     \<lparr>rid = Some (JUint n), ru = u, version = 2, method = m, params = JObj ps, result = JNull\<rparr>"

lemma client_call_sel [simp]:
  "ru (client_call u n m ps) = u" "method (client_call u n m ps) = m" "params (client_call u n m ps) = JObj ps"
  by (simp_all add: client_call_def)

lemma extract_send_message: "extract_call (make_rpc_call u) (send_message n m ps) = (client_call u n m ps, None)"
  unfolding extract_accepts_iff by (simp add: send_message_def v2_request_def client_call_def)

lemma handle_send_message:
  assumes "number_cast_ok (env_number_cast E)" and "map_of ps ''cid'' = Some (JUint i)" and "i < 2 ^ 64"
    and "cl_at i w = Some c"
    and "chan_dispatch virt_on_insert virt_on_erase (virt_on_dispatch E) E c (client_call u n m ps) w = (Inr (), w')"
  shows "handle_json E u (send_message n m ps) w = (Inr (), w')"
proof -
  have "env_number_cast E (JUint i) = Inr i" using assms(1,3) by (simp add: number_cast_ok_def)
  moreover have "checked_value (JObj ps) ''cid'' = Inr (JUint i)" using assms(2) by (simp add: checked_value_Inr_iff)
  ultimately show ?thesis
    using assms(4,5) by (simp add: handle_json_def extract_send_message lounge_dispatch_def cl_dispatch_def catch_rpc_def)
qed

text \<open>A named user that is not in a channel joins it.\<close>

lemma do_join_joins:
  assumes w: "world_ok w" and x: "chans w c = Some x" and y: "usrs w (ru r) = Some y" "uname y \<noteq> []"
    and new: "(c, ru r) \<notin> joined w"
  shows "\<exists>w'. do_join virt_on_insert E c r w = (Inr (), w') \<and> joined w' = insert (c, ru r) (joined w) \<and>
    map_option uname (usrs w' (ru r)) = Some (uname y)"
proof -
  from new x have n: "ru r \<notin> set (cusers x)" by (auto simp: joined_def)
  from lounge_insert.insert_fresh [OF w x y(1) n, of E] obtain w1 where
    w1: "chan_insert virt_on_insert E c (ru r) w = (Inr True, w1)" "core w1 = core (after_insert E c x (ru r) y w)" by blast
  let ?w = "snd (do_complete E r w1)"
  have "do_join virt_on_insert E c r w = (Inr (), ?w)"
    using w1(1) checked_user_eq [OF y(1)] y(2)
    by (simp add: do_join_def seq_act_def bind_act_def do_complete_def send_all_eq)
  moreover have "joined ?w = insert (c, ru r) (joined w)"
    using after_insert_ok(2) [OF w x y(1), of E] joined_core [OF w1(2)]
    by (simp add: do_complete_def send_all_eq joined_def)
  moreover have "map_option uname (usrs ?w (ru r)) = Some (uname y)"
    using core_eqD(1) [OF w1(2)] by (simp add: do_complete_def send_all_eq after_insert_def)
  ultimately show ?thesis by blast
qed

lemma lounge_channels:
  assumes ok: "lounge_ok s v" and t: "three_channels cs cr ct s"
  shows "cl_at 1 v = Some cs" "cl_at 2 v = Some cr" "cs \<in> dom (chans v)" "cr \<in> dom (chans v)" "world_ok v"
    "map_option ckind (chans v cs) = Some System_channel"
proof -
  from ok have s: "static v = s" and w: "world_ok v" by (simp_all add: lounge_ok_def frame_ok_def)
  show "cl_at 1 v = Some cs" "cl_at 2 v = Some cr" using three_channels_at(1) [OF t s] by simp_all
  show "cs \<in> dom (chans v)" "cr \<in> dom (chans v)" "map_option ckind (chans v cs) = Some System_channel"
    using t unfolding s [symmetric] by (auto simp: three_channels_def static_def)
  show "world_ok v" by (rule w)
qed

section \<open>Properties\<close>

text \<open>
  C13: a client gets in. In every state the server reaches, the two requests that the script sends for a
  user without a name that is not yet in the room, with a name of one to twenty characters, are both carried out: afterwards the
  user has that name and is in the system channel and in the room \<^verbatim>\<open>General\<close>, the memberships of all
  others are as before, and the server is again in a state it can reach.
\<close>

theorem client_gets_in:
  assumes b: "distinct [cr, cs, ct]" "server_boot cr cs ct mem (boot_world g0 rnd) = (Inr (), w0)"
    and r: "lounge_reach E ct w0 w" and u: "usrs w u = Some y" "uname y = []" "(cr, u) \<notin> joined w"
    and nc: "number_cast_ok (env_number_cast E)" and nm: "nm \<noteq> []" "length nm \<le> 20"
  shows "\<exists>w'. serve E u (open_requests nm) w = (Inr (), w') \<and> lounge_reach E ct w0 w' \<and>
    joined w' = joined w \<union> {(cs, u), (cr, u)} \<and> map_option uname (usrs w' u) = Some nm"
proof -
  from boot_ok [OF b(1), of mem g0 rnd] b(2)
  have b: "lounge_ok (static w0) w0" "three_channels cs cr ct (static w0)" by auto
  have at: "cl_at 1 v = Some cs" "cl_at 2 v = Some cr" "cs \<in> dom (chans v)" "cr \<in> dom (chans v)"
    "world_ok v" "map_option ckind (chans v cs) = Some System_channel" if "lounge_reach E ct w0 v" for v
    using lounge_channels [OF reach_ok [OF that b(1)] b(2)] by blast+
  let ?i = "client_call u 1 ''identify'' [(''cid'', JUint 1), (''name'', JStr nm)]"
  let ?j = "client_call u 2 ''join'' [(''cid'', JUint 2)]"
  from at(3,6) [OF r] obtain x where x: "chans w cs = Some x" "ckind x = System_channel" by auto
  have n: "checked_string_key (params ?i) ''name'' = Inr nm"
    by (simp add: checked_string_key_def with_key_def checked_value_def)
  from identify_accepts [OF at(5) [OF r] x(1) _ _ n nm(2), of y E] u obtain w1 where
    w1: "do_identify E cs ?i w = (Inr (), w1)" "map_option uname (usrs w1 u) = Some nm"
      "joined w1 = insert (cs, u) (joined w)" by auto
  have h1: "handle_json E u (send_message 1 ''identify'' [(''cid'', JUint 1), (''name'', JStr nm)]) w = (Inr (), w1)"
    by (rule handle_send_message [OF nc _ _ at(1) [OF r]])
      (simp_all add: chan_dispatch_def virt_on_dispatch_def x system_on_dispatch_def w1(1) [simplified])
  then have r1: "lounge_reach E ct w0 w1" using lounge_reach.request [OF r _ h1] u by auto
  from w1(2) obtain y1 where y1: "usrs w1 u = Some y1" "uname y1 = nm" by auto
  from at(4) [OF r1] obtain x1 where x1: "chans w1 cr = Some x1" by auto
  have "cr \<noteq> cs" using b(2) by (auto simp: three_channels_def)
  then have "(cr, u) \<notin> joined w1" using u(3) w1(3) by auto
  with do_join_joins [OF at(5) [OF r1] x1, of ?j y1 E] y1 nm(1) obtain w2 where
    w2: "do_join virt_on_insert E cr ?j w1 = (Inr (), w2)" "joined w2 = insert (cr, u) (joined w1)"
      "map_option uname (usrs w2 u) = Some nm" by auto
  have h2: "handle_json E u (send_message 2 ''join'' [(''cid'', JUint 2)]) w1 = (Inr (), w2)"
    by (rule handle_send_message [OF nc _ _ at(2) [OF r1]]) (simp_all add: chan_dispatch_def w2(1))
  with y1 have "lounge_reach E ct w0 w2" using lounge_reach.request [OF r1 _ h2] by auto
  moreover have "serve E u (open_requests nm) w = (Inr (), w2)"
    using h1 h2 by (simp add: open_requests_def seq_act_simps)
  ultimately show ?thesis using w1(3) w2(2,3) by auto
qed

theorem client_gets_in_witness:
  "\<exists>w'. serve sample_env 1 (open_requests ''ann'') sample_live = (Inr (), w') \<and>
     joined w' = {(40, 1), (50, 1)}"
proof -
  have "lounge_ok (static sample_boot) sample_boot"
    using boot_ok [of 50 40 60 "\<lambda>_. 0" sample_game "\<lambda>_. 0"] sample_boot_eq by simp
  from reach_ok [OF sample_live_ok(1) [of sample_env] this] have "world_ok sample_live" by (simp add: lounge_ok_def)
  then have "(c, v) \<notin> joined sample_live" for c v
    using members_okD(2) [of "usrs sample_live" "chans sample_live" c _ v] sample_live_ok(2)
    by (cases "v = 1") (fastforce simp: joined_def world_ok_def)+
  then have "joined sample_live = {}" by auto
  then show ?thesis
    using client_gets_in [OF _ sample_boot_eq sample_live_ok(1) _ _ _ sample_env_cast, of 1 _ "''ann''"] sample_live_ok(2)
    by (simp add: insert_commute) blast
qed

end
