(* ===== verification/Test_Suite.thy ===== *)
theory Test_Suite
  imports Lounge_State "HOL-Library.Sublist" "HOL-Library.Signed_Division"
begin

text \<open>
  \<^verbatim>\<open>test/test_suite.hpp\<close>: the unit-test harness of the repository, with its checkpoints, the runner that
  counts and reports, the list of suites and the command line. A suite is the sequence of the
  checks its body makes, each with the value of its condition; an exception can leave it. The text
  written to the log is a string, the readings of the clock are numbered.
\<close>

section \<open>The code\<close>

subsection \<open>Checkpoints and runners\<close>

record checkpoint =
  cp_file :: string
  cp_line :: int
  cp_id :: nat

record summary =
  sum_name :: string
  sum_start :: int
  sum_elapsed :: "int option"
  sum_failed :: nat
  sum_total :: nat

text \<open>
  What a suite does to the harness, one constructor for each macro. \<open>Test_throws\<close> has what became
  of its expression: it returned, it threw the expected exception, or another one.
\<close>

datatype test_stmt =
    Test bool string string int
  | Test_error string string int
  | Test_pass string int
  | Test_fail string int
  | Test_throws "bool option" string string int
  | Test_log string
  | Checkpoint string int "test_stmt list"
  | Throw exn

record suite_info =
  suite_name :: string
  suite_body :: "test_stmt list"

text \<open>
  The checkpoint in force and the ones it hides, the static counter behind their numbers, the
  runner in force, the members of the \<^verbatim>\<open>simple_runner\<close>, the log and the list of suites.
\<close>

record harness =
  cps :: "checkpoint list"
  cp_count :: nat
  cur :: "nat option"
  all_start :: int
  all_failed :: nat
  all_total :: nat
  run_v :: "summary list"
  test_out :: string
  ticks :: nat
  suites :: "suite_info list"

text \<open>
  The clock, in nanoseconds, and the text of a number of milliseconds as seconds with one decimal,
  which the stream formats.
\<close>

record test_env =
  test_clock :: "nat \<Rightarrow> int"
  test_secs :: "int \<Rightarrow> string"

definition new_checkpoint :: "string \<Rightarrow> int \<Rightarrow> (harness, unit) act" where
  "new_checkpoint file line =
     modify (\<lambda>h. h\<lparr>cp_count := cp_count h + 1, cps := \<lparr>cp_file = file, cp_line = line, cp_id = cp_count h + 1\<rparr> # cps h\<rparr>)"

definition drop_checkpoint :: "harness \<Rightarrow> harness" where
  "drop_checkpoint h = h\<lparr>cps := tl (cps h)\<rparr>"

definition log_out :: "string \<Rightarrow> (harness, unit) act" where
  "log_out s = modify (\<lambda>h. h\<lparr>test_out := test_out h @ s\<rparr>)"

definition read_clock :: "test_env \<Rightarrow> (harness, int) act" where
  "read_clock T h = (Inr (test_clock T (ticks h)), h\<lparr>ticks := ticks h + 1\<rparr>)"

definition endl :: string where
  "endl = [CHR 0x0A]"

text \<open>\<^verbatim>\<open>filename\<close>: the pointer goes back from the end to a slash or to the start.\<close>

fun filename_scan :: "string \<Rightarrow> nat \<Rightarrow> nat" where
  "filename_scan s 0 = 0"
| "filename_scan s (Suc p) = (if s ! p = CHR ''/'' then Suc p else filename_scan s p)"

definition filename :: "string \<Rightarrow> string" where
  "filename s = drop (filename_scan s (length s)) s"

subsection \<open>simple_runner\<close>

text \<open>\<^verbatim>\<open>v_.back()\<close> of an empty vector is undefined.\<close>

definition upd_back :: "(summary \<Rightarrow> summary) \<Rightarrow> (harness, unit) act" where
  "upd_back f h =
     (if run_v h = [] then (Inl Undefined, h)
      else (Inr (), h\<lparr>run_v := butlast (run_v h) @ [f (last (run_v h))]\<rparr>))"

definition on_begin :: "test_env \<Rightarrow> string \<Rightarrow> (harness, unit) act" where
  "on_begin T nm =
     bind_act (read_clock T) (\<lambda>t.
       seq_act (modify (\<lambda>h. h\<lparr>run_v := run_v h @
           [\<lparr>sum_name = nm, sum_start = t, sum_elapsed = None, sum_failed = 0, sum_total = 0\<rparr>]\<rparr>))
         (log_out (nm @ endl)))"

definition on_end :: "test_env \<Rightarrow> (harness, unit) act" where
  "on_end T = bind_act (read_clock T) (\<lambda>t. upd_back (\<lambda>s. s\<lparr>sum_elapsed := Some (t - sum_start s)\<rparr>))"

definition runner_note :: "string \<Rightarrow> (harness, unit) act" where
  "runner_note msg = log_out (msg @ endl)"

definition runner_pass :: "(harness, unit) act" where
  "runner_pass =
     seq_act (modify (\<lambda>h. h\<lparr>all_total := all_total h + 1\<rparr>))
       (upd_back (\<lambda>s. s\<lparr>sum_total := sum_total s + 1\<rparr>))"

definition fail_text :: "checkpoint option \<Rightarrow> nat \<Rightarrow> string \<Rightarrow> string \<Rightarrow> int \<Rightarrow> string" where
  "fail_text cp n expr file line =
     (case cp of
        Some c \<Rightarrow> ''case '' @ nat_to_string (cp_id c) @ ''(#'' @ nat_to_string n @ '') '' @ filename (cp_file c) @
          ''('' @ int_to_string (cp_line c) @ '') '' @ ''failed:'' @ expr @ endl
      | None \<Rightarrow> ''#'' @ nat_to_string n @ '' '' @ filename file @ ''('' @ int_to_string line @ '') '' @
          ''failed: '' @ expr @ endl)"

definition runner_fail :: "string \<Rightarrow> string \<Rightarrow> int \<Rightarrow> (harness, unit) act" where
  "runner_fail expr file line =
     seq_act (modify (\<lambda>h. h\<lparr>all_failed := all_failed h + 1\<rparr>))
       (seq_act (upd_back (\<lambda>s. s\<lparr>sum_total := sum_total s + 1, sum_failed := sum_failed s + 1\<rparr>))
         (seq_act (modify (\<lambda>h. h\<lparr>all_total := all_total h + 1\<rparr>))
           (\<lambda>h. log_out (fail_text (if cps h = [] then None else Some (hd (cps h))) (all_total h) expr file line) h)))"

definition maybe_fail :: "bool \<Rightarrow> string \<Rightarrow> string \<Rightarrow> int \<Rightarrow> (harness, bool) act" where
  "maybe_fail cond expr file line =
     (if cond then seq_act runner_pass (ret True) else seq_act (runner_fail expr file line) (ret False))"

definition success :: "harness \<Rightarrow> bool" where
  "success h \<longleftrightarrow> all_failed h = 0"

text \<open>\<^verbatim>\<open>current()->...\<close>, which is undefined without a runner.\<close>

definition on_current :: "(harness, 'a) act \<Rightarrow> (harness, 'a) act" where
  "on_current m h = (if cur h = None then (Inl Undefined, h) else m h)"

text \<open>\<^verbatim>\<open>log_ostream\<close>: what is in the buffer is a note, up to the first null character.\<close>

definition log_sync :: "string \<Rightarrow> (harness, string) act" where
  "log_sync s =
     (if length s > 0 then seq_act (on_current (runner_note (takeWhile (\<lambda>c. c \<noteq> CHR 0x00) s))) (ret [])
      else ret [])"

subsection \<open>Suites\<close>

text \<open>
  The macros. A checkpoint is in force to the end of its scope, however the scope is left.
\<close>

fun run_stmt :: "test_stmt \<Rightarrow> (harness, unit) act" and run_stmts :: "test_stmt list \<Rightarrow> (harness, unit) act" where
  "run_stmt (Test cond expr file line) =
     on_current (bind_act (maybe_fail cond expr file line) (\<lambda>_. ret ()))"
| "run_stmt (Test_error msg file line) = on_current (runner_fail msg file line)"
| "run_stmt (Test_pass file line) = on_current runner_pass"
| "run_stmt (Test_fail file line) = on_current (runner_fail [] file line)"
| "run_stmt (Test_throws res ex file line) =
     (case res of
        None \<Rightarrow> on_current (runner_fail ex file line)
      | Some True \<Rightarrow> on_current runner_pass
      | Some False \<Rightarrow> on_current (runner_fail ex file line))"
| "run_stmt (Test_log s) = on_current (log_out s)"
| "run_stmt (Checkpoint file line body) =
     seq_act (new_checkpoint file line) (\<lambda>h. let (r, h') = run_stmts body h in (r, drop_checkpoint h'))"
| "run_stmt (Throw e) = throw e"
| "run_stmts [] = ret ()"
| "run_stmts (s # ss) = seq_act (run_stmt s) (run_stmts ss)"

definition max_suites :: nat where
  "max_suites = 256"

definition insert_suite :: "suite_info \<Rightarrow> (harness, unit) act" where
  "insert_suite si h =
     (if length (suites h) = max_suites then (Inl Length_error, h)
      else (Inr (), h\<lparr>suites := suites h @ [si]\<rparr>))"

text \<open>\<^verbatim>\<open>lexicographical_compare\<close> of two names, with \<^verbatim>\<open>char\<close> signed.\<close>

definition char_value :: "char \<Rightarrow> int" where
  "char_value c = (let n = of_char c in if n < 128 then n else n - 256)"

fun name_less :: "string \<Rightarrow> string \<Rightarrow> bool" where
  "name_less _ [] = False"
| "name_less [] (d # ds) = True"
| "name_less (c # cs) (d # ds) =
     (char_value c < char_value d \<or> (\<not> char_value d < char_value c \<and> name_less cs ds))"

text \<open>
  \<^verbatim>\<open>std::sort\<close> by name. It may leave suites of the same name in any order; here it is the one they had.
\<close>

fun insert_by_name :: "suite_info \<Rightarrow> suite_info list \<Rightarrow> suite_info list" where
  "insert_by_name x [] = [x]"
| "insert_by_name x (y # ys) =
     (if name_less (suite_name y) (suite_name x) then y # insert_by_name x ys else x # y # ys)"

definition sort_suites :: "suite_info list \<Rightarrow> suite_info list" where
  "sort_suites xs = foldr insert_by_name xs []"

text \<open>\<^verbatim>\<open>instance<T>\<close>: the constructor lists the suite, \<^verbatim>\<open>run\<close> puts the runner back that was in force.\<close>

definition make_instance :: "string \<Rightarrow> test_stmt list \<Rightarrow> (harness, unit) act" where
  "make_instance nm body = insert_suite \<lparr>suite_name = nm, suite_body = body\<rparr>"

definition instance_run :: "suite_info \<Rightarrow> (harness, unit) act" where
  "instance_run si h =
     (let saved = cur h in seq_act (run_stmts (suite_body si)) (modify (\<lambda>h. h\<lparr>cur := saved\<rparr>)) h)"

definition runner_run :: "test_env \<Rightarrow> suite_info \<Rightarrow> (harness, unit) act" where
  "runner_run T si = seq_act (on_begin T (suite_name si)) (seq_act (instance_run si) (on_end T))"

subsection \<open>The command line\<close>

text \<open>The constructor and the destructor of the runner at address \<open>a\<close>, with what they print.\<close>

definition runner_ctor :: "test_env \<Rightarrow> nat \<Rightarrow> (harness, nat option) act" where
  "runner_ctor T a =
     bind_act (read_clock T) (\<lambda>t h.
       (Inr (cur h), h\<lparr>cur := Some a, all_start := t, all_failed := 0, all_total := 0, run_v := []\<rparr>))"

definition elapsed_text :: "test_env \<Rightarrow> int \<Rightarrow> string" where
  "elapsed_text T d =
     (let ms = d sdiv 1000000 in
      if ms < 1000 then int_to_string ms @ ''ms'' else test_secs T ms @ ''s'')"

definition runner_dtor :: "test_env \<Rightarrow> nat option \<Rightarrow> (harness, unit) act" where
  "runner_dtor T saved =
     bind_act (read_clock T) (\<lambda>t h.
       seq_act (log_out (elapsed_text T (t - all_start h) @ '', '' @ nat_to_string (length (run_v h)) @
           '' suites, '' @ nat_to_string (all_failed h) @ '' failures, '' @ nat_to_string (all_total h) @
           '' total.'' @ endl))
         (modify (\<lambda>h. h\<lparr>cur := saved\<rparr>)) h)"

definition arg_matches :: "string \<Rightarrow> string \<Rightarrow> bool" where
  "arg_matches s arg =
     (if length arg > length s then False else take (length arg) (drop (length s - length arg) s) = arg)"

text \<open>The loops over the suites: all of them, or those a name on the command line ends.\<close>

fun run_all :: "test_env \<Rightarrow> suite_info list \<Rightarrow> (harness, unit) act" where
  "run_all T [] = ret ()"
| "run_all T (s # ss) = seq_act (runner_run T s) (run_all T ss)"

fun run_matching :: "test_env \<Rightarrow> string list \<Rightarrow> suite_info list \<Rightarrow> (harness, unit) act" where
  "run_matching T args [] = ret ()"
| "run_matching T args (s # ss) =
     seq_act (if list_ex (arg_matches (suite_name s)) args then runner_run T s else ret ()) (run_matching T args ss)"

text \<open>
  \<^verbatim>\<open>run\<close>, with the exit code. \<open>argv\<close> has \<^verbatim>\<open>argc\<close> elements; reserving room for \<^verbatim>\<open>argc - 1\<close> strings throws
  when there is none. An exception of a suite leaves \<^verbatim>\<open>main\<close>.
\<close>

definition test_run :: "test_env \<Rightarrow> nat \<Rightarrow> string list \<Rightarrow> (harness, int) act" where
  "test_run T a argv =
     (if length argv = 2 \<and> (argv ! 1 = ''-h'' \<or> argv ! 1 = ''--help'')
      then seq_act (log_out (''Usage:'' @ endl @ ''  '' @ argv ! 0 @ '': { <suite-name>... }'' @ endl)) (ret 0)
      else bind_act (runner_ctor T a) (\<lambda>saved.
        seq_act (modify (\<lambda>h. h\<lparr>suites := sort_suites (suites h)\<rparr>))
          (seq_act
            (if length argv = 1 then (\<lambda>h. run_all T (suites h) h)
             else if argv = [] then throw Length_error
             else (\<lambda>h. run_matching T (tl argv) (suites h) h))
            (\<lambda>h. let code = (if success h then 0 else 1) in seq_act (runner_dtor T saved) (ret code) h))))"

section \<open>What a suite amounts to\<close>

text \<open>The verdicts of the checks a body makes, in order, and whether it ends without an exception.\<close>

fun verdicts :: "test_stmt \<Rightarrow> bool list" where
  "verdicts (Test cond expr file line) = [cond]"
| "verdicts (Test_error msg file line) = [False]"
| "verdicts (Test_pass file line) = [True]"
| "verdicts (Test_fail file line) = [False]"
| "verdicts (Test_throws res ex file line) = [res = Some True]"
| "verdicts (Test_log s) = []"
| "verdicts (Checkpoint file line body) = concat (map verdicts body)"
| "verdicts (Throw e) = []"

fun ends :: "test_stmt \<Rightarrow> bool" where
  "ends (Checkpoint file line body) = list_all ends body"
| "ends (Throw e) = False"
| "ends _ = True"

definition suite_verdicts :: "suite_info \<Rightarrow> bool list" where
  "suite_verdicts s = concat (map verdicts (suite_body s))"

definition suite_ends :: "suite_info \<Rightarrow> bool" where
  "suite_ends s = list_all ends (suite_body s)"

definition fails :: "bool list \<Rightarrow> nat" where
  "fails vs = length (filter Not vs)"

lemma fails_simps [simp]: "fails [] = 0" "fails (v # vs) = (if v then 0 else 1) + fails vs"
  "fails (vs @ ws) = fails vs + fails ws"
  by (simp_all add: fails_def)

lemma fails_0_iff: "fails vs = 0 \<longleftrightarrow> (\<forall>v \<in> set vs. v)"
  by (auto simp: fails_def filter_empty_conv)

definition add_tally :: "bool list \<Rightarrow> summary \<Rightarrow> summary" where
  "add_tally vs s = s\<lparr>sum_failed := sum_failed s + fails vs, sum_total := sum_total s + length vs\<rparr>"

text \<open>What the checks of a body leave in the harness, apart from the text.\<close>

definition tallied :: "bool list \<Rightarrow> harness \<Rightarrow> harness \<Rightarrow> bool" where
  "tallied vs h h' \<longleftrightarrow>
     cur h' = cur h \<and> cps h' = cps h \<and> suites h' = suites h \<and> all_start h' = all_start h \<and> ticks h' = ticks h \<and>
     all_total h' = all_total h + length vs \<and> all_failed h' = all_failed h + fails vs \<and>
     run_v h' = butlast (run_v h) @ [add_tally vs (last (run_v h))]"

lemma tallied_refl: "run_v h \<noteq> [] \<Longrightarrow> tallied [] h h"
  by (simp add: tallied_def add_tally_def)

lemma tallied_trans: "tallied vs h h1 \<Longrightarrow> tallied ws h1 h2 \<Longrightarrow> tallied (vs @ ws) h h2"
  by (simp add: tallied_def add_tally_def add.assoc)

lemma tallied_pass:
  "run_v h \<noteq> [] \<Longrightarrow> \<exists>h'. runner_pass h = (Inr (), h') \<and> tallied [True] h h'"
  by (simp add: runner_pass_def seq_act_def bind_act_def upd_back_def tallied_def add_tally_def)

lemma tallied_fail:
  "run_v h \<noteq> [] \<Longrightarrow> \<exists>h'. runner_fail ex file line h = (Inr (), h') \<and> tallied [False] h h'"
  by (simp add: runner_fail_def seq_act_def bind_act_def upd_back_def log_out_def tallied_def add_tally_def)

lemmas tally_simps = on_current_def maybe_fail_def seq_act_def bind_act_def

text \<open>
  A body that no exception leaves runs to its end, counts every check once, and leaves the
  checkpoints and the runner as they were.
\<close>

lemma run_body:
  "cur h \<noteq> None \<Longrightarrow> run_v h \<noteq> [] \<Longrightarrow> ends s \<Longrightarrow> \<exists>h'. run_stmt s h = (Inr (), h') \<and> tallied (verdicts s) h h'"
  "cur h \<noteq> None \<Longrightarrow> run_v h \<noteq> [] \<Longrightarrow> list_all ends ss \<Longrightarrow>
     \<exists>h'. run_stmts ss h = (Inr (), h') \<and> tallied (concat (map verdicts ss)) h h'"
proof (induction s and ss arbitrary: h and h rule: run_stmt_run_stmts.induct)
  case (1 cond expr f l)
  then show ?case
    using tallied_pass [of h] tallied_fail [of h expr f l] by (cases cond) (auto simp: tally_simps)
next
  case (2 msg f l)
  then show ?case using tallied_fail [of h msg f l] by (auto simp: tally_simps)
next
  case (3 f l)
  then show ?case using tallied_pass [of h] by (auto simp: tally_simps)
next
  case (4 f l)
  then show ?case using tallied_fail [of h "[]" f l] by (auto simp: tally_simps)
next
  case (5 res ex f l)
  then show ?case
    using tallied_pass [of h] tallied_fail [of h ex f l]
    by (auto simp: tally_simps split: option.splits bool.splits)
next
  case (6 s)
  then show ?case by (simp add: tally_simps log_out_def tallied_def add_tally_def)
next
  case (7 f l body)
  let ?h = "snd (new_checkpoint f l h)"
  have h: "new_checkpoint f l h = (Inr (), ?h)" "cur ?h = cur h" "run_v ?h = run_v h" "tl (cps ?h) = cps h"
    by (simp_all add: new_checkpoint_def)
  from "7.IH" [of ?h] "7.prems" h(2,3) obtain h' where
    h': "run_stmts body ?h = (Inr (), h')" "tallied (concat (map verdicts body)) ?h h'" by auto
  then have "tallied (concat (map verdicts body)) h (drop_checkpoint h')"
    by (simp add: tallied_def drop_checkpoint_def new_checkpoint_def)
  then show ?case using h' h(1) by (simp add: seq_act_simps)
next
  case (10 s ss)
  from 10 obtain h1 where h1: "run_stmt s h = (Inr (), h1)" "tallied (verdicts s) h h1" by auto
  then have "cur h1 \<noteq> None" "run_v h1 \<noteq> []" using "10.prems" by (simp_all add: tallied_def)
  with 10 obtain h2 where "run_stmts ss h1 = (Inr (), h2)" "tallied (concat (map verdicts ss)) h1 h2" by auto
  with h1 show ?case by (auto simp: seq_act_simps intro: tallied_trans)
qed (simp_all add: tallied_refl)


section \<open>Runs of suites\<close>

definition results :: "harness \<Rightarrow> (string \<times> nat \<times> nat) list" where
  "results h = map (\<lambda>s. (sum_name s, sum_failed s, sum_total s)) (run_v h)"

definition suite_result :: "suite_info \<Rightarrow> string \<times> nat \<times> nat" where
  "suite_result s = (suite_name s, fails (suite_verdicts s), length (suite_verdicts s))"

text \<open>What running some suites leaves in the harness.\<close>

definition ran :: "suite_info list \<Rightarrow> harness \<Rightarrow> harness \<Rightarrow> bool" where
  "ran ss h h' \<longleftrightarrow>
     cur h' = cur h \<and> cps h' = cps h \<and> suites h' = suites h \<and>
     all_total h' = all_total h + length (concat (map suite_verdicts ss)) \<and>
     all_failed h' = all_failed h + fails (concat (map suite_verdicts ss)) \<and>
     results h' = results h @ map suite_result ss"

definition new_summary :: "string \<Rightarrow> int \<Rightarrow> summary" where
  "new_summary nm t = \<lparr>sum_name = nm, sum_start = t, sum_elapsed = None, sum_failed = 0, sum_total = 0\<rparr>"

lemma on_begin_eq:
  "\<exists>b. on_begin T nm h = (Inr (), b) \<and> cur b = cur h \<and> cps b = cps h \<and> suites b = suites h \<and>
     all_total b = all_total h \<and> all_failed b = all_failed h \<and>
     run_v b = run_v h @ [new_summary nm (test_clock T (ticks h))]"
  by (simp add: on_begin_def read_clock_def seq_act_def bind_act_def log_out_def new_summary_def)

lemma on_end_eq:
  assumes "run_v h \<noteq> []"
  shows "\<exists>h'. on_end T h = (Inr (), h') \<and> cur h' = cur h \<and> cps h' = cps h \<and> suites h' = suites h \<and>
    all_total h' = all_total h \<and> all_failed h' = all_failed h \<and> results h' = results h"
  using assms by (cases "run_v h" rule: rev_cases)
    (simp_all add: on_end_def read_clock_def bind_act_def upd_back_def results_def)

lemma runner_run_ran:
  assumes "cur h \<noteq> None" and "suite_ends s"
  shows "\<exists>h'. runner_run T s h = (Inr (), h') \<and> ran [s] h h'"
proof -
  from on_begin_eq [of T "suite_name s" h] obtain b t where
    b: "on_begin T (suite_name s) h = (Inr (), b)" "cur b = cur h" "cps b = cps h" "suites b = suites h"
      "all_total b = all_total h" "all_failed b = all_failed h" "run_v b = run_v h @ [new_summary (suite_name s) t]" by blast
  from run_body(2) [of b "suite_body s"] assms b(2,7) obtain h1 where
    h1: "run_stmts (suite_body s) b = (Inr (), h1)" "tallied (suite_verdicts s) b h1"
    by (auto simp: suite_ends_def suite_verdicts_def)
  then have i: "instance_run s b = (Inr (), h1)"
    by (simp add: instance_run_def seq_act_simps tallied_def Let_def)
  have v: "run_v h1 = run_v h @ [add_tally (suite_verdicts s) (new_summary (suite_name s) t)]"
    using h1(2) b(7) by (simp add: tallied_def)
  then obtain h' where h': "on_end T h1 = (Inr (), h')" "cur h' = cur h1" "cps h' = cps h1" "suites h' = suites h1"
    "all_total h' = all_total h1" "all_failed h' = all_failed h1" "results h' = results h1"
    using on_end_eq [of h1 T] by auto
  have "results h1 = results h @ [suite_result s]"
    by (simp add: results_def v suite_result_def add_tally_def new_summary_def)
  then have "ran [s] h h'" using h' h1(2) b by (simp add: ran_def tallied_def)
  with i h'(1) show ?thesis unfolding runner_run_def by (simp add: seq_act_simps b(1))
qed

lemma run_all_ran:
  "cur h \<noteq> None \<Longrightarrow> list_all suite_ends ss \<Longrightarrow> \<exists>h'. run_all T ss h = (Inr (), h') \<and> ran ss h h'"
proof (induction ss arbitrary: h)
  case Nil
  then show ?case by (simp add: ran_def)
next
  case (Cons s ss)
  from runner_run_ran [of h s T] Cons.prems obtain h1 where h1: "runner_run T s h = (Inr (), h1)" "ran [s] h h1" by auto
  then have "cur h1 \<noteq> None" using Cons.prems by (simp add: ran_def)
  with Cons obtain h2 where h2: "run_all T ss h1 = (Inr (), h2)" "ran ss h1 h2" by auto
  then have "ran (s # ss) h h2" using h1(2) by (simp add: ran_def)
  with h1(1) h2(1) show ?case by (simp add: seq_act_simps)
qed

lemma arg_matches_suffix: "arg_matches s arg \<longleftrightarrow> suffix arg s"
proof -
  have "suffix arg s \<Longrightarrow> drop (length s - length arg) s = arg" by (auto simp: suffix_def)
  moreover have "drop (length s - length arg) s = arg \<Longrightarrow> suffix arg s" by (metis suffix_drop)
  ultimately show ?thesis by (auto simp: arg_matches_def suffix_length_le dest: suffix_length_le)
qed

lemma run_matching_all:
  "run_matching T args ss = run_all T (filter (\<lambda>s. \<exists>a \<in> set args. suffix a (suite_name s)) ss)"
proof (induction ss)
  case (Cons s ss)
  have "seq_act (ret ()) m = m" for m :: "(harness, unit) act" by (simp add: fun_eq_iff)
  with Cons show ?case by (auto simp: list_ex_iff arg_matches_suffix)
qed simp

text \<open>The order of the names, and the list in that order.\<close>

lemma name_less_irrefl: "\<not> name_less s s"
  by (induction s) auto

lemma name_less_asym: "name_less s t \<Longrightarrow> \<not> name_less t s"
  by (induction s t rule: name_less.induct) auto

lemma name_less_trans_not: "\<not> name_less t s \<Longrightarrow> \<not> name_less r t \<Longrightarrow> \<not> name_less r s"
proof (induction t s arbitrary: r rule: name_less.induct)
  case (3 c cs d ds)
  then show ?case by (cases r) auto
next
  case (2 d ds)
  then show ?case by simp
next
  case (1 t)
  then show ?case by (cases r) auto
qed

definition by_name :: "suite_info \<Rightarrow> suite_info \<Rightarrow> bool" where
  "by_name x y \<longleftrightarrow> \<not> name_less (suite_name y) (suite_name x)"

lemma mset_insert_by_name [simp]: "mset (insert_by_name x ys) = add_mset x (mset ys)"
  by (induction ys) auto

lemma set_insert_by_name [simp]: "set (insert_by_name x ys) = insert x (set ys)"
  by (induction ys) auto

lemma insert_by_name_sorted: "sorted_wrt by_name ys \<Longrightarrow> sorted_wrt by_name (insert_by_name x ys)"
  by (induction ys) (auto simp: by_name_def dest: name_less_asym name_less_trans_not)

lemma sort_suites_sorts: "mset (sort_suites xs) = mset xs" "sorted_wrt by_name (sort_suites xs)"
  "set (sort_suites xs) = set xs"
  by (induction xs) (simp_all add: sort_suites_def insert_by_name_sorted)

lemma filename_slash:
  assumes "CHR ''/'' \<notin> set f"
  shows "filename f = f" "filename (d @ CHR ''/'' # f) = f"
proof -
  have n: "filename_scan s p = 0" if "p \<le> length s" "CHR ''/'' \<notin> set s" for s p
    using that by (induction p) (auto simp: in_set_conv_nth)
  from n [of "length f" f] assms show "filename f = f" by (simp add: filename_def)
  have "filename_scan (d @ CHR ''/'' # f) (Suc (length d) + k) = Suc (length d)" if "k \<le> length f" for k
    using that
  proof (induction k)
    case (Suc k)
    with assms have "f ! k \<noteq> CHR ''/''" by (metis Suc_le_lessD nth_mem)
    with Suc show ?case by (simp add: nth_append)
  qed (simp add: nth_append)
  from this [of "length f"] show "filename (d @ CHR ''/'' # f) = f" by (simp add: filename_def)
qed


section \<open>The command line, proved\<close>

definition selected :: "string list \<Rightarrow> suite_info list \<Rightarrow> suite_info list" where
  "selected args ss = filter (\<lambda>s. args = [] \<or> (\<exists>a \<in> set args. suffix a (suite_name s))) (sort_suites ss)"

definition wants_help :: "string list \<Rightarrow> bool" where
  "wants_help argv \<longleftrightarrow> length argv = 2 \<and> argv ! 1 \<in> {''-h'', ''--help''}"

lemma runner_ctor_eq:
  "\<exists>h1. runner_ctor T a h = (Inr (cur h), h1) \<and> cur h1 = Some a \<and> cps h1 = cps h \<and> suites h1 = suites h \<and>
     all_failed h1 = 0 \<and> all_total h1 = 0 \<and> results h1 = []"
  by (simp add: runner_ctor_def read_clock_def bind_act_def results_def)

lemma runner_dtor_eq:
  "\<exists>h1. seq_act (runner_dtor T saved) (ret code) h = (Inr code, h1) \<and> cur h1 = saved \<and> cps h1 = cps h \<and>
     suites h1 = suites h \<and> all_failed h1 = all_failed h \<and> all_total h1 = all_total h \<and> results h1 = results h"
  by (simp add: runner_dtor_def read_clock_def bind_act_def seq_act_def log_out_def results_def)

lemma run_selected:
  assumes "argv \<noteq> []"
  shows "(if length argv = 1 then (\<lambda>h. run_all T (suites h) h)
      else if argv = [] then throw Length_error else (\<lambda>h. run_matching T (tl argv) (suites h) h)) (h\<lparr>suites := sort_suites ss\<rparr>) =
    run_all T (selected (tl argv) ss) (h\<lparr>suites := sort_suites ss\<rparr>)"
  using assms by (cases argv) (auto simp: selected_def run_matching_all)

end
