(* ===== verification/Expected.thy ===== *)
theory Expected
  imports Lounge_Prelude
begin

text \<open>
  The value-or-error type \<^verbatim>\<open>expected<T>\<close> of
  \<^verbatim>\<open>include/boost/beast/_experimental/core/expected.hpp\<close> and its implementation file: a union of a \<^verbatim>\<open>T\<close>
  and an \<^verbatim>\<open>error_code\<close> with a flag. The objects live in a store, so that an operation can be applied to
  an object and itself, and the store records every \<^verbatim>\<open>T\<close> that was overwritten without being destroyed.
  How a \<^verbatim>\<open>T\<close> is copied and moved is an argument.
\<close>

section \<open>The code\<close>

datatype ('a, 'e) slot = Raw | Val 'a | Err 'e

record ('a, 'e) cell =
  slot :: "('a, 'e) slot"
  v_flag :: bool

record ('a, 'e) mem =
  cells :: "nat \<Rightarrow> ('a, 'e) cell option"
  lost :: "'a list"

text \<open>
  Undefined behaviour, the exception of \<^verbatim>\<open>value()\<close>, an exception of the copy constructor of \<^verbatim>\<open>T\<close>, one that
  leaves a \<^verbatim>\<open>noexcept\<close> function and so ends the program, and a failed assertion.
\<close>

datatype exp_error = Ub | Bad_expected_access | Copy_threw | Terminated | Asserted

type_synonym ('s, 'b) eff = "'s \<Rightarrow> (exp_error + 'b) \<times> 's"

text \<open>
  \<open>cp\<close> is the copy constructor of \<^verbatim>\<open>T\<close>, which may throw; \<open>mv\<close> its move constructor, with what it leaves behind;
  \<open>inv_arg\<close> is \<^verbatim>\<open>errc::invalid_argument\<close>.
\<close>

record ('a, 'e) ops =
  cp :: "'a \<Rightarrow> 'a option"
  mv :: "'a \<Rightarrow> 'a \<times> 'a"
  inv_arg :: 'e

definition at :: "nat \<Rightarrow> (('a, 'e) cell \<Rightarrow> (('a, 'e) mem, 'b) eff) \<Rightarrow> (('a, 'e) mem, 'b) eff" where
  "at a f m = (case cells m a of None \<Rightarrow> (Inl Ub, m) | Some c \<Rightarrow> f c m)"

definition seq_eff :: "('s, 'b) eff \<Rightarrow> ('s, 'c) eff \<Rightarrow> ('s, 'c) eff" where
  "seq_eff f g s = (case f s of (Inl e, s') \<Rightarrow> (Inl e, s') | (Inr _, s') \<Rightarrow> g s')"

text \<open>A placement \<^verbatim>\<open>new\<close> into the union, and a write of the flag.\<close>

definition place :: "nat \<Rightarrow> ('a, 'e) slot \<Rightarrow> (('a, 'e) mem, unit) eff" where
  "place a x = at a (\<lambda>c m.
     (Inr (), m\<lparr>cells := (cells m)(a \<mapsto> c\<lparr>slot := x\<rparr>),
              lost := lost m @ (case slot c of Val y \<Rightarrow> [y] | _ \<Rightarrow> [])\<rparr>))"

definition set_flag :: "nat \<Rightarrow> bool \<Rightarrow> (('a, 'e) mem, unit) eff" where
  "set_flag a b = at a (\<lambda>c m. (Inr (), m\<lparr>cells := (cells m)(a \<mapsto> c\<lparr>v_flag := b\<rparr>)\<rparr>))"

text \<open>Storage for an object whose constructor runs; it must be free.\<close>

definition allocate :: "nat \<Rightarrow> bool \<Rightarrow> (('a, 'e) mem, unit) eff" where
  "allocate a b m =
     (if cells m a \<noteq> None then (Inl Ub, m)
      else (Inr (), m\<lparr>cells := (cells m)(a \<mapsto> \<lparr>slot = Raw, v_flag = b\<rparr>)\<rparr>))"

text \<open>When a constructor throws there is no object.\<close>

definition deallocate :: "nat \<Rightarrow> ('a, 'e) mem \<Rightarrow> ('a, 'e) mem" where
  "deallocate a m = m\<lparr>cells := (cells m)(a := None)\<rparr>"

definition exp_destroy :: "nat \<Rightarrow> (('a, 'e) mem, unit) eff" where
  "exp_destroy a = at a (\<lambda>c m.
     case slot c of
       Val x \<Rightarrow> if v_flag c then (Inr (), m\<lparr>cells := (cells m)(a \<mapsto> c\<lparr>slot := Raw\<rparr>)\<rparr>) else (Inl Ub, m)
     | Err e \<Rightarrow> if v_flag c then (Inl Ub, m) else (Inr (), m\<lparr>cells := (cells m)(a \<mapsto> c\<lparr>slot := Raw\<rparr>)\<rparr>)
     | Raw \<Rightarrow> (Inl Ub, m))"

text \<open>\<^verbatim>\<open>move\<close>: the union is built from the member of \<open>b\<close> that its flag names.\<close>

definition exp_move :: "('a, 'e) ops \<Rightarrow> nat \<Rightarrow> nat \<Rightarrow> (('a, 'e) mem, unit) eff" where
  "exp_move T a b = at b (\<lambda>cb. seq_eff (set_flag a (v_flag cb)) (at b (\<lambda>cb.
     if v_flag cb then
       (case slot cb of
          Val x \<Rightarrow> seq_eff (\<lambda>m. (Inr (), m\<lparr>cells := (cells m)(b \<mapsto> cb\<lparr>slot := Val (snd (mv T x))\<rparr>)\<rparr>))
                    (place a (Val (fst (mv T x))))
        | _ \<Rightarrow> \<lambda>m. (Inl Ub, m))
     else
       (case slot cb of Err e \<Rightarrow> place a (Err e) | _ \<Rightarrow> \<lambda>m. (Inl Ub, m)))))"

definition exp_dtor :: "nat \<Rightarrow> (('a, 'e) mem, unit) eff" where
  "exp_dtor a = seq_eff (exp_destroy a) (\<lambda>m. (Inr (), deallocate a m))"

definition exp_move_ctor :: "('a, 'e) ops \<Rightarrow> nat \<Rightarrow> nat \<Rightarrow> (('a, 'e) mem, unit) eff" where
  "exp_move_ctor T a b = seq_eff (allocate a False) (exp_move T a b)"

definition exp_copy_ctor :: "('a, 'e) ops \<Rightarrow> nat \<Rightarrow> nat \<Rightarrow> (('a, 'e) mem, unit) eff" where
  "exp_copy_ctor T a b = at b (\<lambda>cb. seq_eff (allocate a (v_flag cb))
     (if v_flag cb then
        (case slot cb of
           Val x \<Rightarrow> (case cp T x of None \<Rightarrow> \<lambda>m. (Inl Copy_threw, deallocate a m) | Some y \<Rightarrow> place a (Val y))
         | _ \<Rightarrow> \<lambda>m. (Inl Ub, m))
      else (case slot cb of Err e \<Rightarrow> place a (Err e) | _ \<Rightarrow> \<lambda>m. (Inl Ub, m))))"

definition exp_move_assign :: "('a, 'e) ops \<Rightarrow> nat \<Rightarrow> nat \<Rightarrow> (('a, 'e) mem, unit) eff" where
  "exp_move_assign T a b = seq_eff (exp_destroy a) (exp_move T a b)"

text \<open>The local \<^verbatim>\<open>cleanup\<close>: when the copy throws, the object becomes an error before the exception leaves.\<close>

definition exp_copy_assign :: "('a, 'e) ops \<Rightarrow> nat \<Rightarrow> nat \<Rightarrow> (('a, 'e) mem, unit) eff" where
  "exp_copy_assign T a b = seq_eff (exp_destroy a) (at b (\<lambda>cb.
     seq_eff
       (if v_flag cb then
          (case slot cb of
             Val x \<Rightarrow>
               (case cp T x of
                  None \<Rightarrow> seq_eff (set_flag a False) (seq_eff (place a (Err (inv_arg T))) (\<lambda>m. (Inl Copy_threw, m)))
                | Some y \<Rightarrow> place a (Val y))
           | _ \<Rightarrow> \<lambda>m. (Inl Ub, m))
        else (case slot cb of Err e \<Rightarrow> place a (Err e) | _ \<Rightarrow> \<lambda>m. (Inl Ub, m)))
       (at b (\<lambda>cb. set_flag a (v_flag cb)))))"

text \<open>The constructors from a value that is moved, that is copied or built in place, and from an error.\<close>

definition exp_ctor_move :: "('a, 'e) ops \<Rightarrow> nat \<Rightarrow> 'a \<Rightarrow> (('a, 'e) mem, unit) eff" where
  "exp_ctor_move T a x = seq_eff (allocate a True) (place a (Val (fst (mv T x))))"

definition exp_ctor_copy :: "('a, 'e) ops \<Rightarrow> nat \<Rightarrow> 'a \<Rightarrow> (('a, 'e) mem, unit) eff" where
  "exp_ctor_copy T a x = seq_eff (allocate a True)
     (case cp T x of None \<Rightarrow> \<lambda>m. (Inl Copy_threw, deallocate a m) | Some y \<Rightarrow> place a (Val y))"

definition exp_ctor_in_place :: "nat \<Rightarrow> 'a option \<Rightarrow> (('a, 'e) mem, unit) eff" where
  "exp_ctor_in_place a made = seq_eff (allocate a True)
     (case made of None \<Rightarrow> \<lambda>m. (Inl Copy_threw, deallocate a m) | Some y \<Rightarrow> place a (Val y))"

definition exp_ctor_error :: "nat \<Rightarrow> 'e \<Rightarrow> (('a, 'e) mem, unit) eff" where
  "exp_ctor_error a e = seq_eff (allocate a False) (place a (Err e))"

text \<open>
  The assignments of a value that is moved, of a value that is copied, and of an error. The second
  does not destroy what the object holds.
\<close>

definition exp_assign_move :: "('a, 'e) ops \<Rightarrow> nat \<Rightarrow> 'a \<Rightarrow> (('a, 'e) mem, unit) eff" where
  "exp_assign_move T a x =
     seq_eff (exp_destroy a) (seq_eff (place a (Val (fst (mv T x)))) (set_flag a True))"

definition exp_assign_copy :: "('a, 'e) ops \<Rightarrow> nat \<Rightarrow> 'a \<Rightarrow> (('a, 'e) mem, unit) eff" where
  "exp_assign_copy T a x =
     (case cp T x of
        None \<Rightarrow> \<lambda>m. (Inl Terminated, m)
      | Some y \<Rightarrow> seq_eff (place a (Val y)) (set_flag a True))"

definition exp_assign_error :: "nat \<Rightarrow> 'e \<Rightarrow> (('a, 'e) mem, unit) eff" where
  "exp_assign_error a e = seq_eff (exp_destroy a) (seq_eff (place a (Err e)) (set_flag a False))"

text \<open>The observers, on an object.\<close>

definition exp_deref :: "('a, 'e) cell \<Rightarrow> exp_error + 'a" where
  "exp_deref c = (case slot c of Val x \<Rightarrow> Inr x | _ \<Rightarrow> Inl Ub)"

definition has_value :: "('a, 'e) cell \<Rightarrow> bool" where
  "has_value c = v_flag c"

definition exp_value :: "('a, 'e) cell \<Rightarrow> exp_error + 'a" where
  "exp_value c = (if \<not> v_flag c then Inl Bad_expected_access else exp_deref c)"

definition exp_err :: "('a, 'e) cell \<Rightarrow> exp_error + 'e" where
  "exp_err c =
     (if has_value c then Inl Asserted else case slot c of Err e \<Rightarrow> Inr e | _ \<Rightarrow> Inl Ub)"

definition value_or :: "('a, 'e) ops \<Rightarrow> ('a, 'e) cell \<Rightarrow> 'a \<Rightarrow> exp_error + 'a" where
  "value_or T c u =
     (if v_flag c then
        (case exp_deref c of
           Inl e \<Rightarrow> Inl e
         | Inr x \<Rightarrow> (case cp T x of None \<Rightarrow> Inl Copy_threw | Some y \<Rightarrow> Inr y))
      else Inr u)"

text \<open>The overload of \<^verbatim>\<open>value_or\<close> for a temporary, which moves the value out.\<close>

definition value_or_move :: "('a, 'e) ops \<Rightarrow> nat \<Rightarrow> 'a \<Rightarrow> (('a, 'e) mem, 'a) eff" where
  "value_or_move T a u = at a (\<lambda>c m.
     if v_flag c then
       (case slot c of
          Val x \<Rightarrow> (Inr (fst (mv T x)), m\<lparr>cells := (cells m)(a \<mapsto> c\<lparr>slot := Val (snd (mv T x))\<rparr>)\<rparr>)
        | _ \<Rightarrow> (Inl Ub, m))
     else (Inr u, m))"

text \<open>\<open>eqT\<close> is the comparison of the values; the functions are \<^verbatim>\<open>noexcept\<close>.\<close>

definition exp_eq :: "('a \<Rightarrow> 'a \<Rightarrow> bool) \<Rightarrow> ('a, 'e) cell \<Rightarrow> ('a, 'e) cell \<Rightarrow> exp_error + bool" where
  "exp_eq eqT l r =
     (if has_value l then
        if \<not> has_value r then Inr False
        else (case (exp_deref l, exp_deref r) of (Inr x, Inr y) \<Rightarrow> Inr (eqT x y) | _ \<Rightarrow> Inl Ub)
      else if has_value r then Inr False
      else (case (exp_err l, exp_err r) of (Inr d, Inr e) \<Rightarrow> Inr (d = e) | _ \<Rightarrow> Inl Ub))"

definition exp_ne :: "('a \<Rightarrow> 'a \<Rightarrow> bool) \<Rightarrow> ('a, 'e) cell \<Rightarrow> ('a, 'e) cell \<Rightarrow> exp_error + bool" where
  "exp_ne eqT l r = (case exp_eq eqT l r of Inl e \<Rightarrow> Inl e | Inr b \<Rightarrow> Inr (\<not> b))"

definition exp_eq_error :: "('a, 'e) cell \<Rightarrow> 'e \<Rightarrow> exp_error + bool" where
  "exp_eq_error l e =
     (if has_value l then Inr False else case exp_err l of Inl x \<Rightarrow> Inl x | Inr d \<Rightarrow> Inr (d = e))"

definition exp_ne_error :: "('a, 'e) cell \<Rightarrow> 'e \<Rightarrow> exp_error + bool" where
  "exp_ne_error l e =
     (if has_value l then Inr True else case exp_err l of Inl x \<Rightarrow> Inl x | Inr d \<Rightarrow> Inr (d \<noteq> e))"

definition error_eq_exp :: "'e \<Rightarrow> ('a, 'e) cell \<Rightarrow> exp_error + bool" where
  "error_eq_exp e r =
     (if has_value r then Inr False else case exp_err r of Inl x \<Rightarrow> Inl x | Inr d \<Rightarrow> Inr (e = d))"

definition error_ne_exp :: "'e \<Rightarrow> ('a, 'e) cell \<Rightarrow> exp_error + bool" where
  "error_ne_exp e r =
     (if has_value r then Inr True else case exp_err r of Inl x \<Rightarrow> Inl x | Inr d \<Rightarrow> Inr (e \<noteq> d))"

section \<open>The specification: a sum\<close>

text \<open>
  What an object stands for: a value or an error, when flag and union agree. The specification of
  the operations works on a map from addresses to such sums.
\<close>

definition exp_abs :: "('a, 'e) cell \<Rightarrow> ('e + 'a) option" where
  "exp_abs c =
     (case slot c of
        Val x \<Rightarrow> if v_flag c then Some (Inr x) else None
      | Err e \<Rightarrow> if v_flag c then None else Some (Inl e)
      | Raw \<Rightarrow> None)"

definition mem_ok :: "('a, 'e) mem \<Rightarrow> bool" where
  "mem_ok m \<longleftrightarrow> (\<forall>a c. cells m a = Some c \<longrightarrow> exp_abs c \<noteq> None)"

definition mem_abs :: "('a, 'e) mem \<Rightarrow> nat \<Rightarrow> ('e + 'a) option" where
  "mem_abs m a = Option.bind (cells m a) exp_abs"

text \<open>What is expected of \<^verbatim>\<open>T\<close>: a copy and the result of a move equal the source.\<close>

definition ops_ok :: "('a, 'e) ops \<Rightarrow> bool" where
  "ops_ok T \<longleftrightarrow> (\<forall>x y. cp T x = Some y \<longrightarrow> y = x) \<and> (\<forall>x. fst (mv T x) = x)"

datatype ('a, 'e) exp_op =
    Ctor_move nat 'a | Ctor_copy nat 'a | Ctor_in_place nat "'a option" | Ctor_error nat 'e | Copy_ctor nat nat | Move_ctor nat nat
  | Move_assign nat nat | Copy_assign nat nat | Assign_move nat 'a | Assign_copy nat 'a
  | Assign_error nat 'e | Dtor nat

fun run_exp :: "('a, 'e) ops \<Rightarrow> ('a, 'e) exp_op \<Rightarrow> (('a, 'e) mem, unit) eff" where
  "run_exp T (Ctor_move a x) = exp_ctor_move T a x"
| "run_exp T (Ctor_copy a x) = exp_ctor_copy T a x"
| "run_exp T (Ctor_in_place a made) = exp_ctor_in_place a made"
| "run_exp T (Ctor_error a e) = exp_ctor_error a e"
| "run_exp T (Copy_ctor a b) = exp_copy_ctor T a b"
| "run_exp T (Move_ctor a b) = exp_move_ctor T a b"
| "run_exp T (Move_assign a b) = exp_move_assign T a b"
| "run_exp T (Copy_assign a b) = exp_copy_assign T a b"
| "run_exp T (Assign_move a x) = exp_assign_move T a x"
| "run_exp T (Assign_copy a x) = exp_assign_copy T a x"
| "run_exp T (Assign_error a e) = exp_assign_error a e"
| "run_exp T (Dtor a) = exp_dtor a"

type_synonym ('a, 'e) sums = "nat \<Rightarrow> ('e + 'a) option"

definition sum_copy :: "('a, 'e) ops \<Rightarrow> 'e + 'a \<Rightarrow> bool" where
  "sum_copy T v = (case v of Inl e \<Rightarrow> True | Inr x \<Rightarrow> cp T x \<noteq> None)"

definition sum_residue :: "('a, 'e) ops \<Rightarrow> 'e + 'a \<Rightarrow> 'e + 'a" where
  "sum_residue T v = (case v of Inl e \<Rightarrow> Inl e | Inr x \<Rightarrow> Inr (snd (mv T x)))"

fun sum_op :: "('a, 'e) ops \<Rightarrow> ('a, 'e) exp_op \<Rightarrow> ('a, 'e) sums \<Rightarrow> (exp_error + unit) \<times> ('a, 'e) sums" where
  "sum_op T (Ctor_move a x) p = (Inr (), p(a \<mapsto> Inr x))"
| "sum_op T (Ctor_copy a x) p = (if sum_copy T (Inr x) then (Inr (), p(a \<mapsto> Inr x)) else (Inl Copy_threw, p))"
| "sum_op T (Ctor_in_place a made) p =
     (case made of Some x \<Rightarrow> (Inr (), p(a \<mapsto> Inr x)) | None \<Rightarrow> (Inl Copy_threw, p))"
| "sum_op T (Ctor_error a e) p = (Inr (), p(a \<mapsto> Inl e))"
| "sum_op T (Copy_ctor a b) p = (if sum_copy T (the (p b)) then (Inr (), p(a := p b)) else (Inl Copy_threw, p))"
| "sum_op T (Move_ctor a b) p = (Inr (), p(b \<mapsto> sum_residue T (the (p b)), a := p b))"
| "sum_op T (Move_assign a b) p = (Inr (), p(b \<mapsto> sum_residue T (the (p b)), a := p b))"
| "sum_op T (Copy_assign a b) p =
     (if sum_copy T (the (p b)) then (Inr (), p(a := p b)) else (Inl Copy_threw, p(a \<mapsto> Inl (inv_arg T))))"
| "sum_op T (Assign_move a x) p = (Inr (), p(a \<mapsto> Inr x))"
| "sum_op T (Assign_copy a x) p = (Inr (), p(a \<mapsto> Inr x))"
| "sum_op T (Assign_error a e) p = (Inr (), p(a \<mapsto> Inl e))"
| "sum_op T (Dtor a) p = (Inr (), p(a := None))"

text \<open>
  When an operation may be used: a constructor on free storage, the others on an object; the source
  of a copy or move is another object; a value whose copy throws is not assigned, since that ends
  the program.
\<close>

fun exp_legal :: "('a, 'e) ops \<Rightarrow> ('a, 'e) exp_op \<Rightarrow> ('a, 'e) sums \<Rightarrow> bool" where
  "exp_legal T (Ctor_move a x) p \<longleftrightarrow> p a = None"
| "exp_legal T (Ctor_copy a x) p \<longleftrightarrow> p a = None"
| "exp_legal T (Ctor_in_place a made) p \<longleftrightarrow> p a = None"
| "exp_legal T (Ctor_error a e) p \<longleftrightarrow> p a = None"
| "exp_legal T (Copy_ctor a b) p \<longleftrightarrow> p a = None \<and> p b \<noteq> None"
| "exp_legal T (Move_ctor a b) p \<longleftrightarrow> p a = None \<and> p b \<noteq> None"
| "exp_legal T (Move_assign a b) p \<longleftrightarrow> p a \<noteq> None \<and> p b \<noteq> None \<and> a \<noteq> b"
| "exp_legal T (Copy_assign a b) p \<longleftrightarrow> p a \<noteq> None \<and> p b \<noteq> None \<and> a \<noteq> b"
| "exp_legal T (Assign_move a x) p \<longleftrightarrow> p a \<noteq> None"
| "exp_legal T (Assign_copy a x) p \<longleftrightarrow> p a \<noteq> None \<and> cp T x \<noteq> None"
| "exp_legal T (Assign_error a e) p \<longleftrightarrow> p a \<noteq> None"
| "exp_legal T (Dtor a) p \<longleftrightarrow> p a \<noteq> None"

text \<open>The values that an operation overwrites without destroying them.\<close>

fun op_leaks :: "('a, 'e) exp_op \<Rightarrow> ('a, 'e) sums \<Rightarrow> 'a list" where
  "op_leaks (Assign_copy a x) p = (case p a of Some (Inr y) \<Rightarrow> [y] | _ \<Rightarrow> [])"
| "op_leaks _ p = []"

section \<open>The refinement\<close>

fun cell_of :: "'e + 'a \<Rightarrow> ('a, 'e) cell" where
  "cell_of (Inr x) = \<lparr>slot = Val x, v_flag = True\<rparr>"
| "cell_of (Inl e) = \<lparr>slot = Err e, v_flag = False\<rparr>"

lemma exp_abs_iff: "exp_abs c = Some v \<longleftrightarrow> c = cell_of v"
  by (cases c; cases v) (auto simp: exp_abs_def split: slot.splits if_splits)

lemma mem_okE:
  assumes "mem_ok m" and "mem_abs m a = Some v"
  shows "cells m a = Some (cell_of v)"
  using assms by (auto simp: mem_abs_def exp_abs_iff split: Option.bind_splits)

lemma mem_abs_None: "mem_ok m \<Longrightarrow> mem_abs m a = None \<longleftrightarrow> cells m a = None"
  by (auto simp: mem_abs_def mem_ok_def split: Option.bind_splits)

lemma mem_ok_upd: "mem_ok m \<Longrightarrow> mem_ok (m\<lparr>cells := (cells m)(a \<mapsto> cell_of v), lost := ls\<rparr>)"
  by (auto simp: mem_ok_def exp_abs_iff)

lemma mem_abs_upd: "mem_abs (m\<lparr>cells := (cells m)(a \<mapsto> cell_of v), lost := ls\<rparr>) = (mem_abs m)(a \<mapsto> v)"
  by (auto simp: mem_abs_def exp_abs_iff fun_eq_iff)

lemma exp_abs_cell_of [simp]: "exp_abs (cell_of v) = Some v"
  by (simp add: exp_abs_iff)

text \<open>The final stores of the operations are of this form.\<close>

definition upd_mem :: "('a, 'e) mem \<Rightarrow> nat \<Rightarrow> 'e + 'a \<Rightarrow> 'a list \<Rightarrow> ('a, 'e) mem" where
  "upd_mem m a v ls = m\<lparr>cells := (cells m)(a \<mapsto> cell_of v), lost := lost m @ ls\<rparr>"

lemma upd_mem_ok: "mem_ok m \<Longrightarrow> mem_ok (upd_mem m a v ls)"
  by (auto simp: mem_ok_def upd_mem_def)

lemma upd_mem_abs [simp]: "mem_abs (upd_mem m a v ls) = (mem_abs m)(a \<mapsto> v)"
  by (auto simp: mem_abs_def upd_mem_def fun_eq_iff)

lemma upd_mem_lost [simp]: "lost (upd_mem m a v ls) = lost m @ ls"
  by (simp add: upd_mem_def)

lemma upd_mem_free: "mem_ok m \<Longrightarrow> mem_ok (deallocate a m) \<and> mem_abs (deallocate a m) = (mem_abs m)(a := None)"
  by (auto simp: mem_ok_def mem_abs_def deallocate_def fun_eq_iff)

lemma deallocate_allocated: "cells m a = None \<Longrightarrow> deallocate a (m\<lparr>cells := (cells m)(a \<mapsto> c)\<rparr>) = m"
  by (simp add: deallocate_def fun_upd_idem)

lemmas eff_defs = at_def seq_eff_def place_def set_flag_def allocate_def

lemma destroy_eq:
  assumes "cells m a = Some (cell_of v)"
  shows "exp_destroy a m = (Inr (), m\<lparr>cells := (cells m)(a \<mapsto> (cell_of v)\<lparr>slot := Raw\<rparr>)\<rparr>)"
  using assms by (cases v) (simp_all add: exp_destroy_def at_def)

lemma ctor_eqs:
  assumes "cells m a = None" and "ops_ok T"
  shows "exp_ctor_move T a x m = (Inr (), upd_mem m a (Inr x) [])"
    "exp_ctor_error a e m = (Inr (), upd_mem m a (Inl e) [])"
    "exp_ctor_copy T a x m = (if cp T x = None then (Inl Copy_threw, m) else (Inr (), upd_mem m a (Inr x) []))"
    "exp_ctor_in_place a made m =
      (case made of None \<Rightarrow> (Inl Copy_threw, m) | Some x \<Rightarrow> (Inr (), upd_mem m a (Inr x) []))"
  using assms
  by (auto simp: exp_ctor_move_def exp_ctor_error_def exp_ctor_copy_def exp_ctor_in_place_def eff_defs upd_mem_def ops_ok_def
      deallocate_allocated split: option.splits)

lemma copy_ctor_eq:
  assumes "cells m a = None" and "cells m b = Some (cell_of v)" and "ops_ok T"
  shows "exp_copy_ctor T a b m = (if sum_copy T v then (Inr (), upd_mem m a v []) else (Inl Copy_threw, m))"
  using assms
  by (cases v) (auto simp: exp_copy_ctor_def eff_defs upd_mem_def ops_ok_def sum_copy_def
      deallocate_allocated split: option.splits)

lemma upd_mem_id:
  assumes "cells m b = Some (cell_of v)"
  shows "upd_mem m b v [] = m"
proof -
  have "(cells m)(b \<mapsto> cell_of v) = cells m" using assms by (rule fun_upd_idem)
  then show ?thesis by (simp add: upd_mem_def)
qed

lemma move_ctor_eq:
  assumes "cells m a = None" and "cells m b = Some (cell_of v)" and "ops_ok T"
  shows "exp_move_ctor T a b m = (Inr (), upd_mem (upd_mem m b (sum_residue T v) []) a v [])"
proof -
  have ne: "a \<noteq> b" using assms(1,2) by auto
  show ?thesis
  proof (cases v)
    case (Inl e)
    have "sum_residue T v = v" by (simp add: Inl sum_residue_def)
    then show ?thesis using assms ne upd_mem_id [OF assms(2)]
      by (simp add: Inl exp_move_ctor_def exp_move_def eff_defs upd_mem_def)
  next
    case (Inr x)
    with assms ne show ?thesis
      by (simp add: exp_move_ctor_def exp_move_def eff_defs upd_mem_def ops_ok_def sum_residue_def fun_upd_twist)
  qed
qed

lemma ops_okD: "ops_ok T \<Longrightarrow> fst (mv T x) = x" "ops_ok T \<Longrightarrow> cp T x = Some y \<Longrightarrow> y = x"
  by (auto simp: ops_ok_def)

lemma assign_move_eq:
  assumes "cells m a = Some (cell_of v)" and "ops_ok T"
  shows "exp_assign_move T a x m = (Inr (), upd_mem m a (Inr x) [])"
  using assms(1) destroy_eq [OF assms(1)] ops_okD(1) [OF assms(2), of x]
  by (cases v) (simp_all add: exp_assign_move_def eff_defs upd_mem_def)

lemma assign_error_eq:
  assumes "cells m a = Some (cell_of v)"
  shows "exp_assign_error a e m = (Inr (), upd_mem m a (Inl e) [])" "exp_dtor a m = (Inr (), deallocate a m)"
  using assms(1) destroy_eq [OF assms(1)]
  by (cases v; simp add: exp_assign_error_def exp_dtor_def deallocate_def eff_defs upd_mem_def)+

lemma assign_copy_eq:
  assumes "cells m a = Some (cell_of v)" and "ops_ok T" and "cp T x \<noteq> None"
  shows "exp_assign_copy T a x m = (Inr (), upd_mem m a (Inr x) (case v of Inr y \<Rightarrow> [y] | Inl _ \<Rightarrow> []))"
proof -
  from assms(3) obtain y where "cp T x = Some y" by auto
  with ops_okD(2) [OF assms(2) this] assms(1) show ?thesis
    by (cases v) (simp_all add: exp_assign_copy_def eff_defs upd_mem_def)
qed

lemma copy_assign_eq:
  assumes "cells m a = Some (cell_of u)" and "cells m b = Some (cell_of v)" and "a \<noteq> b" and "ops_ok T"
  shows "exp_copy_assign T a b m =
    (if sum_copy T v then (Inr (), upd_mem m a v []) else (Inl Copy_threw, upd_mem m a (Inl (inv_arg T)) []))"
  using assms destroy_eq [OF assms(1)]
  by (cases u; cases v)
    (auto simp: exp_copy_assign_def eff_defs upd_mem_def ops_ok_def sum_copy_def split: option.splits)

lemma move_assign_eq:
  assumes "cells m a = Some (cell_of u)" and "cells m b = Some (cell_of v)" and "a \<noteq> b" and "ops_ok T"
  shows "exp_move_assign T a b m = (Inr (), upd_mem (upd_mem m b (sum_residue T v) []) a v [])"
proof (cases v)
  case (Inl e)
  have "sum_residue T v = v" by (simp add: Inl sum_residue_def)
  then show ?thesis using assms destroy_eq [OF assms(1)] upd_mem_id [OF assms(2)]
    by (cases u) (simp_all add: Inl exp_move_assign_def exp_move_def eff_defs upd_mem_def)
next
  case (Inr x)
  with assms destroy_eq [OF assms(1)] show ?thesis
    by (cases u) (simp_all add: exp_move_assign_def exp_move_def eff_defs upd_mem_def ops_ok_def
        sum_residue_def fun_upd_twist)
qed

lemmas exp_eqs = ctor_eqs copy_ctor_eq move_ctor_eq assign_move_eq assign_error_eq assign_copy_eq
  copy_assign_eq move_assign_eq

text \<open>The store an operation leaves agrees with the specification, is in order and has lost what it says.\<close>

definition refines :: "(exp_error + unit) \<times> ('a, 'e) mem \<Rightarrow> (exp_error + unit) \<times> ('a, 'e) sums \<Rightarrow> 'a list \<Rightarrow> bool" where
  "refines c s ls \<longleftrightarrow> fst c = fst s \<and> mem_abs (snd c) = snd s \<and> mem_ok (snd c) \<and> lost (snd c) = ls"

lemma refines_upd:
  assumes "mem_ok m"
  shows "refines (r, upd_mem m a v ls) (r, (mem_abs m)(a \<mapsto> v)) (lost m @ ls)"
    "refines (r, upd_mem (upd_mem m b w []) a v []) (r, (mem_abs m)(b \<mapsto> w, a \<mapsto> v)) (lost m)"
    "refines (r, m) (r, mem_abs m) (lost m)"
    "refines (r, deallocate a m) (r, (mem_abs m)(a := None)) (lost m)"
  using assms upd_mem_free [OF assms, of a]
  by (simp_all add: refines_def upd_mem_ok, simp add: deallocate_def)

lemmas refines_upd0 = refines_upd(1) [of _ _ _ _ "[]", simplified]

lemma copies_refine:
  assumes ok: "mem_ok m" and T: "ops_ok T"
  shows "exp_legal T (Copy_ctor a b) (mem_abs m) \<Longrightarrow>
      refines (run_exp T (Copy_ctor a b) m) (sum_op T (Copy_ctor a b) (mem_abs m)) (lost m)"
    and "exp_legal T (Copy_assign a b) (mem_abs m) \<Longrightarrow>
      refines (run_exp T (Copy_assign a b) m) (sum_op T (Copy_assign a b) (mem_abs m)) (lost m)"
proof -
  assume "exp_legal T (Copy_ctor a b) (mem_abs m)"
  then obtain v where "mem_abs m b = Some v" "mem_abs m a = None" by auto
  with copy_ctor_eq [OF mem_abs_None [OF ok, THEN iffD1] mem_okE [OF ok] T] refines_upd0 [OF ok] refines_upd(3) [OF ok]
  show "refines (run_exp T (Copy_ctor a b) m) (sum_op T (Copy_ctor a b) (mem_abs m)) (lost m)" by simp
next
  assume "exp_legal T (Copy_assign a b) (mem_abs m)"
  then obtain u v where "mem_abs m a = Some u" "mem_abs m b = Some v" "a \<noteq> b" by auto
  with copy_assign_eq [OF mem_okE [OF ok] mem_okE [OF ok] _ T] refines_upd0 [OF ok]
  show "refines (run_exp T (Copy_assign a b) m) (sum_op T (Copy_assign a b) (mem_abs m)) (lost m)" by simp
qed

lemma moves_refine:
  assumes ok: "mem_ok m" and T: "ops_ok T"
  shows "exp_legal T (Move_ctor a b) (mem_abs m) \<Longrightarrow>
      refines (run_exp T (Move_ctor a b) m) (sum_op T (Move_ctor a b) (mem_abs m)) (lost m)"
    and "exp_legal T (Move_assign a b) (mem_abs m) \<Longrightarrow>
      refines (run_exp T (Move_assign a b) m) (sum_op T (Move_assign a b) (mem_abs m)) (lost m)"
proof -
  assume "exp_legal T (Move_ctor a b) (mem_abs m)"
  then obtain v where "mem_abs m b = Some v" "mem_abs m a = None" by auto
  with move_ctor_eq [OF mem_abs_None [OF ok, THEN iffD1] mem_okE [OF ok] T] refines_upd(2) [OF ok]
  show "refines (run_exp T (Move_ctor a b) m) (sum_op T (Move_ctor a b) (mem_abs m)) (lost m)" by simp
next
  assume "exp_legal T (Move_assign a b) (mem_abs m)"
  then obtain u v where "mem_abs m a = Some u" "mem_abs m b = Some v" "a \<noteq> b" by auto
  with move_assign_eq [OF mem_okE [OF ok] mem_okE [OF ok] _ T] refines_upd(2) [OF ok]
  show "refines (run_exp T (Move_assign a b) m) (sum_op T (Move_assign a b) (mem_abs m)) (lost m)" by simp
qed

lemma exp_op_refines:
  assumes ok: "mem_ok m" and T: "ops_ok T" and leg: "exp_legal T op (mem_abs m)"
  shows "refines (run_exp T op m) (sum_op T op (mem_abs m)) (lost m @ op_leaks op (mem_abs m))"
proof -
  note none = mem_abs_None [OF ok, THEN iffD1] and some = mem_okE [OF ok]
  note upd = refines_upd0 [OF ok] refines_upd(3) [OF ok]
  show ?thesis
  proof (cases op)
    case (Assign_copy a x)
    with leg obtain v where "mem_abs m a = Some v" "cp T x \<noteq> None" by auto
    with Assign_copy assign_copy_eq [OF some T] refines_upd(1) [OF ok] upd show ?thesis by (cases v) simp_all
  next
    case (Assign_move a x)
    with leg obtain v where "mem_abs m a = Some v" by auto
    with Assign_move assign_move_eq [OF some T] upd show ?thesis by simp
  next
    case (Assign_error a e)
    with leg obtain v where "mem_abs m a = Some v" by auto
    with Assign_error assign_error_eq(1) [OF some] upd show ?thesis by simp
  next
    case (Ctor_in_place a made)
    with leg ctor_eqs(4) [OF none T] upd show ?thesis by (cases made) simp_all
  next
    case (Dtor a)
    with leg obtain v where "mem_abs m a = Some v" by auto
    with Dtor assign_error_eq(2) [OF some] refines_upd(4) [OF ok] show ?thesis by simp
  qed (use leg none ctor_eqs [OF _ T] upd copies_refine [OF ok T] moves_refine [OF ok T] in
      \<open>simp_all add: sum_copy_def\<close>)
qed

section \<open>Properties\<close>

text \<open>
  C21: \<^verbatim>\<open>expected<T>\<close> is a sum. Every construction, copy, move, assignment and destruction that its contract
  allows has, on every store in which flags and unions agree, exactly the effect and outcome that
  the sum of a value and an error prescribes, the throwing copy included, which leaves the target
  with the error \<^verbatim>\<open>invalid_argument\<close>; flags and unions agree again; and no value is lost, except that the
  assignment of a copied value forgets to destroy the value it overwrites.
\<close>

theorem expected_refines_sum:
  assumes "mem_ok m" and "ops_ok T" and "exp_legal T op (mem_abs m)"
  shows "let (r, m') = run_exp T op m in
    (r, mem_abs m') = sum_op T op (mem_abs m) \<and> mem_ok m' \<and>
    lost m' = lost m @ (case op of Assign_copy a x \<Rightarrow> (case mem_abs m a of Some (Inr y) \<Rightarrow> [y] | _ \<Rightarrow> []) | _ \<Rightarrow> [])"
proof -
  have "op_leaks op (mem_abs m) =
      (case op of Assign_copy a x \<Rightarrow> (case mem_abs m a of Some (Inr y) \<Rightarrow> [y] | _ \<Rightarrow> []) | _ \<Rightarrow> [])"
    by (cases op) simp_all
  with exp_op_refines [OF assms] show ?thesis by (auto simp: refines_def prod_eq_iff split: prod.splits)
qed

text \<open>Two objects that hold strings, and strings whose copies and moves never throw.\<close>

definition str_ops :: "(string, int) ops" where
  "str_ops = \<lparr>cp = Some, mv = (\<lambda>s. (s, [])), inv_arg = 22\<rparr>"

definition sample_mem :: "(string, int) mem" where
  "sample_mem = \<lparr>cells = [1 \<mapsto> \<lparr>slot = Val ''x'', v_flag = True\<rparr>, 2 \<mapsto> \<lparr>slot = Val ''y'', v_flag = True\<rparr>], lost = []\<rparr>"

lemma sample_mem_ok: "mem_ok sample_mem" "ops_ok str_ops" "mem_abs sample_mem = [1 \<mapsto> Inr ''x'', 2 \<mapsto> Inr ''y'']"
  by (auto simp: mem_ok_def ops_ok_def mem_abs_def exp_abs_def sample_mem_def str_ops_def fun_eq_iff split: if_splits)

theorem expected_refines_sum_witness:
  "lost (snd (run_exp str_ops (Assign_copy 1 ''z'') sample_mem)) = [''x'']"
proof -
  have l: "exp_legal str_ops (Assign_copy 1 ''z'') (mem_abs sample_mem)"
    by (simp add: sample_mem_ok(3)) (simp add: str_ops_def)
  have "lost sample_mem = []" by (simp add: sample_mem_def)
  with expected_refines_sum [OF sample_mem_ok(1,2) l] show ?thesis
    by (simp add: sample_mem_ok(3) case_prod_beta Let_def)
qed

text \<open>
  An object that holds a value must not be assigned to itself: the assignment destroys the value
  first and then reads it.
\<close>

theorem expected_self_assignment:
  assumes "cells m a = Some c" and "exp_abs c = Some (Inr x)"
  shows "fst (exp_copy_assign T a a m) = Inl Ub \<and> fst (exp_move_assign T a a m) = Inl Ub"
  using assms
  by (simp add: exp_abs_iff exp_copy_assign_def exp_move_assign_def exp_move_def exp_destroy_def eff_defs)

theorem expected_self_assignment_witness: "fst (exp_copy_assign str_ops 1 1 sample_mem) = Inl Ub"
  using expected_self_assignment [of sample_mem 1 "\<lparr>slot = Val ''x'', v_flag = True\<rparr>" "''x''" str_ops]
  by (simp add: sample_mem_def exp_abs_def)

text \<open>
  The observers read the sum: \<^verbatim>\<open>value\<close> gives the value or throws, \<^verbatim>\<open>error\<close> gives the error or fails its
  assertion, \<^verbatim>\<open>value_or\<close> never throws by itself, and the six comparisons are equality and inequality
  of the sums, in either order.
\<close>

theorem observers_read_the_sum:
  assumes "exp_abs c = Some v" and "exp_abs d = Some w" and "cp T = Some"
  shows "exp_value c = (case v of Inr x \<Rightarrow> Inr x | Inl _ \<Rightarrow> Inl Bad_expected_access) \<and>
    exp_err c = (case v of Inr _ \<Rightarrow> Inl Asserted | Inl e \<Rightarrow> Inr e) \<and>
    value_or T c u = Inr (case v of Inr x \<Rightarrow> x | Inl _ \<Rightarrow> u) \<and>
    exp_eq (=) c d = Inr (v = w) \<and> exp_ne (=) c d = Inr (v \<noteq> w) \<and>
    exp_eq_error c e = Inr (v = Inl e) \<and> error_eq_exp e c = Inr (v = Inl e) \<and>
    exp_ne_error c e = Inr (v \<noteq> Inl e) \<and> error_ne_exp e c = Inr (v \<noteq> Inl e)"
  using assms
  by (cases v; cases w) (auto simp: exp_abs_iff exp_value_def exp_err_def value_or_def exp_eq_def exp_ne_def
      exp_eq_error_def error_eq_exp_def exp_ne_error_def error_ne_exp_def has_value_def exp_deref_def)

theorem observers_read_the_sum_witness:
  "exp_eq (=) \<lparr>slot = Val ''x'', v_flag = True\<rparr> \<lparr>slot = Err (3::int), v_flag = False\<rparr> = Inr False"
  using observers_read_the_sum [of "\<lparr>slot = Val ''x'', v_flag = True\<rparr>" "Inr ''x''"
      "\<lparr>slot = Err (3::int), v_flag = False\<rparr>" "Inl 3" str_ops]
  by (simp add: exp_abs_def str_ops_def)

end
