(* ===== verification/Lounge_Tests.thy ===== *)
theory Lounge_Tests
  imports Test_Suite Expected Blackjack_Lib
begin

text \<open>
  The repository's own unit tests, \<^verbatim>\<open>test/server/message_test.cpp\<close>, \<^verbatim>\<open>test/server/blackjack.cpp\<close> and
  \<^verbatim>\<open>test/beast/core/expected.cpp\<close>, run on the models of the code they test: what a test computes is
  computed with the definitions of the other theories, and what it checks is the list of verdicts.
\<close>

section \<open>message\<close>

text \<open>
  The handle is at address 1 and its block at address 2. \<^verbatim>\<open>buffer_bytes\<close> and \<^verbatim>\<open>buffers_to_string\<close> read
  the one buffer of the message.
\<close>

definition hello :: string where
  "hello = ''Hello, world!''"

definition testMessage :: "test_stmt list" where
  "testMessage =
     (case msg_make 1 2 [hello] empty_heap of
        Inl e \<Rightarrow> [Throw e]
      | Inr m \<Rightarrow>
          (case msg_data 1 m of
             Inl e \<Rightarrow> [Throw e]
           | Inr bytes \<Rightarrow>
               [Test (length bytes = length hello) ''beast::buffer_bytes(m) == cb.size()'' ''message_test.cpp'' 25,
                Test (bytes = ''Hello, world!'') ''beast::buffers_to_string(m) == \"Hello, world!\"'' ''message_test.cpp'' 27]))"

definition message_test :: suite_info where
  "message_test = \<lparr>suite_name = ''lounge.server.message'', suite_body = testMessage\<rparr>"

section \<open>blackjack\<close>

definition deck_text :: string where
  "deck_text = ''[]'' @ ''AC2C3C4C5C6C7C8C9CTCJCQCKC'' @ ''AH2H3H4H5H6H7H8H9HTHJHQHKH'' @
     ''AS2S3S4S5S6S7S8S9STSJSQSKS'' @ ''AD2D3D4D5D6D7D8D9DTDJDQDKD''"

text \<open>Two characters of the literal; past its ends the view is undefined.\<close>

definition card_string :: "card \<Rightarrow> string outcome" where
  "card_string c =
     (if c < 0 \<or> 2 * c + 2 > int (length deck_text) then Inl Undefined
      else Inr (take 2 (drop (nat (2 * c)) deck_text)))"

fun cards_text :: "card list \<Rightarrow> string outcome" where
  "cards_text [] = Inr []"
| "cards_text (c # cs) =
     (case card_string c of
        Inl e \<Rightarrow> Inl e
      | Inr s \<Rightarrow> (case cards_text cs of Inl e \<Rightarrow> Inl e | Inr t \<Rightarrow> Inr (CHR '','' # s @ t)))"

text \<open>\<^verbatim>\<open>operator<<\<close> of a hand; the first card has no comma.\<close>

definition hand_text :: "lib_hand \<Rightarrow> string outcome" where
  "hand_text h =
     (if lh_cards h = [] then Inr []
      else (case cards_text (lh_cards h) of
         Inl e \<Rightarrow> Inl e
       | Inr t \<Rightarrow> Inr (tl t @ (if lh_busted h then '' bust'' else []) @
            (if lh_twenty_one h then '' twenty-one'' else []) @ (if lh_blackjack h then '' blackjack'' else []))))"

text \<open>
  The loop of \<^verbatim>\<open>testHand\<close>: \<open>n\<close> hands from one shoe, each dealt until it is done and printed. 23 rounds
  are enough for a hand. \<open>None\<close> is an inner loop that has not ended by then.
\<close>

fun test_hands :: "nat \<Rightarrow> shoe \<Rightarrow> rng \<Rightarrow> (lib_hand list \<times> test_stmt list) outcome option" where
  "test_hands 0 s rnd = Some (Inr ([], []))"
| "test_hands (Suc n) s rnd =
     (case deal_out 23 lib_new_hand s rnd of
        None \<Rightarrow> None
      | Some (Inl e) \<Rightarrow> Some (Inl e)
      | Some (Inr (h, s', rnd')) \<Rightarrow>
          (case hand_text h of
             Inl e \<Rightarrow> Some (Inl e)
           | Inr t \<Rightarrow>
               (case test_hands n s' rnd' of
                  None \<Rightarrow> None
                | Some (Inl e) \<Rightarrow> Some (Inl e)
                | Some (Inr (hs, ts)) \<Rightarrow> Some (Inr (h # hs, Test_log (t @ endl) # ts)))))"

definition testHand :: "rng \<Rightarrow> (lib_hand list \<times> test_stmt list) outcome option" where
  "testHand rnd =
     (case make_lib_game \<lparr>cfg_seats = 1, cfg_decks = 1\<rparr> rnd of
        Inl e \<Rightarrow> Some (Inl e)
      | Inr (g, rnd') \<Rightarrow> test_hands 100 (lg_shoe g) rnd')"

definition blackjack_test :: "rng \<Rightarrow> suite_info" where
  "blackjack_test rnd =
     \<lparr>suite_name = ''lounge.server.blackjack'',
      suite_body = (case testHand rnd of Some (Inr (hs, ts)) \<Rightarrow> ts | Some (Inl e) \<Rightarrow> [Throw e] | None \<Rightarrow> [Throw Undefined])\<rparr>"

section \<open>The text of a card\<close>

text \<open>Reading the text of a card back: its rank and its suit.\<close>

fun read_card :: "string \<Rightarrow> card option" where
  "read_card [r, s] =
     (if [r, s] = ''[]'' then Some 0
      else case (first_idx (\<lambda>c. c = r) ''A23456789TJQK'', first_idx (\<lambda>c. c = s) ''CHSD'') of
        (Some i, Some j) \<Rightarrow> Some (int (13 * j + i + 1))
      | _ \<Rightarrow> None)"
| "read_card _ = None"

lemma length_deck_text: "length deck_text = 106"
  by (simp add: deck_text_def)

text \<open>
  C35: the text of a card identifies it: it has two characters, and reading it back gives the card, for
  the fifty-two cards of a deck and for the hidden card 0; any other number is refused by the model
  because the code would read outside the literal.
\<close>

theorem card_text_roundtrip:
  "(case card_string c of
      Inl e \<Rightarrow> e = Undefined \<and> \<not> (0 \<le> c \<and> c \<le> 52)
    | Inr s \<Rightarrow> length s = 2 \<and> read_card s = Some c \<and> 0 \<le> c \<and> c \<le> 52)"
proof (cases "0 \<le> c \<and> c \<le> 52")
  case False
  then show ?thesis by (auto simp: card_string_def length_deck_text)
next
  case True
  have "list_all (\<lambda>i. length (take 2 (drop (2 * i) deck_text)) = 2 \<and>
      read_card (take 2 (drop (2 * i) deck_text)) = Some (int i)) [0..<53]"
    by code_simp
  moreover from True obtain i where i: "c = int i" "i < 53" by (metis nonneg_int_cases of_nat_le_iff le_imp_less_Suc of_nat_numeral eval_nat_numeral(3))
  ultimately show ?thesis
    by (auto simp: list_all_iff card_string_def length_deck_text nat_mult_distrib)
qed

section \<open>The harness\<close>

text \<open>
  The verdict of the harness is the truth about the suites. With at least a program name on the
  command line and no call for help, and suites that no exception leaves, the run ends: it runs
  exactly the suites of which some argument ends the name, or all of them without arguments, in the
  order of their names; it exits with 0 when every check of those suites holds and with 1 otherwise;
  the counts, for each suite and in all, are those of the checks made and of the checks that failed;
  and the runner and the checkpoint in force are again the ones before.
\<close>

theorem test_run_verdict:
  assumes "argv \<noteq> []" and "\<not> wants_help argv" and "list_all suite_ends (suites h)"
  shows "\<exists>h'. test_run T a argv h =
      (Inr (if \<forall>s \<in> set (selected (tl argv) (suites h)). \<forall>v \<in> set (suite_verdicts s). v then 0 else 1), h') \<and>
    results h' = map suite_result (selected (tl argv) (suites h)) \<and>
    all_total h' = length (concat (map suite_verdicts (selected (tl argv) (suites h)))) \<and>
    all_failed h' = fails (concat (map suite_verdicts (selected (tl argv) (suites h)))) \<and>
    sorted_wrt by_name (selected (tl argv) (suites h)) \<and> mset (suites h') = mset (suites h) \<and>
    cur h' = cur h \<and> cps h' = cps h"
proof -
  let ?sel = "selected (tl argv) (suites h)"
  from runner_ctor_eq [of T a h] obtain h1 where h1: "runner_ctor T a h = (Inr (cur h), h1)" "cur h1 = Some a"
    "cps h1 = cps h" "suites h1 = suites h" "all_failed h1 = 0" "all_total h1 = 0" "results h1 = []" by blast
  let ?h1 = "h1\<lparr>suites := sort_suites (suites h)\<rparr>"
  have "list_all suite_ends ?sel"
    using assms(3) by (auto simp: selected_def list_all_iff sort_suites_sorts(3))
  with run_all_ran [of ?h1 ?sel T] h1(2) obtain h2 where h2: "run_all T ?sel ?h1 = (Inr (), h2)" "ran ?sel ?h1 h2" by auto
  let ?code = "if success h2 then 0 else 1 :: int"
  from runner_dtor_eq [of T "cur h" ?code h2] obtain h3 where
    h3: "seq_act (runner_dtor T (cur h)) (ret ?code) h2 = (Inr ?code, h3)" "cur h3 = cur h" "cps h3 = cps h2"
      "suites h3 = suites h2" "all_failed h3 = all_failed h2" "all_total h3 = all_total h2" "results h3 = results h2" by blast
  have f: "all_failed h2 = fails (concat (map suite_verdicts ?sel))" "results h2 = map suite_result ?sel"
    using h2(2) h1 by (simp_all add: ran_def results_def)
  then have s: "success h2 \<longleftrightarrow> (\<forall>s \<in> set ?sel. \<forall>v \<in> set (suite_verdicts s). v)"
    by (auto simp: success_def fails_0_iff)
  have r: "(if length argv = 1 then (\<lambda>h. run_all T (suites h) h) else if argv = [] then throw Length_error
      else (\<lambda>h. run_matching T (tl argv) (suites h) h)) ?h1 = (Inr (), h2)"
    unfolding run_selected [OF assms(1)] by (rule h2(1))
  have nh: "(length argv = 2 \<and> (argv ! 1 = ''-h'' \<or> argv ! 1 = ''--help'')) = False"
    using assms(2) by (auto simp: wants_help_def)
  have "test_run T a argv h = (Inr ?code, h3)"
    using h1(1,4) r h3(1) unfolding test_run_def nh if_False by (simp add: bind_act_simps seq_act_simps Let_def)
  then show ?thesis
    using f s h3 h2(2) h1 sort_suites_sorts [of "suites h"]
    by (auto simp: ran_def selected_def sorted_wrt_filter)
qed

text \<open>The test of the blackjack library deals a hundred hands to their ends.\<close>

lemma cards_text_ok: "list_all valid_card cs \<Longrightarrow> \<exists>t. cards_text cs = Inr t"
proof (induction cs)
  case (Cons c cs)
  then obtain t where "cards_text cs = Inr t" by auto
  moreover have "\<exists>s. card_string c = Inr s" using Cons.prems by (auto simp: card_string_def length_deck_text valid_card_def)
  ultimately show ?case by auto
qed simp

lemma test_hands_ends:
  "shoe_ok s \<Longrightarrow> \<exists>hs ts. test_hands n s rnd = Some (Inr (hs, ts)) \<and> length hs = n \<and> list_all is_done hs \<and>
     list_all ends ts \<and> concat (map verdicts ts) = []"
proof (induction n arbitrary: s rnd)
  case (Suc n)
  from deal_out_done [OF lib_hand_ok_new Suc.prems, of 23 rnd] obtain h s' rnd' where
    d: "deal_out 23 lib_new_hand s rnd = Some (Inr (h, s', rnd'))" "is_done h" "lib_hand_ok h" "shoe_ok s'"
    by (auto simp: lib_new_hand_def hard_total_def)
  from cards_text_ok [of "lh_cards h"] d(3) have "\<exists>t. hand_text h = Inr t"
    by (auto simp: hand_text_def lib_hand_ok_def)
  with Suc.IH [OF d(4), of rnd'] d(1,2) show ?case by auto
qed simp

lemma testHand_ends:
  "\<exists>hs ts. testHand rnd = Some (Inr (hs, ts)) \<and> length hs = 100 \<and> list_all is_done hs \<and>
     list_all ends ts \<and> concat (map verdicts ts) = []"
proof -
  from make_shoe_ok [of 1 rnd] obtain s rnd' where "make_shoe 1 rnd = Inr (s, rnd')" "shoe_ok s" by auto
  with test_hands_ends [of s 100 rnd'] show ?thesis by (simp add: testHand_def make_lib_game_def lib_make_shoe_eq)
qed

lemma own_suites:
  "suite_ends (blackjack_test rnd)" "suite_verdicts (blackjack_test rnd) = []"
  "suite_ends message_test" "suite_verdicts message_test = [True, True]"
proof -
  from testHand_ends [of rnd] obtain hs ts where t: "testHand rnd = Some (Inr (hs, ts))" "list_all ends ts"
    "concat (map verdicts ts) = []" by blast
  then show "suite_ends (blackjack_test rnd)" "suite_verdicts (blackjack_test rnd) = []"
    by (simp_all add: suite_ends_def suite_verdicts_def blackjack_test_def)
  show "suite_ends message_test" "suite_verdicts message_test = [True, True]"
    by (simp_all add: suite_ends_def suite_verdicts_def message_test_def testMessage_def msg_make_def msg_data_def
        can_construct_def empty_heap_def hello_def)
qed

text \<open>The two suites of the server, listed in the order of their translation units.\<close>

definition sample_harness :: harness where
  "sample_harness =
     \<lparr>cps = [], cp_count = 0, cur = None, all_start = 0, all_failed = 0, all_total = 0, run_v = [],
      test_out = [], ticks = 0, suites = [message_test, blackjack_test (\<lambda>_. 0)]\<rparr>"

definition sample_test_env :: test_env where
  "sample_test_env = \<lparr>test_clock = int, test_secs = int_to_string\<rparr>"

theorem test_run_verdict_witness:
  "\<exists>h'. test_run sample_test_env 7 [''lounge-tests''] sample_harness = (Inr 0, h') \<and>
     results h' = [(''lounge.server.blackjack'', 0, 0), (''lounge.server.message'', 0, 2)]"
proof -
  have n: "suite_name (blackjack_test (\<lambda>_. 0)) = ''lounge.server.blackjack''" "suite_name message_test = ''lounge.server.message''"
    by (simp_all add: blackjack_test_def message_test_def)
  have s: "selected (tl [''lounge-tests'']) (suites sample_harness) = [blackjack_test (\<lambda>_. 0), message_test]"
    by (simp add: selected_def sort_suites_def sample_harness_def n char_value_def)
  from test_run_verdict [of "[''lounge-tests'']" sample_harness sample_test_env 7, unfolded s] show ?thesis
    by (auto simp: wants_help_def own_suites sample_harness_def suite_result_def n)
qed


section \<open>expected\<close>

text \<open>
  \<^verbatim>\<open>std::string\<close>, whose copies do not throw and whose moves leave an empty string, and the class
  \<^verbatim>\<open>throw_on_copy\<close> of the test. The errors are numbers; 1 stands for \<^verbatim>\<open>error::timeout\<close>, 0 for a
  default \<^verbatim>\<open>error_code\<close>.
\<close>

definition str_ops :: "(string, nat) ops" where
  "str_ops = \<lparr>cp = Some, mv = (\<lambda>s. (s, [])), inv_arg = 22\<rparr>"

definition throw_on_copy :: "(unit, nat) ops" where
  "throw_on_copy = \<lparr>cp = (\<lambda>_. None), mv = (\<lambda>_. ((), ())), inv_arg = 22\<rparr>"

text \<open>The statements of a block, from an empty store; the result of the last that was executed.\<close>

fun run_block :: "('a, 'e) ops \<Rightarrow> ('a, 'e) exp_op list \<Rightarrow> (('a, 'e) mem, unit) eff" where
  "run_block T [] m = (Inr (), m)"
| "run_block T (x # xs) m = seq_eff (run_exp T x) (run_block T xs) m"

definition block :: "('a, 'e) ops \<Rightarrow> ('a, 'e) exp_op list \<Rightarrow> (exp_error + unit) \<times> ('a, 'e) mem" where
  "block T xs = run_block T xs \<lparr>cells = Map.empty, lost = []\<rparr>"

text \<open>What is observed of the object at an address after the block.\<close>

definition seen :: "(('a, 'e) cell \<Rightarrow> bool) \<Rightarrow> nat \<Rightarrow> (exp_error + unit) \<times> ('a, 'e) mem \<Rightarrow> bool" where
  "seen p a r = (case cells (snd r) a of None \<Rightarrow> False | Some c \<Rightarrow> p c)"

definition holds :: "'a \<Rightarrow> ('a, 'e) cell \<Rightarrow> bool" where
  "holds x c \<longleftrightarrow> exp_deref c = Inr x"

definition size_is :: "nat \<Rightarrow> (string, 'e) cell \<Rightarrow> bool" where
  "size_is n c \<longleftrightarrow> (case exp_deref c of Inl e \<Rightarrow> False | Inr s \<Rightarrow> length s = n)"

definition testSpecial :: "bool list" where
  "testSpecial =
     (let r = block str_ops [Ctor_move 1 ''x'', Move_ctor 2 1] in
        [seen (size_is 0) 1 r, seen (size_is 1) 2 r, seen (holds ''x'') 2 r]) @
     (let r = block str_ops [Ctor_move 1 ''x'', Copy_ctor 2 1] in
        [seen (size_is 1) 1 r, seen (size_is 1) 2 r, seen (holds ''x'') 1 r, seen (holds ''x'') 2 r]) @
     (let r = block str_ops [Ctor_move 1 ''x'', Ctor_move 2 '''', Move_assign 2 1] in
        [seen (size_is 0) 1 r, seen (size_is 1) 2 r, seen (holds ''x'') 2 r]) @
     (let r = block str_ops [Ctor_move 1 ''x'', Ctor_move 2 '''', Copy_assign 2 1] in
        [seen (size_is 1) 1 r, seen (size_is 1) 2 r, seen (holds ''x'') 1 r, seen (holds ''x'') 2 r]) @
     (let r0 = block throw_on_copy [Ctor_move 1 (), Ctor_move 2 ()];
          r = block throw_on_copy [Ctor_move 1 (), Ctor_move 2 (), Copy_assign 2 1] in
        [seen has_value 2 r0, fst r = Inl Copy_threw, seen (\<lambda>c. \<not> has_value c) 2 r])"

text \<open>A value built in place is the one the arguments give.\<close>

definition testMembers :: "bool list" where
  "testMembers =
     [seen (\<lambda>c. exp_value c = Inr ''x'') 1 (block str_ops [Ctor_move 1 ''x'']),
      seen (\<lambda>c. exp_value c = Inr ''x'') 1 (block str_ops [Ctor_copy 1 ''x'']),
      seen (\<lambda>c. exp_value c = Inr ''x'') 1 (block str_ops [Ctor_move 1 ''x'']),
      seen (\<lambda>c. exp_value c = Inr ''x'') 1 (exp_ctor_in_place 1 (Some ''x'') (\<lparr>cells = Map.empty, lost = []\<rparr> :: (string, nat) mem)),
      seen (\<lambda>c. exp_err c = Inr 1) 1 (block str_ops [Ctor_error 1 1]),
      seen (\<lambda>c. exp_err c = Inr 1) 1 (block str_ops [Ctor_error 1 1]),
      seen (\<lambda>c. \<not> has_value c) 1 (block str_ops [Ctor_error 1 0]),
      seen (\<lambda>c. exp_value c = Inr ''x'') 1 (block str_ops [Ctor_error 1 0, Assign_move 1 ''x'']),
      seen (\<lambda>c. exp_value c = Inr ''x'') 1 (block str_ops [Ctor_error 1 0, Assign_move 1 ''x'']),
      seen (\<lambda>c. exp_err c = Inr 1) 1 (block str_ops [Ctor_error 1 0, Assign_error 1 1])]"

definition testObservers :: "bool list" where
  "testObservers =
     (let r = block str_ops [Ctor_move 1 ''x'', Ctor_error 2 1];
          r' = value_or_move str_ops 1 ''y'' (snd r) in
      [seen (size_is 1) 1 r, seen (size_is 1) 1 r, seen (holds ''x'') 1 r, seen (holds ''x'') 1 r,
       seen has_value 1 r, seen has_value 1 r, seen (\<lambda>c. \<not> has_value c) 2 r,
       seen (\<lambda>c. exp_value c = Inr ''x'') 1 r, seen (\<lambda>c. exp_value c = Inr ''x'') 1 r,
       seen (\<lambda>c. exp_err c = Inr 1) 2 r, seen (\<lambda>c. value_or str_ops c ''y'' = Inr ''x'') 1 r,
       fst r' = Inr ''x'', seen (size_is 0) 1 (Inr (), snd r'),
       seen (\<lambda>c. value_or str_ops c ''y'' = Inr ''y'') 2 r])"

definition testEquality :: "bool list" where
  "testEquality =
     (let m = snd (block str_ops [Ctor_move 1 ''x'', Ctor_move 2 ''x'', Ctor_move 3 ''y'', Ctor_error 4 1]);
          s = (\<lambda>a. the (cells m a)) in
      [exp_eq (=) (s 1) (s 2) = Inr True, exp_ne (=) (s 1) (s 3) = Inr True, exp_ne (=) (s 1) (s 4) = Inr True,
       exp_ne_error (s 1) 1 = Inr True, error_ne_exp 1 (s 1) = Inr True, exp_eq_error (s 4) 1 = Inr True,
       error_eq_exp 1 (s 4) = Inr True])"

definition expected_test :: "bool list" where
  "expected_test = testSpecial @ testMembers @ testObservers @ testEquality"

lemmas expected_code = block_def seen_def holds_def size_is_def str_ops_def throw_on_copy_def
  exp_ctor_move_def exp_ctor_copy_def exp_ctor_error_def exp_ctor_in_place_def exp_move_ctor_def exp_copy_ctor_def
  exp_move_assign_def exp_copy_assign_def exp_assign_move_def exp_assign_error_def exp_move_def exp_destroy_def
  allocate_def place_def set_flag_def at_def seq_eff_def exp_deref_def has_value_def exp_value_def exp_err_def
  value_or_def value_or_move_def exp_eq_def exp_ne_def exp_eq_error_def exp_ne_error_def error_eq_exp_def error_ne_exp_def

text \<open>
  The model passes the forty-eight checks of the repository's own test of \<^verbatim>\<open>expected\<close>: construction, copying and moving,
  the assignment whose copy throws, the observers and the comparisons behave as its author wrote down.
\<close>

theorem expected_test_passes: "length expected_test = 48 \<and> list_all (\<lambda>b. b) expected_test"
proof -
  have "list_all (\<lambda>b. b) testSpecial" "length testSpecial = 17"
    by (simp_all add: testSpecial_def expected_code Let_def)
  moreover have "list_all (\<lambda>b. b) testMembers" "length testMembers = 10"
    by (simp_all add: testMembers_def expected_code)
  moreover have "list_all (\<lambda>b. b) testObservers" "length testObservers = 14"
    by (simp_all add: testObservers_def expected_code Let_def)
  moreover have "list_all (\<lambda>b. b) testEquality" "length testEquality = 7"
    by (simp_all add: testEquality_def expected_code Let_def)
  ultimately show ?thesis by (simp add: expected_test_def)
qed

end
