(* ===== verification/Web_Page.thy ===== *)
theory Web_Page
  imports Client Lounge_Tests
begin

text \<open>
  The page the server hands out, \<^verbatim>\<open>static/wwwroot/index.html\<close> with \<^verbatim>\<open>static/wwwroot/lounge-chat.js\<close>: what it
  sends when a button is clicked and how it draws what the server sends. A JSON value is what
  \<^verbatim>\<open>JSON.parse\<close> delivers; \<open>None\<close> is \<^verbatim>\<open>undefined\<close>. The text of a number is a parameter, since a number is a
  double in this language.
\<close>

section \<open>The language\<close>

text \<open>
  \<open>Type_error\<close> is thrown when a member of \<^verbatim>\<open>undefined\<close> or \<^verbatim>\<open>null\<close> is read. \<open>Outside\<close> stands for conversions
  the model leaves out: no value the server sends leads to one.
\<close>

datatype js_error = Type_error | Outside

type_synonym 'a js = "js_error + 'a"

definition js_bind :: "'a js \<Rightarrow> ('a \<Rightarrow> 'b js) \<Rightarrow> 'b js" where
  "js_bind m f = (case m of Inl e \<Rightarrow> Inl e | Inr x \<Rightarrow> f x)"

lemma js_bind_simps [simp]: "js_bind (Inr x) f = f x" "js_bind (Inl e) f = Inl e"
  by (simp_all add: js_bind_def)

text \<open>
  \<^verbatim>\<open>v.k\<close> for the names the page uses, none of which a value that is not an object has. Of members with
  the same name \<^verbatim>\<open>JSON.parse\<close> keeps the last.
\<close>

fun js_get :: "json option \<Rightarrow> string \<Rightarrow> json option js" where
  "js_get None k = Inl Type_error"
| "js_get (Some JNull) k = Inl Type_error"
| "js_get (Some (JObj ms)) k = Inr (map_of (rev ms) k)"
| "js_get (Some _) k = Inr None"

fun js_index :: "json option \<Rightarrow> nat \<Rightarrow> json option js" where
  "js_index None i = Inl Type_error"
| "js_index (Some JNull) i = Inl Type_error"
| "js_index (Some (JArr js)) i = Inr (if i < length js then Some (js ! i) else None)"
| "js_index (Some (JStr _)) i = Inl Outside"
| "js_index (Some (JObj _)) i = Inl Outside"
| "js_index (Some _) i = Inr None"

fun js_text :: "(int \<Rightarrow> string) \<Rightarrow> json option \<Rightarrow> string js" where
  "js_text nt None = Inr ''undefined''"
| "js_text nt (Some JNull) = Inr ''null''"
| "js_text nt (Some (JBool b)) = Inr (if b then ''true'' else ''false'')"
| "js_text nt (Some (JInt i)) = Inr (nt i)"
| "js_text nt (Some (JUint n)) = Inr (nt (int n))"
| "js_text nt (Some (JStr s)) = Inr s"
| "js_text nt (Some _) = Inl Outside"

fun js_truthy :: "json option \<Rightarrow> bool" where
  "js_truthy None = False"
| "js_truthy (Some JNull) = False"
| "js_truthy (Some (JBool b)) = b"
| "js_truthy (Some (JInt i)) = (i \<noteq> 0)"
| "js_truthy (Some (JUint n)) = (n \<noteq> 0)"
| "js_truthy (Some (JDouble m e)) = (m \<noteq> 0)"
| "js_truthy (Some (JStr s)) = (s \<noteq> [])"
| "js_truthy (Some _) = True"

text \<open>\<^verbatim>\<open>v == undefined\<close>, and \<^verbatim>\<open>v == s\<close> for a string that is not the text of a number.\<close>

definition js_nullish :: "json option \<Rightarrow> bool" where
  "js_nullish v \<longleftrightarrow> v = None \<or> v = Some JNull"

fun js_equals :: "json option \<Rightarrow> string \<Rightarrow> bool js" where
  "js_equals (Some (JStr t)) s = Inr (t = s)"
| "js_equals (Some (JArr _)) s = Inl Outside"
| "js_equals (Some (JObj _)) s = Inl Outside"
| "js_equals _ s = Inr False"

definition js_substring :: "string \<Rightarrow> int \<Rightarrow> int \<Rightarrow> string" where
  "js_substring s a b =
     (let n = int (length s); x = nat (max 0 (min a n)); y = nat (max 0 (min b n));
          lo = min x y; hi = max x y
      in take (hi - lo) (drop lo s))"

section \<open>Drawing\<close>

definition card_names :: string where
  "card_names = ''AC2C3C4C5C6C7C8C9CTCJCQCKCAH2H3H4H5H6H7H8H9HTHJHQHKH'' @
     ''AS2S3S4S5S6S7S8S9STSJSQSKSAD2D3D4D5D6D7D8D9DTDJDQDKD''"

fun CardText :: "json \<Rightarrow> string js" where
  "CardText (JInt c) = Inr (js_substring card_names (2 * (c - 1)) (2 * c))"
| "CardText (JUint c) = Inr (js_substring card_names (2 * (int c - 1)) (2 * int c))"
| "CardText _ = Inl Outside"

text \<open>The loop over the hand.\<close>

fun cards_drawn :: "json list \<Rightarrow> string js" where
  "cards_drawn [] = Inr []"
| "cards_drawn (c # cs) =
     js_bind (CardText c) (\<lambda>t. js_bind (cards_drawn cs) (\<lambda>ts. Inr ('' '' @ t @ ts)))"

fun hand_drawn :: "json option \<Rightarrow> string js" where
  "hand_drawn None = Inl Type_error"
| "hand_drawn (Some JNull) = Inl Type_error"
| "hand_drawn (Some (JArr cs)) = cards_drawn cs"
| "hand_drawn (Some (JStr _)) = Inl Outside"
| "hand_drawn (Some (JObj _)) = Inl Outside"
| "hand_drawn (Some _) = Inr []"

definition user_with :: "(int \<Rightarrow> string) \<Rightarrow> json option \<Rightarrow> string \<Rightarrow> string js" where
  "user_with nt seat post =
     js_bind (js_get seat ''user'') (\<lambda>u. js_bind (js_text nt u) (\<lambda>t. Inr (t @ post)))"

text \<open>The chain of tests of the state.\<close>

definition state_drawn :: "(int \<Rightarrow> string) \<Rightarrow> json option \<Rightarrow> string js" where
  "state_drawn nt seat =
     js_bind (js_get seat ''state'') (\<lambda>st.
     js_bind (js_equals st ''dealer'') (\<lambda>b. if b then Inr ''(Dealer)'' else
     js_bind (js_equals st ''open'') (\<lambda>b. if b then Inr ''(Open)'' else
     js_bind (js_equals st ''waiting'') (\<lambda>b. if b then user_with nt seat '' (Waiting)'' else
     js_bind (js_equals st ''playing'') (\<lambda>b. if b then user_with nt seat [] else
     js_bind (js_equals st ''leaving'') (\<lambda>b. if b then user_with nt seat '' (Leaving)'' else Inr []))))))"

definition wager_drawn :: "(int \<Rightarrow> string) \<Rightarrow> json option \<Rightarrow> string js" where
  "wager_drawn nt seat =
     js_bind (js_get seat ''wager'') (\<lambda>v.
       if js_nullish v then Inr [] else js_bind (js_text nt v) (\<lambda>t. Inr ('' Bet $'' @ t)))"

text \<open>The text that is assigned at the end of \<^verbatim>\<open>UpdateSeat\<close>.\<close>

definition UpdateSeat :: "(int \<Rightarrow> string) \<Rightarrow> json option \<Rightarrow> nat \<Rightarrow> string js" where
  "UpdateSeat nt seat i =
     js_bind (state_drawn nt seat) (\<lambda>a.
     js_bind (wager_drawn nt seat) (\<lambda>b.
     js_bind (js_get seat ''hands'') (\<lambda>hs.
     js_bind (js_index hs 0) (\<lambda>h.
     js_bind (hand_drawn h) (\<lambda>c.
       Inr (''['' @ nt (int i) @ ''] '' @ a @ b @ c))))))"

text \<open>
  What the page shows: the text of the messages, the line above the table and the six seats. A handler
  that throws keeps what it has changed.
\<close>

record page =
  messages :: string
  table_line :: string
  seat_lines :: "string list"

definition shown :: "string \<Rightarrow> page \<Rightarrow> page" where
  "shown t pg = pg\<lparr>messages := messages pg @ t\<rparr>"

fun js_content :: "(int \<Rightarrow> string) \<Rightarrow> json option \<Rightarrow> string js" where
  "js_content nt v = (if js_nullish v then Inr [] else js_text nt v)"

fun update_seats :: "(int \<Rightarrow> string) \<Rightarrow> json option \<Rightarrow> nat list \<Rightarrow> page \<Rightarrow> js_error option \<times> page" where
  "update_seats nt game [] pg = (None, pg)"
| "update_seats nt game (i # is) pg =
     (case js_bind (js_get game ''seats'') (\<lambda>ss. js_bind (js_index ss i) (\<lambda>s. UpdateSeat nt s i)) of
        Inl e \<Rightarrow> (Some e, pg)
      | Inr t \<Rightarrow> update_seats nt game is (pg\<lparr>seat_lines := (seat_lines pg)[i := t]\<rparr>))"

definition UpdateTable :: "(int \<Rightarrow> string) \<Rightarrow> json option \<Rightarrow> page \<Rightarrow> js_error option \<times> page" where
  "UpdateTable nt game pg =
     (case js_bind (js_get game ''message'') (js_content nt) of
        Inl e \<Rightarrow> (Some e, pg)
      | Inr t \<Rightarrow> update_seats nt game [0..<6] (pg\<lparr>table_line := t\<rparr>))"

section \<open>The handlers\<close>

text \<open>\<^verbatim>\<open>on_message\<close> of the page: an error is shown, a channel's event by its verb.\<close>

definition error_text :: "(int \<Rightarrow> string) \<Rightarrow> json option \<Rightarrow> string js" where
  "error_text nt err =
     js_bind (js_get err ''message'') (\<lambda>m. js_bind (js_text nt m) (\<lambda>mt.
     js_bind (js_get err ''code'') (\<lambda>c. js_bind (js_text nt c) (\<lambda>ct.
       Inr (''Error: '' @ mt @ ''('' @ ct @ '')'' @ [CHR 0x0A])))))"

definition event_prefix :: "(int \<Rightarrow> string) \<Rightarrow> json option \<Rightarrow> string js" where
  "event_prefix nt jv =
     js_bind (js_get jv ''cid'') (\<lambda>c. js_bind (js_text nt c) (\<lambda>ct.
     js_bind (js_get jv ''name'') (\<lambda>n. js_bind (js_text nt n) (\<lambda>n_t.
     js_bind (js_get jv ''user'') (\<lambda>u.
       let p = ''['' @ ct @ ''. '' @ n_t @ ''] '' in
       if js_truthy u then js_bind (js_text nt u) (\<lambda>ut. Inr (p @ ut @ '' '')) else Inr p)))))"

definition show_text :: "string js \<Rightarrow> page \<Rightarrow> js_error option \<times> page" where
  "show_text r pg = (case r of Inl e \<Rightarrow> (Some e, pg) | Inr t \<Rightarrow> (None, shown t pg))"

definition on_message :: "(int \<Rightarrow> string) \<Rightarrow> json \<Rightarrow> page \<Rightarrow> js_error option \<times> page" where
  "on_message nt j pg =
     (let jv = Some j in
      case js_get jv ''error'' of
        Inl e \<Rightarrow> (Some e, pg)
      | Inr err \<Rightarrow>
          if \<not> js_nullish err then show_text (error_text nt err) pg
          else (case event_prefix nt jv of
             Inl e \<Rightarrow> (Some e, pg)
           | Inr pre \<Rightarrow>
               (case js_get jv ''verb'' of
                  Inl e \<Rightarrow> (Some e, pg)
                | Inr verb \<Rightarrow>
                    if verb = Some (JStr ''join'') then (None, shown (pre @ ''joins'' @ [CHR 0x0A]) pg)
                    else if verb = Some (JStr ''leave'') then (None, shown (pre @ ''leaves'' @ [CHR 0x0A]) pg)
                    else if verb = Some (JStr ''say'') then
                      show_text (js_bind (js_get jv ''message'') (\<lambda>m. js_bind (js_text nt m) (\<lambda>t.
                        Inr (pre @ t @ [CHR 0x0A])))) pg
                    else if verb = Some (JStr ''update'') then
                      (case js_get jv ''game'' of Inl e \<Rightarrow> (Some e, pg) | Inr g \<Rightarrow> UpdateTable nt g pg)
                    else (None, pg))))"

text \<open>
  The listener of the event \<^verbatim>\<open>message\<close>, with what \<^verbatim>\<open>JSON.parse\<close> makes of the data, if it does not throw;
  and the other two listeners that the page fills in.
\<close>

definition error_line :: string where
  "error_line = ''[error]'' @ [CHR 0x0A]"

definition message_event :: "(int \<Rightarrow> string) \<Rightarrow> json option \<Rightarrow> page \<Rightarrow> page" where
  "message_event nt parsed pg =
     (case parsed of
        None \<Rightarrow> shown error_line pg
      | Some j \<Rightarrow> (case on_message nt j pg of (None, pg') \<Rightarrow> pg' | (Some e, pg') \<Rightarrow> shown error_line pg'))"

definition page_on_open :: "page \<Rightarrow> page" where
  "page_on_open = shown (''[connection opened]'' @ [CHR 0x0A])"

definition page_on_close :: "page \<Rightarrow> page" where
  "page_on_close = shown (''[connection closed]'' @ [CHR 0x0A])"

section \<open>Clicks\<close>

text \<open>
  A connection of the page, a \<^verbatim>\<open>LoungeChat\<close>: the state of its socket, the name it was made with, the running
  number and what has been put on the wire. A send on a socket that is not yet open throws; on one that
  is closing or closed it is discarded.
\<close>

datatype sock_state = Sock_connecting | Sock_open | Sock_closed

record chat =
  sock :: sock_state
  chat_user :: string
  chat_id :: nat
  chat_out :: "json list"

definition LoungeChat :: "string \<Rightarrow> chat" where
  "LoungeChat user_name = \<lparr>sock = Sock_connecting, chat_user = user_name, chat_id = 1, chat_out = []\<rparr>"

definition chat_send :: "string \<Rightarrow> members \<Rightarrow> chat \<Rightarrow> chat option" where
  "chat_send m ps c =
     (case sock c of
        Sock_connecting \<Rightarrow> None
      | Sock_open \<Rightarrow> Some (c\<lparr>chat_out := chat_out c @ [send_message (chat_id c) m ps], chat_id := chat_id c + 1\<rparr>)
      | Sock_closed \<Rightarrow> Some (c\<lparr>chat_id := chat_id c + 1\<rparr>))"

text \<open>The listener of \<^verbatim>\<open>open\<close>: both requests of the script, then the page's own handler.\<close>

definition chat_opened :: "chat \<Rightarrow> chat option" where
  "chat_opened c =
     Option.bind (chat_send ''identify'' [(''cid'', JUint 1), (''name'', JStr (chat_user c))] (c\<lparr>sock := Sock_open\<rparr>))
       (chat_send ''join'' [(''cid'', JUint 2)])"

text \<open>
  The page's variable \<^verbatim>\<open>ws\<close>. Closing compares it with \<^verbatim>\<open>null\<close> instead of assigning \<^verbatim>\<open>null\<close> to it, so that it
  keeps the closed connection.
\<close>

definition close_ws :: "chat option \<Rightarrow> chat option" where
  "close_ws = map_option (\<lambda>c. c\<lparr>sock := Sock_closed\<rparr>)"

definition connect_click :: "string \<Rightarrow> chat option \<Rightarrow> chat option" where
  "connect_click user_name ws = (let ws1 = close_ws ws in Some (LoungeChat user_name))"

text \<open>A click that throws leaves everything as it was; the text field is cleared at the end of the handler.\<close>

definition send_click :: "string \<Rightarrow> chat option \<Rightarrow> string \<times> chat option" where
  "send_click value ws =
     (case ws of
        None \<Rightarrow> (value, ws)
      | Some c \<Rightarrow>
          (case (if value = [] \<or> hd value \<noteq> CHR ''/''
                 then chat_send ''say'' [(''cid'', JUint 2), (''message'', JStr value)] c
                 else chat_send ''slash'' [(''cid'', JUint 2), (''command'', JStr value)] c) of
             None \<Rightarrow> (value, ws)
           | Some c' \<Rightarrow> ([], Some c')))"

datatype bj_button = Bj_join | Bj_leave | Bj_play | Bj_watch | Bj_bet | Bj_start | Bj_hit | Bj_stand

fun bj_method :: "bj_button \<Rightarrow> string" where
  "bj_method Bj_join = ''join''"
| "bj_method Bj_leave = ''leave''"
| "bj_method Bj_play = ''play''"
| "bj_method Bj_watch = ''watch''"
| "bj_method Bj_bet = ''bet''"
| "bj_method Bj_start = ''start''"
| "bj_method Bj_hit = ''hit''"
| "bj_method Bj_stand = ''stand''"

definition bj_click :: "bj_button \<Rightarrow> chat option \<Rightarrow> chat option" where
  "bj_click b ws =
     (case ws of
        None \<Rightarrow> ws
      | Some c \<Rightarrow> (case chat_send (bj_method b) [(''cid'', JUint 3)] c of None \<Rightarrow> ws | Some c' \<Rightarrow> Some c'))"

text \<open>Everything that can happen to the page: clicks, the socket opens, the socket closes.\<close>

datatype ui_event =
    Ui_connect string | Ui_disconnect | Ui_send string | Ui_bj bj_button | Ui_opened | Ui_closed

fun ui_step :: "ui_event \<Rightarrow> chat option \<Rightarrow> chat option" where
  "ui_step (Ui_connect nm) ws = connect_click nm ws"
| "ui_step Ui_disconnect ws = close_ws ws"
| "ui_step (Ui_send t) ws = snd (send_click t ws)"
| "ui_step (Ui_bj b) ws = bj_click b ws"
| "ui_step Ui_opened ws =
     (case ws of
        Some c \<Rightarrow> if sock c = Sock_connecting then chat_opened c else ws
      | None \<Rightarrow> None)"
| "ui_step Ui_closed ws = close_ws ws"

section \<open>What is drawn\<close>

text \<open>The caption of a seat in terms of the server's game, with the names of the cards as the server's own tests print them.\<close>

definition card_name :: "card \<Rightarrow> string" where
  "card_name c = (case card_string c of Inl e \<Rightarrow> [] | Inr t \<Rightarrow> t)"

definition seat_name :: "(uptr \<Rightarrow> string option) \<Rightarrow> seat \<Rightarrow> string" where
  "seat_name names s = (case Option.bind (seat_u s) names of None \<Rightarrow> [] | Some n \<Rightarrow> n)"

definition seat_caption :: "(int \<Rightarrow> string) \<Rightarrow> (uptr \<Rightarrow> string option) \<Rightarrow> nat \<Rightarrow> seat \<Rightarrow> string" where
  "seat_caption nt names i s =
     ''['' @ nt (int i) @ ''] '' @
     (case seat_state s of
        Dealer \<Rightarrow> ''(Dealer)''
      | Open \<Rightarrow> ''(Open)''
      | Waiting \<Rightarrow> seat_name names s @ '' (Waiting)''
      | Playing \<Rightarrow> seat_name names s @ '' Bet $'' @ nt (wager s)
      | Leaving \<Rightarrow> seat_name names s @ '' (Leaving)'' @ '' Bet $'' @ nt (wager s)) @
     concat (map (\<lambda>c. '' '' @ card_name c) (hand_cards (hands s ! 0)))"

lemma card_text: "valid_card c \<Longrightarrow> CardText (JInt c) = Inr (card_name c)"
proof -
  assume "valid_card c"
  then obtain n where n: "c = int n" "n \<in> set [1..<53]"
    by (auto simp: valid_card_def intro!: that [of "nat c"])
  have "list_all (\<lambda>n. js_substring card_names (2 * (int n - 1)) (2 * int n) = card_name (int n)) [1..<53]"
    by code_simp
  with n show ?thesis by (auto simp: list_all_iff)
qed

lemma cards_text_drawn:
  "list_all valid_card cs \<Longrightarrow> cards_drawn (map JInt cs) = Inr (concat (map (\<lambda>c. '' '' @ card_name c) cs))"
  by (induction cs) (simp_all add: card_text del: CardText.simps)

lemma seat_drawn:
  assumes "seat_ok s" and "seat_to_json names s = Inr j"
  shows "UpdateSeat nt (Some j) i = Inr (seat_caption nt names i s)"
proof -
  from assms(1) obtain h where h: "hands s = [h]" "list_all valid_card (hand_cards h)"
    by (auto simp: seat_ok_def length_Suc_conv)
  note d = cards_text_drawn [OF h(2)]
  show ?thesis
    using assms(2) h(1)
    by (auto simp: seat_to_json_def seated_json_def UpdateSeat_def state_drawn_def wager_drawn_def user_with_def
        seat_caption_def seat_name_def js_nullish_def hand_to_json_def d Let_def
        split: seat_state.splits option.splits)
qed

lemma update_seats_all:
  assumes "\<forall>i \<in> set is. js_bind (js_get game ''seats'') (\<lambda>ss. js_bind (js_index ss i) (\<lambda>s. UpdateSeat nt s i)) = Inr (t i)"
  shows "update_seats nt game is pg = (None, pg\<lparr>seat_lines := fold (\<lambda>i l. l[i := t i]) is (seat_lines pg)\<rparr>)"
  using assms by (induction "is" arbitrary: pg) simp_all

lemma six_updates: "length l = 6 \<Longrightarrow> fold (\<lambda>i l. l[i := t i]) [0..<6] l = map t [0..<6]"
  by (auto simp: length_Suc_conv numeral_eq_Suc)

lemma seats_json_nth:
  "seats_to_json names ss = Inr js \<Longrightarrow> i < length ss \<Longrightarrow> i < length js \<and> seat_to_json names (ss ! i) = Inr (js ! i)"
  by (induction ss arbitrary: js i) (auto simp: nth_Cons split: sum.splits nat.splits)

lemma game_drawn:
  assumes g: "game_ok g" and j: "game_to_json names g = Inr j" and pg: "length (seat_lines pg) = 6"
  shows "UpdateTable nt (Some j) pg = (None, pg\<lparr>
    table_line := (case game_s g of Wait \<Rightarrow> ''Waiting for players'' | Play \<Rightarrow> ''Playing''),
    seat_lines := map (\<lambda>i. seat_caption nt names i (seats g ! i)) [0..<6]\<rparr>)"
proof -
  let ?m = "case game_s g of Wait \<Rightarrow> ''Waiting for players'' | Play \<Rightarrow> ''Playing''"
  from j obtain js where js: "seats_to_json names (seats g) = Inr js" and
    j': "j = JObj [(''message'', JStr ?m), (''seats'', JArr js)]"
    by (auto simp: game_to_json_def Let_def split: sum.splits)
  have "js_bind (js_get (Some j) ''seats'') (\<lambda>ss. js_bind (js_index ss i) (\<lambda>s. UpdateSeat nt s i)) =
      Inr (seat_caption nt names i (seats g ! i))" if "i \<in> set [0..<6]" for i
  proof -
    have i: "i < length (seats g)" using that g by simp
    from seats_json_nth [OF js i] seat_drawn [OF game_ok_seat [OF g]] that show ?thesis by (simp add: j')
  qed
  then have "update_seats nt (Some j) [0..<6] pg' =
      (None, pg'\<lparr>seat_lines := fold (\<lambda>i l. l[i := seat_caption nt names i (seats g ! i)]) [0..<6] (seat_lines pg')\<rparr>)" for pg'
    by (intro update_seats_all) blast
  with pg show ?thesis by (simp add: UpdateTable_def j' js_nullish_def six_updates)
qed

section \<open>Whatever the server sends\<close>

lemma is_card_drawn: "list_all is_card cs \<Longrightarrow> \<exists>t. cards_drawn cs = Inr t"
proof (induction cs)
  case (Cons c cs)
  then obtain i where "c = JInt i" by (cases c) auto
  with Cons show ?case by auto
qed simp

lemma hands_drawn:
  assumes "hands_shape hs"
  shows "\<exists>h t. js_index (Some hs) 0 = Inr (Some h) \<and> hand_drawn (Some h) = Inr t"
proof -
  from assms obtain cs where "hs = JArr [JArr cs]" "list_all is_card cs"
    by (elim hands_shape.elims; elim each.elims) auto
  with is_card_drawn show ?thesis by auto
qed

lemmas fits_simps = list_all2_Cons1 word_in_def

lemma fitsE:
  assumes "fits fs j"
  obtains ms where "j = JObj ms" "list_all2 (\<lambda>f m. fst m = fst f \<and> snd f (snd m)) fs ms"
  using assms by (cases j) auto

lemma shape_text:
  "is_string j \<Longrightarrow> \<exists>s. j = JStr s" "is_int j \<Longrightarrow> \<exists>i. j = JInt i" "is_uint j \<Longrightarrow> \<exists>n. j = JUint n"
  by (cases j; simp)+

lemma seat_shape_drawn:
  assumes "seat_shape s"
  shows "\<exists>t. UpdateSeat nt (Some s) i = Inr t"
proof -
  have "\<exists>hs t. js_get (Some s) ''hands'' = Inr (Some hs) \<and> hands_shape hs \<and> state_drawn nt (Some s) = Inr t \<and>
      (\<exists>b. wager_drawn nt (Some s) = Inr b)"
    using assms unfolding seat_shape_def
    by (elim disjE fitsE; clarsimp simp: fits_simps state_drawn_def wager_drawn_def user_with_def js_nullish_def;
        auto simp: user_with_def dest!: shape_text)
  then obtain hs a b where h: "js_get (Some s) ''hands'' = Inr (Some hs)" "hands_shape hs"
    "state_drawn nt (Some s) = Inr a" "wager_drawn nt (Some s) = Inr b" by blast
  from hands_drawn [OF h(2)] obtain k t where "js_index (Some hs) 0 = Inr (Some k)" "hand_drawn (Some k) = Inr t" by blast
  with h show ?thesis by (simp add: UpdateSeat_def)
qed

lemma game_shape_drawn:
  assumes "game_shape g"
  shows "\<exists>pg'. UpdateTable nt (Some g) pg = (None, pg')"
proof -
  from assms obtain m js where g: "g = JObj [(''message'', JStr m), (''seats'', JArr js)]" "length js = 6" "list_all seat_shape js"
    unfolding game_shape_def by (elim fitsE; clarsimp simp: fits_simps; elim seats_shape.elims) auto
  have "\<exists>t. UpdateSeat nt (Some (js ! i)) i = Inr t" if "i < 6" for i
    using seat_shape_drawn g(2,3) that by (simp add: list_all_length)
  then obtain t where t: "\<And>i. i < 6 \<Longrightarrow> UpdateSeat nt (Some (js ! i)) i = Inr (t i)" by metis
  have "update_seats nt (Some g) [0..<6] pg' = (None, pg'\<lparr>seat_lines := fold (\<lambda>i l. l[i := t i]) [0..<6] (seat_lines pg')\<rparr>)" for pg'
    by (rule update_seats_all) (simp add: g(1,2) t)
  then show ?thesis by (simp add: UpdateTable_def g(1) js_nullish_def)
qed

lemmas message_defs = on_message_def Let_def js_nullish_def event_prefix_def error_text_def show_text_def

lemma event_drawn:
  "member_event j \<Longrightarrow> \<exists>pg'. on_message nt j pg = (None, pg')"
  "say_event j \<Longrightarrow> \<exists>pg'. on_message nt j pg = (None, pg')"
  "notice_event j \<Longrightarrow> \<exists>pg'. on_message nt j pg = (None, pg')"
  "update_event j \<Longrightarrow> \<exists>pg'. on_message nt j pg = (None, pg')"
  unfolding member_event_def say_event_def notice_event_def update_event_def
  by (elim fitsE; clarsimp simp: fits_simps; auto simp: message_defs dest!: shape_text intro: game_shape_drawn)+

lemma reply_drawn:
  "result_reply j \<Longrightarrow> \<exists>pg'. on_message nt j pg = (None, pg')"
  "error_reply j \<Longrightarrow> \<exists>pg'. on_message nt j pg = (None, pg')"
proof -
  show "result_reply j \<Longrightarrow> \<exists>pg'. on_message nt j pg = (None, pg')"
    unfolding result_reply_def by (elim fitsE; clarsimp simp: fits_simps; auto simp: message_defs)
  assume "error_reply j"
  then obtain c m i where "j = JObj [(''jsonrpc'', JStr ''2.0''), (''error'', JObj [(''code'', JInt c), (''message'', JStr m)]), (''id'', i)]"
    unfolding error_reply_def
    by (elim fitsE; clarsimp simp: fits_simps; elim fitsE; clarsimp simp: fits_simps; auto dest!: shape_text)
  then show "\<exists>pg'. on_message nt j pg = (None, pg')" by (simp add: message_defs)
qed

lemma wire_drawn: "wire_shape j \<Longrightarrow> \<exists>pg'. on_message nt j pg = (None, pg')"
  unfolding wire_shape_def using event_drawn reply_drawn by blast

section \<open>What the page sends\<close>

text \<open>The requests the page can make, with the channel they name.\<close>

definition page_request :: "nat \<Rightarrow> json \<Rightarrow> bool" where
  "page_request n j \<longleftrightarrow> (\<exists>m i ps. j = send_message n m ((''cid'', JUint i) # ps) \<and> i \<in> {1, 2, 3})"

text \<open>
  The requests on the wire are numbered from one. A socket that has not opened has sent nothing, and
  one that is open has used up exactly the numbers of what it has sent.
\<close>

definition chat_ok :: "chat \<Rightarrow> bool" where
  "chat_ok c \<longleftrightarrow>
     (\<forall>k < length (chat_out c). page_request (Suc k) (chat_out c ! k)) \<and>
     (sock c = Sock_connecting \<longrightarrow> chat_out c = []) \<and>
     (sock c \<noteq> Sock_closed \<longrightarrow> chat_id c = Suc (length (chat_out c)))"

lemma page_requestI: "i \<in> {1, 2, 3} \<Longrightarrow> page_request n (send_message n m ((''cid'', JUint i) # ps))"
  unfolding page_request_def by blast

lemma chat_send_ok:
  assumes "chat_ok c" and "chat_send m ((''cid'', JUint i) # ps) c = Some c'" and "i \<in> {1, 2, 3}"
  shows "chat_ok c' \<and> sock c' = sock c"
  using assms(1,2) page_requestI [OF assms(3), of "chat_id c" m ps]
  by (auto simp: chat_ok_def chat_send_def nth_append less_Suc_eq split: sock_state.splits)

lemma close_ws_ok: "pred_option chat_ok ws \<Longrightarrow> pred_option chat_ok (close_ws ws)"
  by (cases ws) (auto simp: close_ws_def chat_ok_def)

lemma chat_opened_ok:
  assumes "chat_ok c" and "sock c = Sock_connecting"
  shows "pred_option chat_ok (chat_opened c)"
proof (cases "chat_opened c")
  case (Some c2)
  then obtain c1 where
    c1: "chat_send ''identify'' [(''cid'', JUint 1), (''name'', JStr (chat_user c))] (c\<lparr>sock := Sock_open\<rparr>) = Some c1"
      "chat_send ''join'' [(''cid'', JUint 2)] c1 = Some c2" by (auto simp: chat_opened_def Option.bind_eq_Some_conv)
  have "chat_ok (c\<lparr>sock := Sock_open\<rparr>)" using assms by (simp add: chat_ok_def)
  from chat_send_ok [OF this c1(1)] have "chat_ok c1" by simp
  from chat_send_ok [OF this c1(2)] Some show ?thesis by simp
qed simp

lemma ui_step_ok:
  assumes "pred_option chat_ok ws"
  shows "pred_option chat_ok (ui_step e ws)"
proof (cases e)
  case (Ui_send t)
  with assms show ?thesis
    by (cases ws) (auto simp: send_click_def dest: chat_send_ok split: option.splits if_splits)
next
  case (Ui_bj b)
  with assms show ?thesis by (cases ws) (auto simp: bj_click_def dest: chat_send_ok split: option.splits)
next
  case Ui_opened
  with assms show ?thesis by (cases ws) (simp_all add: chat_opened_ok)
qed (use assms in \<open>simp_all add: close_ws_ok connect_click_def LoungeChat_def chat_ok_def Let_def\<close>)

lemma ui_run_ok: "pred_option chat_ok ws \<Longrightarrow> pred_option chat_ok (fold ui_step es ws)"
  by (induction es arbitrary: ws) (simp_all add: ui_step_ok)

lemma page_request_handled:
  assumes ok: "lounge_ok s w" "three_channels cs cr ct s" and u: "u \<in> dom (usrs w)"
    and nc: "number_cast_ok (env_number_cast E)" and j: "page_request n j"
  shows "\<exists>w'. handle_json E u j w = (Inr (), w') \<and> request_effect E u j w w'"
proof -
  from j obtain m i ps where j': "j = send_message n m ((''cid'', JUint i) # ps)" "i \<in> {1, 2, 3}"
    by (auto simp: page_request_def)
  have "env_number_cast E (JUint i) = Inr i" using nc j'(2) by (auto simp: number_cast_ok_def)
  then have "\<not> (\<exists>ps j'. member_of j ''params'' = Some ps \<and> member_of ps ''cid'' = Some j' \<and>
      env_number_cast E j' = Inl System_error)"
    by (auto simp: j'(1) send_message_def)
  with handle_json_served [OF ok u nc, of j] show ?thesis by blast
qed

text \<open>A request of the page has an id, so that the effect of it ends with a response or in the table's queue.\<close>

lemma page_request_answered:
  assumes "request_effect E u j w w'" and i: "member_of j ''id'' = Some i"
  shows "(\<exists>ms a. sent w' = sent w @ ms @ [(u, make_message (env_sr E) a)] \<and> member_of a ''id'' = Some i) \<or>
    (\<exists>t r. w' = w\<lparr>table_q := table_q w @ [t]\<rparr> \<and> task_request t = Some r \<and> ru r = u \<and> rid r = Some i)"
proof (cases "refusal E u j w")
  case (Some e)
  with assms have "sent w' = sent w @ [] @ [(u, make_message (env_sr E) (error_response e i))]"
    by (simp add: request_effect_def answer_def)
  moreover have "member_of (error_response e i) ''id'' = Some i" by (simp add: error_response_def)
  ultimately show ?thesis by blast
next
  case None
  with assms consider ms where "sent w' = sent w @ ms @ [(u, make_message (env_sr E) (success_response i))]"
    | r t where "extract_call (make_rpc_call u) j = (r, None)" "map_of (table_requests r) (method r) = Some t"
      "w' = w\<lparr>table_q := table_q w @ [t]\<rparr>"
    by (auto simp: request_effect_def answer_def)
  then show ?thesis
  proof cases
    case (2 r t)
    then have "task_request t = Some r" by (auto simp: table_requests_def split: if_splits)
    moreover have "ru r = u" "rid r = Some i"
      using extract_call_keeps [of "make_rpc_call u" j] 2(1) i by (simp_all add: make_rpc_call_def)
    ultimately show ?thesis using 2(3) by blast
  qed (force simp: success_response_def)
qed

text \<open>After a disconnect the page still has its connection, and every further click uses up a number.\<close>

lemma disconnected_page_keeps_connection:
  "\<exists>c'. ui_step (Ui_bj b) (ui_step Ui_disconnect (Some c)) = Some c' \<and> sock c' = Sock_closed \<and>
     chat_id c' = chat_id c + 1 \<and> chat_out c' = chat_out c"
  by (simp add: close_ws_def bj_click_def chat_send_def)

section \<open>Properties\<close>

text \<open>
  C10: the page understands its server. In every state the server reaches, each message it has handed to a
  session was made from a JSON value that the page's handler takes without an exception, whatever the page
  shows: no message ends in the line that reports an error.
\<close>

theorem page_understands_server:
  assumes "distinct [cr, cs, ct]" and "server_boot cr cs ct mem (boot_world g0 rnd) = (Inr (), w0)"
    and "lounge_reach E ct w0 w" and "(u, m) \<in> set (sent w)"
  shows "\<exists>j. m = make_message (env_sr E) j \<and>
    (\<forall>nt pg. \<exists>pg'. on_message nt j pg = (None, pg') \<and> message_event nt (Some j) pg = pg')"
proof -
  have "speaks E w" by (rule reach_speaks [OF assms(3) boot_speaks [OF assms(1,2)]])
  with assms(4) obtain j where j: "wire_shape j" "m = make_message (env_sr E) j" by (force simp: speaks_def wire_ok_def)
  have "\<exists>pg'. on_message nt j pg = (None, pg') \<and> message_event nt (Some j) pg = pg'" for nt pg
    using wire_drawn [OF j(1), of nt pg] by (auto simp: message_event_def)
  with j(2) show ?thesis by blast
qed

theorem page_understands_server_witness:
  "\<exists>j. snd (hd (sent (snd (handle_json sample_env 1 bad_call sample_live)))) = make_message (env_sr sample_env) j \<and>
     (\<forall>nt pg. \<exists>pg'. on_message nt j pg = (None, pg') \<and> message_event nt (Some j) pg = pg')"
  using page_understands_server [OF _ sample_boot_eq bad_call_reach] by simp

text \<open>
  C11: the page shows the game as it is. When the server announces the game of a state it can reach, the page
  shows the line for the state of the game and, for each of the six seats, who sits there and how, the
  wager of a player, and the cards by their names; nothing else on the page changes.
\<close>

theorem page_draws_game:
  assumes "distinct [cr, cs, ct]" and "server_boot cr cs ct mem (boot_world g0 rnd) = (Inr (), w0)"
    and "lounge_reach E ct w0 w" and "game_to_json (user_names w) (table_g w) = Inr g"
    and "length (seat_lines pg) = 6"
  shows "on_message nt (update_json x action g) pg = (None, pg\<lparr>
    table_line := (case game_s (table_g w) of Wait \<Rightarrow> ''Waiting for players'' | Play \<Rightarrow> ''Playing''),
    seat_lines := map (\<lambda>i. seat_caption nt (user_names w) i (seats (table_g w) ! i)) [0..<6]\<rparr>)"
proof -
  have "game_ok (table_g w)"
    by (rule speaks_game(2) [OF reach_speaks [OF assms(3) boot_speaks [OF assms(1,2), of E]]])
  from game_drawn [OF this assms(4,5)] show ?thesis by (simp add: message_defs update_json_def)
qed

definition blank_page :: page where
  "blank_page = \<lparr>messages = [], table_line = [], seat_lines = replicate 6 ''x''\<rparr>"

theorem page_draws_game_witness:
  "\<exists>g. game_to_json (user_names sample_boot) (table_g sample_boot) = Inr g \<and>
     hd (seat_lines (snd (on_message int_to_string (update_json (new_channel 1003 3 ''Blackjack'' Table) ''init'' g) blank_page))) =
       ''[0] (Dealer)''"
proof -
  obtain g rnd where g: "make_game 1 (\<lambda>_. 0) (\<lambda>_. 0) = Inr (g, rnd)" "seats g = fresh_seats (\<lambda>_. 0)"
    using make_game_ok [of 1 "\<lambda>_. 0" "\<lambda>_. 0"] by auto
  from boot_channels [OF _ g(1), of 50 40 60 sample_game] sample_boot_eq have t: "table_g sample_boot = g" by auto
  have "\<exists>j. game_to_json (user_names sample_boot) (table_g sample_boot) = Inr j"
    by (simp add: t game_to_json_def g(2) fresh_seats_def new_seat_def seat_to_json_def seats_to_json.simps Let_def numeral_eq_Suc)
  then obtain j where j: "game_to_json (user_names sample_boot) (table_g sample_boot) = Inr j" by blast
  have pg: "length (seat_lines blank_page) = 6" by (simp add: blank_page_def)
  have d: "distinct [50, 40, 60 :: nat]" by simp
  have "int_to_string 0 = ''0''" by code_simp
  then have "seat_caption int_to_string (user_names sample_boot) 0 (seats (table_g sample_boot) ! 0) = ''[0] (Dealer)''"
    by (simp add: t g(2) nth_fresh_seats seat_caption_def new_hand_def new_seat_def)
  moreover have "hd (map f [0..<6]) = f 0" for f :: "nat \<Rightarrow> string" by (simp add: upt_rec)
  ultimately have "hd (seat_lines (snd (on_message int_to_string (update_json (new_channel 1003 3 ''Blackjack'' Table) ''init'' j) blank_page))) =
      ''[0] (Dealer)''"
    unfolding page_draws_game [OF d sample_boot_eq lounge_reach.boot [of sample_env] j pg] by simp
  with j show ?thesis by blast
qed

text \<open>
  C12: no request of the page is lost. Whatever its user clicks and however its sockets open and close, the
  requests of a connection are numbered from one, and in every state that the server reaches the handler of
  each of them returns: the last message it has sent goes to the user of the connection and carries the number
  of the request, or the request is the last task in the queue of the table's strand, with that user and that
  number. What that task does when it runs, which can end the process, is the subject of the claims on the
  table's tasks.
\<close>

theorem page_requests_handled:
  assumes "distinct [cr, cs, ct]" and "server_boot cr cs ct mem (boot_world g0 rnd) = (Inr (), w0)"
    and "lounge_reach E ct w0 w" and "u \<in> dom (usrs w)" and "number_cast_ok (env_number_cast E)"
    and "fold ui_step es None = Some c" and "k < length (chat_out c)"
  shows "member_of (chat_out c ! k) ''id'' = Some (JUint (Suc k)) \<and>
    (\<exists>w'. handle_json E u (chat_out c ! k) w = (Inr (), w') \<and>
      ((\<exists>ms a. sent w' = sent w @ ms @ [(u, make_message (env_sr E) a)] \<and>
          member_of a ''id'' = Some (JUint (Suc k))) \<or>
       (\<exists>t r. w' = w\<lparr>table_q := table_q w @ [t]\<rparr> \<and> task_request t = Some r \<and> ru r = u \<and>
          rid r = Some (JUint (Suc k)))))"
proof -
  from boot_ok [OF assms(1), of mem g0 rnd] assms(2)
  have b: "lounge_ok (static w0) w0" "three_channels cs cr ct (static w0)" by auto
  have "chat_ok c" using ui_run_ok [of None es] assms(6) by simp
  then have p: "page_request (Suc k) (chat_out c ! k)" using assms(7) by (simp add: chat_ok_def)
  then have i: "member_of (chat_out c ! k) ''id'' = Some (JUint (Suc k))"
    by (auto simp: page_request_def send_message_def)
  from page_request_handled [OF reach_ok [OF assms(3) b(1)] b(2) assms(4,5) p]
  obtain w' where w': "handle_json E u (chat_out c ! k) w = (Inr (), w')" "request_effect E u (chat_out c ! k) w w'" by blast
  from page_request_answered [OF w'(2) i] w'(1) i show ?thesis by blast
qed

theorem page_requests_handled_witness:
  "fst (handle_json sample_env 1 (send_message 3 ''play'' [(''cid'', JUint 3)]) sample_live) = Inr ()"
proof -
  have c: "fold ui_step [Ui_connect ''ann'', Ui_bj Bj_bet, Ui_opened, Ui_bj Bj_play] None =
      Some \<lparr>sock = Sock_open, chat_user = ''ann'', chat_id = 4,
        chat_out = open_requests ''ann'' @ [send_message 3 ''play'' [(''cid'', JUint 3)]]\<rparr>"
    by (simp add: connect_click_def LoungeChat_def bj_click_def chat_send_def chat_opened_def open_requests_def Let_def numeral_eq_Suc)
  show ?thesis
    using page_requests_handled [OF _ sample_boot_eq sample_live_ok(1) _ sample_env_cast c, of 1 2] sample_live_ok(2)
    by (auto simp: open_requests_def)
qed

end
