(* ===== verification/Network.thy ===== *)
theory Network
  imports Ws_Session Http_Session Listener
begin

text \<open>
  A listener, its sessions and the lounge behind them, put together: a connection is accepted,
  a detector finds out whether it wants TLS, an HTTP session answers a request or hands over to a
  WebSocket session, which is at the same time a user of the lounge. The steps are those of the
  component theories, made on the component of the state they belong to, with the calls between
  the components: \<^verbatim>\<open>run_http_session\<close>, \<^verbatim>\<open>run_ws_session\<close>, the request handler and the destructors.
\<close>

section \<open>The steps\<close>

record net =
  net_lst :: lst
  net_http :: "sptr \<rightharpoonup> http_session"
  net_ws :: "sptr \<rightharpoonup> ws_reader"
  net_lounge :: lounge

definition launch_http :: "bool \<Rightarrow> string \<Rightarrow> http_session" where
  "launch_http is_tls st = (if is_tls then run_https_session st else run_http_session st)"

text \<open>A connection is accepted, or accepting fails; \<open>p\<close> is the address of what is launched for it.\<close>

definition net_accept :: "net_error option \<Rightarrow> sptr \<Rightarrow> net \<Rightarrow> net" where
  "net_accept ec p N =
     (let L = net_lst N in
      N\<lparr>net_lst := lst_on_accept ec p (L\<lparr>accept_pending := False\<rparr>),
        net_http := (if ec = None \<and> acc_open L \<and> lkind L \<noteq> Allow_tls
                     then (net_http N)(p \<mapsto> launch_http (lkind L = Require_tls) []) else net_http N)\<rparr>)"

text \<open>The detector \<open>p\<close> has read the first bytes \<open>st\<close>.\<close>

definition net_detect :: "net_error option \<Rightarrow> bool \<Rightarrow> string \<Rightarrow> sptr \<Rightarrow> sptr \<Rightarrow> net \<Rightarrow> net" where
  "net_detect ec is_tls st p p' N =
     N\<lparr>net_lst := detector_resume ec is_tls p p' (net_lst N),
       net_http := (if ec = None then (net_http N)(p' \<mapsto> launch_http is_tls st) else net_http N)\<rparr>"

text \<open>
  An operation of the HTTP session \<open>s\<close> at \<open>p\<close> completes. A session that has handed over, or that
  waits for nothing any more, is released; the WebSocket session at \<open>p'\<close> is a new user.
\<close>

definition new_user :: user_obj where
  "new_user = \<lparr>uname = [], uchans = [], ualive = True\<rparr>"

definition net_http_event :: "http_env \<Rightarrow> http_event \<Rightarrow> sptr \<Rightarrow> http_session \<Rightarrow> sptr \<Rightarrow> net \<Rightarrow> net" where
  "net_http_event H e p s p' N =
     (let s' = deliver H e (s\<lparr>waiting := None\<rparr>);
          N1 = N\<lparr>net_http := (net_http N)(p \<mapsto> s')\<rparr>;
          w = net_lounge N
      in
      if upgraded s' \<noteq> upgraded s
      then N1\<lparr>net_lst := ws_upgrade p p' (if tls s then K_https else K_http) (net_lst N),
             net_ws := (net_ws N)(p' \<mapsto> new_reader),
             net_lounge := w\<lparr>usrs := (usrs w)(p' \<mapsto> new_user)\<rparr>\<rparr>
      else if waiting s' = None then N1\<lparr>net_lst := release p (net_lst N)\<rparr>
      else N1)"

text \<open>The coroutine of the WebSocket session at \<open>p\<close> resumes.\<close>

definition net_ws_event ::
    "env \<Rightarrow> (string \<Rightarrow> json option) \<Rightarrow> sptr \<Rightarrow> net_error option \<Rightarrow> string \<Rightarrow> ws_reader \<Rightarrow> net \<Rightarrow> net outcome" where
  "net_ws_event E parse p ec bytes s N =
     (case ws_resume E parse p ec bytes s (net_lounge N) of
        (Inl e, _, _) \<Rightarrow> Inl e
      | (Inr _, s', w') \<Rightarrow> Inr (N\<lparr>net_ws := (net_ws N)(p \<mapsto> s'), net_lounge := w'\<rparr>))"

text \<open>The last reference to a session is gone: its object, and the user that a WebSocket session is, are destroyed.\<close>

definition net_destroy :: "env \<Rightarrow> sptr \<Rightarrow> net \<Rightarrow> (unit outcome \<times> net) option" where
  "net_destroy E p N =
     (let N1 = N\<lparr>net_lst := session_dtor p (net_lst N), net_http := (net_http N)(p := None)\<rparr> in
      if net_ws N p = None then Some (Inr (), N1)
      else (case user_destroy virt_on_erase E p (net_lounge N) of
         None \<Rightarrow> None
       | Some (r, w) \<Rightarrow> Some (r, N1\<lparr>net_ws := (net_ws N)(p := None), net_lounge := w\<rparr>)))"

text \<open>A posted call of the listener; a stop of an HTTP session closes its socket.\<close>

definition net_task :: "lst_task \<Rightarrow> net \<Rightarrow> net outcome" where
  "net_task t N =
     (case run_lst_task t ((net_lst N)\<lparr>tasks := remove1 t (tasks (net_lst N))\<rparr>) of
        Inl e \<Rightarrow> Inl e
      | Inr L \<Rightarrow> Inr (N\<lparr>net_lst := L, net_http :=
          (case t of T_session_stop p \<Rightarrow> (net_http N)(p := map_option http_do_stop (net_http N p)) | _ \<Rightarrow> net_http N)\<rparr>))"

text \<open>
  The steps of the whole. Addresses of new objects are fresh; a session is destroyed when no operation,
  no posted call and no task of the table holds it; a WebSocket session that has finished reading is
  released at some later time, when its writes are done; a step that ends in an exception leads nowhere.
\<close>

inductive net_step :: "env \<Rightarrow> http_env \<Rightarrow> (string \<Rightarrow> json option) \<Rightarrow> cptr \<Rightarrow> net \<Rightarrow> net \<Rightarrow> bool" for E H parse ct N where
  net_accepts: "accept_pending (net_lst N) \<Longrightarrow> objs (net_lst N) p = None \<Longrightarrow> net_step E H parse ct N (net_accept ec p N)"
| net_detects: "objs (net_lst N) p = Some x \<Longrightarrow> skind x = K_detector \<Longrightarrow> op_pending x \<Longrightarrow>
    objs (net_lst N) p' = None \<Longrightarrow> net_step E H parse ct N (net_detect ec is_tls st p p' N)"
| net_http_step: "net_http N p = Some s \<Longrightarrow> waiting s = Some (event_op e) \<Longrightarrow>
    objs (net_lst N) p' = None \<Longrightarrow> net_step E H parse ct N (net_http_event H e p s p' N)"
| net_ws_step: "net_ws N p = Some s \<Longrightarrow> net_ws_event E parse p ec bytes s N = Inr N' \<Longrightarrow> net_step E H parse ct N N'"
| net_ws_ends: "net_ws N p = Some s \<Longrightarrow> coro s = Finished \<Longrightarrow> objs (net_lst N) p = Some x \<Longrightarrow> op_pending x \<Longrightarrow>
    net_step E H parse ct N (N\<lparr>net_lst := release p (net_lst N)\<rparr>)"
| net_destroys: "objs (net_lst N) p = Some x \<Longrightarrow> \<not> held p (net_lst N) \<Longrightarrow>
    \<forall>t \<in> set (table_q (net_lounge N)). p \<notin> task_refs t \<Longrightarrow> net_destroy E p N = Some (Inr (), N') \<Longrightarrow>
    net_step E H parse ct N N'"
| net_stops: "net_step E H parse ct N (N\<lparr>net_lst := lst_on_stop (net_lst N)\<rparr>)"
| net_posted: "t \<in> set (tasks (net_lst N)) \<Longrightarrow> net_task t N = Inr N' \<Longrightarrow> net_step E H parse ct N N'"
| net_table: "table_q (net_lounge N) = t # q \<Longrightarrow>
    run_table_task E ct t ((net_lounge N)\<lparr>table_q := q\<rparr>) = (Inr (), w') \<Longrightarrow>
    net_step E H parse ct N (N\<lparr>net_lounge := w'\<rparr>)"
| net_server: "srv_q (srv (net_lounge N)) = t # q \<Longrightarrow>
    run_srv_task E t t0 t1 t2 ((net_lounge N)\<lparr>srv := (srv (net_lounge N))\<lparr>srv_q := q\<rparr>\<rparr>) = (Inr (), w') \<Longrightarrow>
    net_step E H parse ct N (N\<lparr>net_lounge := w'\<rparr>)"
| net_timer: "timer_wait (srv (net_lounge N)) \<Longrightarrow>
    net_step E H parse ct N (N\<lparr>net_lounge := (net_lounge N)\<lparr>srv := (srv (net_lounge N))\<lparr>timer_wait := False,
      srv_q := srv_q (srv (net_lounge N)) @ [Task_timer False]\<rparr>\<rparr>\<rparr>)"
| net_signal: "signal_wait (srv (net_lounge N)) \<Longrightarrow>
    net_step E H parse ct N (N\<lparr>net_lounge := (net_lounge N)\<lparr>srv := (srv (net_lounge N))\<lparr>signal_wait := False,
      srv_q := srv_q (srv (net_lounge N)) @ [Task_signal False n]\<rparr>\<rparr>\<rparr>)"

inductive net_reach :: "env \<Rightarrow> http_env \<Rightarrow> (string \<Rightarrow> json option) \<Rightarrow> cptr \<Rightarrow> net \<Rightarrow> net \<Rightarrow> bool" for E H parse ct N0 where
  net_start: "net_reach E H parse ct N0 N0"
| net_next: "net_reach E H parse ct N0 N \<Longrightarrow> net_step E H parse ct N N' \<Longrightarrow> net_reach E H parse ct N0 N'"

section \<open>Who the users are\<close>

text \<open>No request, no task of the table and no task of the server makes or unmakes a user.\<close>

definition users_are :: "uptr set \<Rightarrow> 'a world_scheme \<Rightarrow> bool" where
  "users_are D w \<longleftrightarrow> dom (usrs w) = D"

lemma users_are_upd [simp]:
  "users_are D (w\<lparr>sent := m\<rparr>) = users_are D w" "users_are D (w\<lparr>chans := cs\<rparr>) = users_are D w"
  "users_are D (w'\<lparr>srv := x\<rparr>) = users_are D w'" "users_are D (v\<lparr>table_g := g\<rparr>) = users_are D v"
  "users_are D (v\<lparr>table_q := q\<rparr>) = users_are D v" "users_are D (v\<lparr>table_rnd := n\<rparr>) = users_are D v"
  by (simp_all add: users_are_def)

interpretation users_req: request_frame "users_are D" u
  by unfold_locales (simp_all, auto simp: users_are_def)

interpretation users_table: table_frame "users_are D"
  by unfold_locales simp_all

lemma handle_json_users: "dom (usrs (snd (handle_json E u jv w))) = dom (usrs w)"
  using keepsD [OF users_req.request, of "dom (usrs w)" w E u jv] by (simp add: users_are_def)

lemma table_task_users: "dom (usrs (snd (run_table_task E c t w))) = dom (usrs w)"
  using keepsD [OF users_table.keeps_task, of "dom (usrs w)" w E c t] by (simp add: users_are_def)

lemma srv_task_users: "dom (usrs (snd (run_srv_task E t t0 t1 t2 w))) = dom (usrs w)"
  for w :: "'a lounge_scheme"
proof -
  have "keeps (users_are (dom (usrs w))) (run_srv_task E t t0 t1 t2 :: ('a lounge_scheme, unit) act)"
    by (rule keeps_srv_task) simp_all
  from keepsD [OF this, of w] show ?thesis by (simp add: users_are_def)
qed


section \<open>Sessions, by kind\<close>

definition kinds :: "lst \<Rightarrow> sptr \<Rightarrow> sess_kind option" where
  "kinds L p = map_option skind (objs L p)"

definition pend :: "lst \<Rightarrow> sptr \<Rightarrow> bool" where
  "pend L p \<longleftrightarrow> (\<exists>x. objs L p = Some x \<and> op_pending x)"

lemma kinds_None: "kinds L p = None \<longleftrightarrow> objs L p = None"
  by (simp add: kinds_def)

lemma kinds_ctor:
  "kinds (session_ctor p k L) = (kinds L)(p \<mapsto> k)" "pend (session_ctor p k L) = (pend L)(p := True)"
  by (auto simp: kinds_def pend_def session_ctor_def fun_eq_iff)

lemma kinds_release: "kinds (release p L) = kinds L" "pend (release p L) = (pend L)(p := False)"
  by (auto simp: kinds_def pend_def release_def fun_eq_iff option.map_comp comp_def)

lemma kinds_dtor: "kinds (session_dtor p L) = (kinds L)(p := None)" "pend (session_dtor p L) = (pend L)(p := False)"
  by (auto simp: kinds_def pend_def session_dtor_def fun_eq_iff)

lemma kinds_upd [simp]:
  "kinds (L\<lparr>accept_pending := b\<rparr>) = kinds L" "kinds (L\<lparr>tasks := ts\<rparr>) = kinds L" "kinds (lst_on_stop L) = kinds L"
  "kinds (lst_fail ec what L) = kinds L" "kinds (detector_fail ec what L) = kinds L"
  "pend (L\<lparr>accept_pending := b\<rparr>) = pend L" "pend (L\<lparr>tasks := ts\<rparr>) = pend L" "pend (lst_on_stop L) = pend L"
  "pend (lst_fail ec what L) = pend L" "pend (detector_fail ec what L) = pend L"
  by (auto simp: kinds_def pend_def lst_on_stop_def lst_fail_def detector_fail_def fun_eq_iff)

lemma kinds_task:
  assumes "run_lst_task t L = Inr L'"
  shows "kinds L' = kinds L" "pend L' = pend L"
proof -
  have "kinds L' = kinds L \<and> pend L' = pend L"
    using assms
    by (cases t) (auto simp: stop_io_def kinds_def pend_def lst_do_stop_def fun_eq_iff split: option.splits if_splits)
  then show "kinds L' = kinds L" "pend L' = pend L" by blast+
qed

lemmas kinds_simps = kinds_ctor kinds_release kinds_dtor http_ctor_def ws_ctor_def detector_ctor_def

text \<open>
  The link between the components: the HTTP sessions are the sessions of the two HTTP kinds, the
  WebSocket sessions those of the two WebSocket kinds, an HTTP session is held exactly while it
  waits for an operation, and the users of the lounge are the WebSocket sessions.
\<close>

definition linked :: "net \<Rightarrow> bool" where
  "linked N \<longleftrightarrow>
     (\<forall>p. net_http N p \<noteq> None \<longleftrightarrow> kinds (net_lst N) p \<in> {Some K_http, Some K_https}) \<and>
     (\<forall>p. net_ws N p \<noteq> None \<longleftrightarrow> kinds (net_lst N) p \<in> {Some K_ws, Some K_wss}) \<and>
     (\<forall>p s. net_http N p = Some s \<longrightarrow>
        (pend (net_lst N) p \<longleftrightarrow> waiting s \<noteq> None) \<and> kinds (net_lst N) p = Some (if tls s then K_https else K_http)) \<and>
     dom (usrs (net_lounge N)) = dom (net_ws N)"

lemma linkedD:
  assumes "linked N"
  shows "net_http N p \<noteq> None \<longleftrightarrow> kinds (net_lst N) p \<in> {Some K_http, Some K_https}"
    "net_ws N p \<noteq> None \<longleftrightarrow> kinds (net_lst N) p \<in> {Some K_ws, Some K_wss}"
    "net_http N p = Some s \<Longrightarrow> pend (net_lst N) p \<longleftrightarrow> waiting s \<noteq> None"
    "net_http N p = Some s \<Longrightarrow> kinds (net_lst N) p = Some (if tls s then K_https else K_http)"
    "dom (usrs (net_lounge N)) = dom (net_ws N)"
  using assms unfolding linked_def by blast+

text \<open>A new session at a fresh address, and a session that goes.\<close>

lemma linked_detector:
  assumes "linked N" and "objs (net_lst N) p = None" and "kinds L = (kinds (net_lst N))(p \<mapsto> K_detector)"
    and "pend L = (pend (net_lst N))(p := True)"
  shows "linked (N\<lparr>net_lst := L\<rparr>)"
proof -
  have k: "kinds (net_lst N) p = None" using assms(2) by (simp add: kinds_None)
  then have "net_http N p = None" "net_ws N p = None" using linkedD(1,2) [OF assms(1), of p] by simp_all
  with assms k show ?thesis by (auto simp: linked_def)
qed

lemma launch_http_sel: "waiting (launch_http b st) = Some Op_run" "tls (launch_http b st) = b"
  by (simp_all add: launch_http_def run_https_session_def run_http_session_def ssl_run_def plain_run_def new_http_def)

lemma linked_http:
  assumes "linked N" and "objs (net_lst N) p' = None"
    and "kinds L = (kinds (net_lst N))(p' \<mapsto> (if b then K_https else K_http))"
    and "pend L = (pend (net_lst N))(p' := True)"
  shows "linked (N\<lparr>net_lst := L, net_http := (net_http N)(p' \<mapsto> launch_http b st)\<rparr>)"
proof -
  have k: "kinds (net_lst N) p' = None" using assms(2) by (simp add: kinds_None)
  then have "net_ws N p' = None" using linkedD(2) [OF assms(1), of p'] by simp
  with assms k show ?thesis by (auto simp: linked_def launch_http_sel)
qed

lemma linked_gone:
  assumes "linked N" and "dom (usrs w) = dom (usrs (net_lounge N)) - {p}"
  shows "linked (N\<lparr>net_lst := session_dtor p (net_lst N), net_http := (net_http N)(p := None),
    net_ws := (net_ws N)(p := None), net_lounge := w\<rparr>)"
  using assms by (auto simp: linked_def kinds_simps)

lemma linked_lst:
  assumes "linked N" and "kinds L = kinds (net_lst N)" and "pend L = pend (net_lst N)"
  shows "linked (N\<lparr>net_lst := L\<rparr>)"
  using assms by (simp add: linked_def)

lemma linked_lounge:
  assumes "linked N" and "dom (usrs w) = dom (usrs (net_lounge N))"
  shows "linked (N\<lparr>net_lounge := w\<rparr>)"
  using assms by (simp add: linked_def)


section \<open>Runs\<close>

text \<open>What a run of the whole shows of its parts.\<close>

definition net_ok :: "env \<Rightarrow> http_env \<Rightarrow> cptr \<Rightarrow> lst \<Rightarrow> lounge \<Rightarrow> net \<Rightarrow> bool" where
  "net_ok E H ct L0 w0 N \<longleftrightarrow>
     lst_reach L0 (net_lst N) \<and> lounge_reach E ct w0 (net_lounge N) \<and> linked N \<and>
     (\<forall>p s. net_http N p = Some s \<longrightarrow> (\<exists>t st es. http_reach H t st es s))"

lemma net_okD:
  assumes "net_ok E H ct L0 w0 N"
  shows "lst_reach L0 (net_lst N)" "lounge_reach E ct w0 (net_lounge N)" "linked N"
    "net_http N p = Some s \<Longrightarrow> \<exists>t st es. http_reach H t st es s"
  using assms unfolding net_ok_def by blast+

lemma launched: "\<exists>t st es. http_reach H t st es (launch_http b st0)"
  unfolding launch_http_def by (rule exI [of _ b], rule exI [of _ st0], rule exI, rule http_reach.created)

lemma accept_ok:
  assumes ok: "net_ok E H ct L0 w0 N" and a: "accept_pending (net_lst N)" and p: "objs (net_lst N) p = None"
  shows "net_ok E H ct L0 w0 (net_accept ec p N)"
proof -
  let ?L = "net_lst N"
  have r: "lst_reach L0 (lst_on_accept ec p (?L\<lparr>accept_pending := False\<rparr>))"
    by (rule lst_reach.accept [OF net_okD(1) [OF ok] a p])
  have l: "linked (net_accept ec p N)"
  proof (cases "ec = None \<and> acc_open ?L")
    case False
    then show ?thesis
      using linked_lst [OF net_okD(3) [OF ok], of "lst_on_accept ec p (?L\<lparr>accept_pending := False\<rparr>)"]
      by (auto simp: net_accept_def Let_def lst_on_accept_def split: option.splits)
  next
    case True
    then have acc: "lst_on_accept ec p (?L\<lparr>accept_pending := False\<rparr>) =
        (launch (lkind ?L) p (?L\<lparr>accept_pending := False\<rparr>))\<lparr>accept_pending := True\<rparr>" by (simp add: lst_on_accept_def)
    show ?thesis
    proof (cases "lkind ?L = Allow_tls")
      case allow: True
      then show ?thesis
        using linked_detector [OF net_okD(3) [OF ok] p] acc
        by (simp add: net_accept_def Let_def launch_def kinds_simps)
    next
      case False
      then show ?thesis
        using linked_http [OF net_okD(3) [OF ok] p, of _ "lkind ?L = Require_tls"] acc True
        by (cases "lkind ?L") (simp_all add: net_accept_def Let_def launch_def kinds_simps)
    qed
  qed
  have "\<exists>t st es. http_reach H t st es s" if "net_http (net_accept ec p N) q = Some s" for q s
    using that net_okD(4) [OF ok] launched
    by (auto simp: net_accept_def Let_def split: if_splits)
  with r l ok show ?thesis by (auto simp: net_ok_def net_accept_def Let_def)
qed

lemma detect_ok:
  assumes ok: "net_ok E H ct L0 w0 N" and p: "objs (net_lst N) p = Some x" "skind x = K_detector" "op_pending x"
    and p': "objs (net_lst N) p' = None"
  shows "net_ok E H ct L0 w0 (net_detect ec is_tls st p p' N)"
proof -
  have r: "lst_reach L0 (detector_resume ec is_tls p p' (net_lst N))"
    by (rule lst_reach.detect [OF net_okD(1) [OF ok] p p'])
  have nh: "net_http N p = None" using linkedD(1) [OF net_okD(3) [OF ok], of p] p by (simp add: kinds_def)
  have rel: "linked (N\<lparr>net_lst := release p L\<rparr>)" if "linked (N\<lparr>net_lst := L\<rparr>)" for L
    using that nh by (auto simp: linked_def kinds_simps)
  have "linked (net_detect ec is_tls st p p' N)"
  proof (cases ec)
    case None
    from linked_http [OF net_okD(3) [OF ok] p', of "http_ctor p' is_tls (net_lst N)" is_tls st] p p' nh
    show ?thesis by (auto simp: None net_detect_def detector_resume_def kinds_simps linked_def)
  next
    case (Some e)
    have "linked (N\<lparr>net_lst := detector_fail e ''async_detect_ssl'' (net_lst N)\<rparr>)"
      by (rule linked_lst [OF net_okD(3) [OF ok]]) simp_all
    from rel [OF this] show ?thesis by (simp add: Some net_detect_def detector_resume_def)
  qed
  with r ok launched show ?thesis by (auto simp: net_ok_def net_detect_def)
qed


lemma deliver_sel:
  "tls (deliver H e s) = tls s"
  "upgraded (deliver H e (s\<lparr>waiting := None\<rparr>)) \<noteq> upgraded s \<Longrightarrow> waiting (deliver H e (s\<lparr>waiting := None\<rparr>)) = None"
  by (cases e; auto simp: session_defs split: option.splits sum.splits if_splits)+

lemma http_upgrade_ok:
  assumes ok: "net_ok E H ct L0 w0 N" and s: "net_http N p = Some s"
    and x: "objs (net_lst N) p = Some x" "op_pending x" "skind x = (if tls s then K_https else K_http)"
    and p': "objs (net_lst N) p' = None"
    and up: "upgraded (deliver H e (s\<lparr>waiting := None\<rparr>)) \<noteq> upgraded s"
  shows "lst_reach L0 (ws_upgrade p p' (if tls s then K_https else K_http) (net_lst N))"
    "lounge_reach E ct w0 ((net_lounge N)\<lparr>usrs := (usrs (net_lounge N))(p' \<mapsto> new_user)\<rparr>)"
    "linked (net_http_event H e p s p' N)"
proof -
  note lk = linkedD [OF net_okD(3) [OF ok]]
  have k: "kinds (net_lst N) p' = None" "p \<noteq> p'" using p' x(1) by (auto simp: kinds_None)
  then have n: "net_http N p' = None" "net_ws N p' = None" "usrs (net_lounge N) p' = None"
    using lk(1,2) [of p'] lk(5) by auto
  show "lst_reach L0 (ws_upgrade p p' (if tls s then K_https else K_http) (net_lst N))"
    using lst_reach.upgrade [OF net_okD(1) [OF ok] x(1) _ x(2) p'] x(3) by (auto split: if_splits)
  show "lounge_reach E ct w0 ((net_lounge N)\<lparr>usrs := (usrs (net_lounge N))(p' \<mapsto> new_user)\<rparr>)"
    unfolding new_user_def by (rule lounge_reach.connect [OF net_okD(2) [OF ok] n(3)])
  show "linked (net_http_event H e p s p' N)"
    using net_okD(3) [OF ok] up deliver_sel(2) [OF up] k n s
    by (auto simp: linked_def net_http_event_def Let_def ws_upgrade_def kinds_simps deliver_sel(1))
qed

lemma http_event_ok:
  assumes ok: "net_ok E H ct L0 w0 N" and s: "net_http N p = Some s" "waiting s = Some (event_op e)"
    and p': "objs (net_lst N) p' = None"
  shows "net_ok E H ct L0 w0 (net_http_event H e p s p' N)"
proof -
  let ?s = "deliver H e (s\<lparr>waiting := None\<rparr>)"
  from linkedD(3,4) [OF net_okD(3) [OF ok] s(1)] s(2) obtain x where x: "objs (net_lst N) p = Some x" "op_pending x"
    "skind x = (if tls s then K_https else K_http)" by (auto simp: pend_def kinds_def)
  have "\<exists>t st es. http_reach H t st es ?s"
    using net_okD(4) [OF ok s(1)] http_reach.completes [OF _ s(2)] by blast
  then have h: "\<exists>t st es. http_reach H t st es v" if "((net_http N)(p \<mapsto> ?s)) q = Some v" for q v
    using that net_okD(4) [OF ok] by (auto split: if_splits)
  show ?thesis
  proof (cases "upgraded ?s = upgraded s")
    case False
    from http_upgrade_ok [OF ok s(1) x p' False] False h show ?thesis by (simp add: net_ok_def net_http_event_def Let_def)
  next
    case True
    have "linked (net_http_event H e p s p' N)"
      using net_okD(3) [OF ok] s True
      by (auto simp: linked_def net_http_event_def Let_def kinds_simps deliver_sel(1))
    moreover have "lst_reach L0 (release p (net_lst N))" by (rule lst_reach.finish [OF net_okD(1) [OF ok] x(1,2)])
    ultimately show ?thesis using True h ok by (auto simp: net_ok_def net_http_event_def Let_def)
  qed
qed

lemma ws_event_lounge:
  assumes "net_ws_event E parse p ec bytes s N = Inr N'"
  shows "\<exists>s' w'. N' = N\<lparr>net_ws := (net_ws N)(p \<mapsto> s'), net_lounge := w'\<rparr> \<and>
    (w' = net_lounge N \<or> (\<exists>jv. handle_json E p jv (net_lounge N) = (Inr (), w')))"
proof -
  from assms obtain s' w' where r: "ws_resume E parse p ec bytes s (net_lounge N) = (Inr (), s', w')"
    "N' = N\<lparr>net_ws := (net_ws N)(p \<mapsto> s'), net_lounge := w'\<rparr>"
    by (auto simp: net_ws_event_def split: prod.splits sum.splits)
  then have "w' = net_lounge N \<or> (\<exists>jv. handle_json E p jv (net_lounge N) = (Inr (), w'))"
    by (auto simp: ws_resume_def Let_def split: coro.splits option.splits prod.splits sum.splits)
  with r(2) show ?thesis by blast
qed

lemma ws_event_ok:
  assumes ok: "net_ok E H ct L0 w0 N" and s: "net_ws N p = Some s" and N': "net_ws_event E parse p ec bytes s N = Inr N'"
  shows "net_ok E H ct L0 w0 N'"
proof -
  have u: "p \<in> dom (usrs (net_lounge N))" using linkedD(5) [OF net_okD(3) [OF ok]] s by auto
  from ws_event_lounge [OF N'] obtain s' w' where
    r: "N' = N\<lparr>net_ws := (net_ws N)(p \<mapsto> s'), net_lounge := w'\<rparr>"
      "w' = net_lounge N \<or> (\<exists>jv. handle_json E p jv (net_lounge N) = (Inr (), w'))" by blast
  from r(2) have w: "lounge_reach E ct w0 w' \<and> dom (usrs w') = dom (usrs (net_lounge N))"
  proof (elim disjE exE)
    fix jv assume j: "handle_json E p jv (net_lounge N) = (Inr (), w')"
    show ?thesis using lounge_reach.request [OF net_okD(2) [OF ok] u j] handle_json_users [of E p jv "net_lounge N"] j by simp
  qed (use net_okD(2) [OF ok] in simp)
  moreover have "linked N'" using net_okD(3) [OF ok] w s by (auto simp: linked_def r(1))
  ultimately show ?thesis using ok by (auto simp: net_ok_def r(1))
qed

lemma destroy_net_ok:
  assumes ok: "net_ok E H ct L0 w0 N" and b: "lounge_ok st0 w0"
    and p: "objs (net_lst N) p = Some x" "\<not> held p (net_lst N)" "\<forall>t \<in> set (table_q (net_lounge N)). p \<notin> task_refs t"
    and d: "net_destroy E p N = Some (Inr (), N')"
  shows "net_ok E H ct L0 w0 N'"
proof -
  let ?L = "net_lst N"
  have "session_dtor p (?L\<lparr>objs := (objs ?L)(p \<mapsto> x\<lparr>lockable := False\<rparr>)\<rparr>) = session_dtor p ?L"
    by (simp add: session_dtor_def lst_erase_def)
  then have r: "lst_reach L0 (session_dtor p ?L)"
    using lst_reach.destroy [OF lst_reach.expire [OF net_okD(1) [OF ok] p(1,2)], of p "x\<lparr>lockable := False\<rparr>"] by simp
  have h: "\<exists>t st es. http_reach H t st es v" if "((net_http N)(p := None)) q = Some v" for q v
    using that net_okD(4) [OF ok] by (auto split: if_splits)
  show ?thesis
  proof (cases "net_ws N p")
    case None
    then have u: "dom (usrs (net_lounge N)) = dom (usrs (net_lounge N)) - {p}" "(net_ws N)(p := None) = net_ws N"
      using linkedD(5) [OF net_okD(3) [OF ok]] by auto
    have N': "N' = N\<lparr>net_lst := session_dtor p ?L, net_http := (net_http N)(p := None)\<rparr>"
      using d None by (simp add: net_destroy_def)
    have "linked N'" using linked_gone [OF net_okD(3) [OF ok] u(1)] by (simp add: N' u(2))
    with r h ok show ?thesis by (simp add: net_ok_def N')
  next
    case (Some s)
    then obtain y where y: "usrs (net_lounge N) p = Some y" using linkedD(5) [OF net_okD(3) [OF ok]] by auto
    from destroy_ok [OF reach_ok [OF net_okD(2) [OF ok] b] y p(3), of E] obtain w' where
      w': "user_destroy virt_on_erase E p (net_lounge N) = Some (Inr (), w')" "usrs w' = (usrs (net_lounge N))(p := None)" by blast
    have "lounge_reach E ct w0 w'" by (rule lounge_reach.disconnect [OF net_okD(2) [OF ok] y p(3) w'(1)])
    with linked_gone [OF net_okD(3) [OF ok], of w' p] d Some w' r h show ?thesis
      by (auto simp: net_ok_def net_destroy_def Let_def)
  qed
qed


lemma stopped_reach: "\<exists>t st es. http_reach H t st es s \<Longrightarrow> \<exists>t st es. http_reach H t st es (http_do_stop s)"
  by (blast intro: http_reach.stopped)

lemma task_ok:
  assumes ok: "net_ok E H ct L0 w0 N" and t: "t \<in> set (tasks (net_lst N))" and N': "net_task t N = Inr N'"
  shows "net_ok E H ct L0 w0 N'"
proof -
  from N' obtain L where L: "run_lst_task t ((net_lst N)\<lparr>tasks := remove1 t (tasks (net_lst N))\<rparr>) = Inr L"
    "N' = N\<lparr>net_lst := L, net_http := (case t of T_session_stop p \<Rightarrow> (net_http N)(p := map_option http_do_stop (net_http N p))
       | _ \<Rightarrow> net_http N)\<rparr>" by (auto simp: net_task_def split: sum.splits)
  have r: "lst_reach L0 L" by (rule lst_reach.task [OF net_okD(1) [OF ok] t L(1)])
  have k: "kinds L = kinds (net_lst N)" "pend L = pend (net_lst N)" using kinds_task [OF L(1)] by simp_all
  have st: "waiting (http_do_stop s) = waiting s" "tls (http_do_stop s) = tls s" for s by (simp_all add: http_do_stop_def)
  have "linked N'"
    using net_okD(3) [OF ok] by (cases t) (auto simp: linked_def L(2) k st)
  moreover have "\<exists>t st es. http_reach H t st es s" if "net_http N' q = Some s" for q s
    using that net_okD(4) [OF ok] stopped_reach by (cases t) (auto simp: L(2) split: if_splits)
  ultimately show ?thesis using r ok by (simp add: net_ok_def L(2))
qed

lemma lounge_step_ok:
  assumes ok: "net_ok E H ct L0 w0 N" and "lounge_reach E ct w0 w" and "dom (usrs w) = dom (usrs (net_lounge N))"
  shows "net_ok E H ct L0 w0 (N\<lparr>net_lounge := w\<rparr>)"
  using assms linked_lounge [OF net_okD(3) [OF ok] assms(3)] by (simp add: net_ok_def)

lemma net_step_ok:
  assumes "net_step E H parse ct N N'" and ok: "net_ok E H ct L0 w0 N" and b: "lounge_ok st0 w0"
  shows "net_ok E H ct L0 w0 N'"
  using assms(1)
proof cases
  case (net_ws_ends p s x)
  have "net_http N p = None"
    using linkedD(1,2) [OF net_okD(3) [OF ok], of p] net_ws_ends(2) by auto
  then have "linked (N\<lparr>net_lst := release p (net_lst N)\<rparr>)"
    using net_okD(3) [OF ok] by (auto simp: linked_def kinds_simps)
  with ok lst_reach.finish [OF net_okD(1) [OF ok] net_ws_ends(4,5)] show ?thesis by (simp add: net_ok_def net_ws_ends(1))
next
  case net_stops
  have "linked (N\<lparr>net_lst := lst_on_stop (net_lst N)\<rparr>)" by (rule linked_lst [OF net_okD(3) [OF ok]]) simp_all
  with ok lst_reach.stop [OF net_okD(1) [OF ok]] show ?thesis by (simp add: net_ok_def net_stops)
next
  case (net_table t q w')
  show ?thesis
    using lounge_reach.table [OF net_okD(2) [OF ok] net_table(2,3)] net_table(3)
      table_task_users [of E ct t "(net_lounge N)\<lparr>table_q := q\<rparr>"]
    unfolding net_table(1) by (intro lounge_step_ok [OF ok]) simp_all
next
  case (net_server t q t0 t1 t2 w')
  show ?thesis
    using lounge_reach.server [OF net_okD(2) [OF ok] net_server(2,3)] net_server(3)
      srv_task_users [of E t t0 t1 t2 "(net_lounge N)\<lparr>srv := (srv (net_lounge N))\<lparr>srv_q := q\<rparr>\<rparr>"]
    unfolding net_server(1) by (intro lounge_step_ok [OF ok]) simp_all
next
  case net_timer
  show ?thesis unfolding net_timer(1)
    by (rule lounge_step_ok [OF ok lounge_reach.timer [OF net_okD(2) [OF ok] net_timer(2)]]) simp
next
  case (net_signal n)
  show ?thesis unfolding net_signal(1)
    by (rule lounge_step_ok [OF ok lounge_reach.signal [OF net_okD(2) [OF ok] net_signal(2)]]) simp
qed (use ok b in \<open>auto intro: accept_ok detect_ok http_event_ok ws_event_ok task_ok destroy_net_ok\<close>)

lemma net_reach_ok:
  assumes "net_reach E H parse ct N0 N" and "net_ok E H ct L0 w0 N0" and "lounge_ok st0 w0"
  shows "net_ok E H ct L0 w0 N"
  using assms by (induction rule: net_reach.induct) (auto intro: net_step_ok)

section \<open>Properties\<close>

text \<open>A started listener in front of a started lounge.\<close>

definition net_boot :: "lst \<Rightarrow> lounge \<Rightarrow> net" where
  "net_boot L w = \<lparr>net_lst = lst_on_start L, net_http = Map.empty, net_ws = Map.empty, net_lounge = w\<rparr>"

lemma net_boot_ok:
  assumes "distinct [cr, cs, ct]" and "server_boot cr cs ct mem (boot_world g0 rnd) = (Inr (), w0)"
    and "run_listener cfg e1 e2 e3 e4 = Inr (b, L0)"
  shows "net_ok E H ct (lst_on_start L0) w0 (net_boot L0 w0)" "lounge_ok (static w0) w0" "lst_ok (lst_on_start L0)"
proof -
  from boot_ok [OF assms(1), of mem g0 rnd] assms(2)
  have w0: "lounge_ok (static w0) w0" "usrs w0 = Map.empty" by auto
  note L0 = started_ok [OF assms(3)]
  have "linked (net_boot L0 w0)"
    using L0(4) w0(2) by (simp add: linked_def net_boot_def kinds_def lst_on_start_def)
  then show "net_ok E H ct (lst_on_start L0) w0 (net_boot L0 w0)"
    by (simp add: net_ok_def net_boot_def lst_reach.opened lounge_reach.boot)
  show "lounge_ok (static w0) w0" "lst_ok (lst_on_start L0)" using w0(1) L0(1) .
qed

text \<open>
  C3: the users of the lounge are its WebSocket connections. In every state that a listener, its
  sessions and the lounge reach together, the listener and the lounge are each in a state they
  reach by themselves; the users are exactly the WebSocket sessions the listener launched and that
  are not destroyed yet; as long as the listener accepts, each of them is in its set of sessions,
  so that stopping the listener posts a stop to every user whose session has not expired; and every
  HTTP session is in a state that it reaches by itself.
\<close>

theorem users_are_connections:
  assumes "distinct [cr, cs, ct]" and "server_boot cr cs ct mem (boot_world g0 rnd) = (Inr (), w0)"
    and "run_listener cfg e1 e2 e3 e4 = Inr (b, L0)" and "net_reach E H parse ct (net_boot L0 w0) N"
  shows "lst_reach (lst_on_start L0) (net_lst N) \<and> lounge_reach E ct w0 (net_lounge N) \<and>
    dom (usrs (net_lounge N)) = {p. \<exists>x. objs (net_lst N) p = Some x \<and> skind x \<in> {K_ws, K_wss}} \<and>
    (acc_open (net_lst N) \<longrightarrow> dom (usrs (net_lounge N)) \<subseteq> set (lst_sessions (net_lst N)) \<and>
       (\<forall>u x. usrs (net_lounge N) u \<noteq> None \<and> objs (net_lst N) u = Some x \<and> lockable x \<longrightarrow>
          T_session_stop u \<in> set (tasks (lst_do_stop (net_lst N))))) \<and>
    (\<forall>p s. net_http N p = Some s \<longrightarrow> (\<exists>t st es. http_reach H t st es s))"
proof -
  note boot = net_boot_ok [OF assms(1-3)]
  from net_reach_ok [OF assms(4) boot(1,2)] have ok: "net_ok E H ct (lst_on_start L0) w0 N" .
  have l: "lst_ok (net_lst N)" by (rule lst_reach_ok [OF net_okD(1) [OF ok] boot(3)])
  note lk = linkedD [OF net_okD(3) [OF ok]]
  have u: "dom (usrs (net_lounge N)) = {p. \<exists>x. objs (net_lst N) p = Some x \<and> skind x \<in> {K_ws, K_wss}}"
  proof (rule set_eqI)
    fix p show "p \<in> dom (usrs (net_lounge N)) \<longleftrightarrow> p \<in> {p. \<exists>x. objs (net_lst N) p = Some x \<and> skind x \<in> {K_ws, K_wss}}"
      using lk(2) [of p] unfolding lk(5) kinds_def by auto
  qed
  have "T_session_stop v \<in> set (tasks (lst_do_stop (net_lst N)))"
    if "acc_open (net_lst N)" "usrs (net_lounge N) v \<noteq> None" "objs (net_lst N) v = Some x" "lockable x" for v x
  proof -
    have "v \<in> dom (usrs (net_lounge N))" using that(2) by auto
    then have "skind x \<in> {K_ws, K_wss}" unfolding u using that(3) by simp
    then have "session_on_stop v (skind x) = T_session_stop v" by (auto simp: session_on_stop_eq)
    with stop_calls_exact [OF l that(1)] that(3,4) have "T_session_stop v \<in> set (stop_calls (net_lst N))" by force
    then show ?thesis by (simp add: lst_do_stop_def)
  qed
  moreover have "dom (usrs (net_lounge N)) \<subseteq> set (lst_sessions (net_lst N))" if "acc_open (net_lst N)"
    using l that u by (auto simp: lst_ok_def)
  ultimately show ?thesis using net_okD [OF ok] u by blast
qed


text \<open>
  A run: a connection is accepted by a detector at address 8, which finds no TLS and launches an
  HTTP session at 9; the session starts, reads a request for an upgrade and hands over to a
  WebSocket session at 10.
\<close>

definition ask_upgrade :: http_request where
  "ask_upgrade = \<lparr>req_method = Get, target = ''/'', req_version = 11, req_keep_alive = True, upgrade = True\<rparr>"

definition sample_det :: sess_obj where
  "sample_det = \<lparr>skind = K_detector, op_pending = True, lockable = True, io_stopped = False\<rparr>"

definition sample_net0 :: net where
  "sample_net0 = net_boot (make_listener sample_cfg\<lparr>acc_open := True\<rparr>) sample_boot"

definition sample_net1 :: net where
  "sample_net1 = net_accept None 8 sample_net0"

definition sample_net2 :: net where
  "sample_net2 = net_detect None False [] 8 9 sample_net1"

definition sample_net3 :: net where
  "sample_net3 = net_http_event sample_http Ev_run 9 (run_http_session []) 10 sample_net2"

definition sample_net4 :: net where
  "sample_net4 = net_http_event sample_http (Ev_read (Inr ask_upgrade)) 9 (http_start ((run_http_session [])\<lparr>waiting := None\<rparr>)) 10 sample_net3"

lemmas objs_code = release_def http_ctor_def ws_ctor_def detector_ctor_def session_ctor_def sample_det_def

lemma sample_net0_sel:
  "objs (net_lst sample_net0) = Map.empty" "accept_pending (net_lst sample_net0)" "acc_open (net_lst sample_net0)"
  "lkind (net_lst sample_net0) = Allow_tls" "net_http sample_net0 = Map.empty"
  by (simp_all add: sample_net0_def net_boot_def lst_on_start_def make_listener_def)

lemma sample_net1_sel: "objs (net_lst sample_net1) = [8 \<mapsto> sample_det]" "net_http sample_net1 = Map.empty"
  using sample_net0_sel by (simp_all add: sample_net1_def net_accept_def Let_def lst_on_accept_def launch_def objs_code)

lemma sample_net2_sel:
  "objs (net_lst sample_net2) = [8 \<mapsto> sample_det\<lparr>op_pending := False\<rparr>, 9 \<mapsto> sample_det\<lparr>skind := K_http\<rparr>]"
  "net_http sample_net2 = [9 \<mapsto> run_http_session []]"
  using sample_net1_sel by (auto simp: sample_net2_def net_detect_def detector_resume_def launch_http_def objs_code)

lemma http_start_sel:
  "waiting (http_start s) = Some Op_read" "upgraded (http_start s) = upgraded s"
  "waiting (run_http_session st) = Some Op_run" "tls (http_start s) = tls s" "\<not> tls (run_http_session st)"
  by (simp_all add: http_start_def expires_after_def run_http_session_def plain_run_def new_http_def)

lemma sample_net3_sel:
  "net_lst sample_net3 = net_lst sample_net2"
  "net_http sample_net3 = [9 \<mapsto> http_start ((run_http_session [])\<lparr>waiting := None\<rparr>)]"
  using sample_net2_sel(2) by (simp_all add: sample_net3_def net_http_event_def Let_def http_start_sel)

lemma sample_net4_parts:
  "net_lst sample_net4 = ws_upgrade 9 10 K_http (net_lst sample_net2)"
  "net_ws sample_net4 = (net_ws sample_net3)(10 \<mapsto> new_reader)"
  "sent (net_lounge sample_net4) = sent (net_lounge sample_net3)"
proof -
  let ?s = "http_start ((run_http_session [])\<lparr>waiting := None\<rparr>)"
  have "upgraded (deliver sample_http (Ev_read (Inr ask_upgrade)) (?s\<lparr>waiting := None\<rparr>)) \<noteq> upgraded ?s"
    by (simp add: http_on_read_def ask_upgrade_def expires_never_def)
  then show "net_lst sample_net4 = ws_upgrade 9 10 K_http (net_lst sample_net2)"
    "net_ws sample_net4 = (net_ws sample_net3)(10 \<mapsto> new_reader)"
    "sent (net_lounge sample_net4) = sent (net_lounge sample_net3)"
    by (simp_all add: sample_net4_def net_http_event_def Let_def sample_net3_sel(1) http_start_sel del: deliver.simps)
qed

lemma sample_net4_sel:
  "objs (net_lst sample_net4) = [8 \<mapsto> sample_det\<lparr>op_pending := False\<rparr>, 9 \<mapsto> sample_det\<lparr>skind := K_http, op_pending := False\<rparr>,
     10 \<mapsto> sample_det\<lparr>skind := K_ws\<rparr>]"
  using sample_net2_sel(1) by (auto simp: sample_net4_parts(1) ws_upgrade_def objs_code)

text \<open>The four steps.\<close>

lemma sample_net_steps:
  "net_step E sample_http parse ct sample_net0 sample_net1" "net_step E sample_http parse ct sample_net1 sample_net2"
  "net_step E sample_http parse ct sample_net2 sample_net3" "net_step E sample_http parse ct sample_net3 sample_net4"
proof -
  show "net_step E sample_http parse ct sample_net0 sample_net1"
    unfolding sample_net1_def by (rule net_accepts) (simp_all add: sample_net0_sel)
  show "net_step E sample_http parse ct sample_net1 sample_net2"
    unfolding sample_net2_def by (rule net_detects [where x = sample_det]) (simp_all add: sample_net1_sel sample_det_def)
  show "net_step E sample_http parse ct sample_net2 sample_net3"
    unfolding sample_net3_def by (rule net_http_step) (simp_all add: sample_net2_sel http_start_sel)
  show "net_step E sample_http parse ct sample_net3 sample_net4"
    unfolding sample_net4_def by (rule net_http_step) (simp_all add: sample_net3_sel sample_net2_sel http_start_sel)
qed

lemma sample_net_reach: "net_reach E sample_http parse 60 sample_net0 sample_net4"
  by (intro net_next [OF _ sample_net_steps(4)] net_next [OF _ sample_net_steps(3)] net_next [OF _ sample_net_steps(2)]
      net_next [OF net_start sample_net_steps(1)])

theorem users_are_connections_witness: "dom (usrs (net_lounge sample_net4)) = {10}"
proof -
  have "skind x \<in> {K_ws, K_wss} \<longleftrightarrow> p = 10" if "objs (net_lst sample_net4) p = Some x" for p x
    using that by (auto simp: sample_net4_sel sample_det_def split: if_splits)
  moreover have "\<exists>x. objs (net_lst sample_net4) 10 = Some x" by (simp add: sample_net4_sel)
  ultimately show ?thesis
    using users_are_connections [OF _ sample_boot_eq sample_listener, folded sample_net0_def,
        OF _ sample_net_reach] by auto
qed

end
