(* ===== verification/Delivery.thy ===== *)
theory Delivery
  imports Network Protocol "HOL-Library.Sublist"
begin

text \<open>
  What the lounge sends and what goes out: the lounge hands messages to its users, each user is a
  WebSocket session with a queue of its own (\<^verbatim>\<open>send\<close>, \<^verbatim>\<open>do_send\<close>, \<^verbatim>\<open>on_write\<close> of
  \<^verbatim>\<open>server/core/ws_user.cpp\<close>), and the calls of \<^verbatim>\<open>do_send\<close> run on the strand of that session at some
  later time. The steps of the network are those of the theory before, with the connections beside them.
\<close>

section \<open>What is sent stays sent\<close>

definition has_sent :: "(uptr \<times> message) list \<Rightarrow> 'a world_scheme \<Rightarrow> bool" where
  "has_sent ms w \<longleftrightarrow> prefix ms (sent w)"

lemma has_sent_closed [simp]: "sent_closed (has_sent ms)"
  by (auto simp: sent_closed_def has_sent_def)

lemma has_sent_upd [simp]:
  "has_sent ms (w\<lparr>chans := cs\<rparr>) = has_sent ms w" "has_sent ms (w\<lparr>usrs := us\<rparr>) = has_sent ms w"
  "has_sent ms (w'\<lparr>srv := x\<rparr>) = has_sent ms w'" "has_sent ms (v\<lparr>table_g := g\<rparr>) = has_sent ms v"
  "has_sent ms (v\<lparr>table_q := q\<rparr>) = has_sent ms v" "has_sent ms (v\<lparr>table_rnd := n\<rparr>) = has_sent ms v"
  by (simp_all add: has_sent_def)

interpretation sent_req: request_frame "has_sent ms" u
  by unfold_locales simp_all

interpretation sent_table: table_frame "has_sent ms"
  by unfold_locales simp_all

lemma destroy_sent:
  assumes "user_destroy virt_on_erase E u w = Some (r, w')"
  shows "prefix (sent w) (sent w')"
proof -
  have "has_sent (sent w) w'"
  proof (cases "usrs w u")
    case None
    with assms show ?thesis by (simp add: user_destroy_def has_sent_def)
  next
    case (Some x)
    let ?w = "w\<lparr>usrs := (usrs w)(u \<mapsto> x\<lparr>ualive := False\<rparr>)\<rparr>"
    from assms Some obtain r1 w1 where w1: "user_dtor_loop virt_on_erase E u ?w = Some (r1, w1)" "sent w' = sent w1"
      by (auto simp: user_destroy_def split: option.splits prod.splits sum.splits)
    have "has_sent (sent w) ?w" by (simp add: has_sent_def)
    from sent_req.era.Q_dtor_loop [OF w1(1) this] show ?thesis by (simp add: has_sent_def w1(2))
  qed
  then show ?thesis by (simp add: has_sent_def)
qed

lemma request_sent: "prefix (sent w) (sent (snd (handle_json E u jv w)))"
  using keepsD [OF sent_req.request, of "sent w" w] by (simp add: has_sent_def)

lemma table_task_sent: "prefix (sent w) (sent (snd (run_table_task E c t w)))"
  using keepsD [OF sent_table.keeps_task, of "sent w" w] by (simp add: has_sent_def)

lemma srv_task_sent: "prefix (sent w) (sent (snd (run_srv_task E t t0 t1 t2 w)))" for w :: "'a lounge_scheme"
proof -
  have "keeps (has_sent (sent w)) (run_srv_task E t t0 t1 t2 :: ('a lounge_scheme, unit) act)"
    by (rule keeps_srv_task) simp_all
  from keepsD [OF this, of w] show ?thesis by (simp add: has_sent_def)
qed

lemma net_step_sent:
  assumes "net_step E H parse ct N N'"
  shows "prefix (sent (net_lounge N)) (sent (net_lounge N'))"
  using assms
proof cases
  case (net_ws_step p s ec bytes)
  from ws_event_lounge [OF this(2)] show ?thesis
    using request_sent [of "net_lounge N" E p] by (auto, metis snd_conv)
next
  case (net_destroys p x)
  then show ?thesis by (auto simp: net_destroy_def Let_def split: if_splits option.splits dest: destroy_sent)
next
  case (net_table t q w')
  with table_task_sent [of "(net_lounge N)\<lparr>table_q := q\<rparr>" E ct t] show ?thesis by simp
next
  case (net_server t q t0 t1 t2 w')
  with srv_task_sent [of "(net_lounge N)\<lparr>srv := (srv (net_lounge N))\<lparr>srv_q := q\<rparr>\<rparr>" E t t0 t1 t2] show ?thesis by simp
qed (auto simp: net_accept_def net_detect_def net_http_event_def net_task_def Let_def split: sum.splits)

section \<open>Connections\<close>

text \<open>
  A connection: the queue of the session, the messages whose call of \<^verbatim>\<open>do_send\<close> has not run yet, and the
  number of messages the lounge had sent in all when the session was made.
\<close>

record conn =
  cqueue :: ws_queue
  cposted :: "message list"
  cbase :: nat

record dnet =
  dnet :: net
  conns :: "sptr \<rightharpoonup> conn"

definition sent_to :: "uptr \<Rightarrow> (uptr \<times> message) list \<Rightarrow> message list" where
  "sent_to u ms = map snd (filter (\<lambda>x. fst x = u) ms)"

definition new_conn :: "nat \<Rightarrow> conn" where
  "new_conn n = \<lparr>cqueue = new_queue, cposted = [], cbase = n\<rparr>"

definition closed_at :: "sptr \<Rightarrow> lst \<Rightarrow> bool" where
  "closed_at p L \<longleftrightarrow> (case objs L p of None \<Rightarrow> False | Some x \<Rightarrow> io_stopped x)"

text \<open>
  The connections after a step of the network from \<open>N\<close> to \<open>N'\<close>: a session that is new has an empty
  queue, what the lounge has sent to a user is posted to its strand, and a session that was told to stop
  has closed its socket.
\<close>

definition sync :: "net \<Rightarrow> net \<Rightarrow> (sptr \<rightharpoonup> conn) \<Rightarrow> sptr \<rightharpoonup> conn" where
  "sync N N' C p =
     (if net_ws N' p = None then None
      else
        (let n = length (sent (net_lounge N));
             c = (case C p of None \<Rightarrow> new_conn n | Some c \<Rightarrow> c)
         in Some (c\<lparr>cposted := cposted c @ sent_to p (drop n (sent (net_lounge N'))),
                    cqueue := (if closed_at p (net_lst N') then ws_do_stop (cqueue c) else cqueue c)\<rparr>)))"

text \<open>
  A posted call and an outstanding write each hold the session, so that it is not destroyed before they
  are done. The strand runs a posted call at any time: \<^verbatim>\<open>net::dispatch\<close> runs the call at once when it is
  made on the strand, which lets it overtake calls that were posted before. The transport may close the
  socket at any time.
\<close>

inductive deliv_step :: "env \<Rightarrow> http_env \<Rightarrow> (string \<Rightarrow> json option) \<Rightarrow> cptr \<Rightarrow> dnet \<Rightarrow> dnet \<Rightarrow> bool" for E H parse ct D where
  d_net: "net_step E H parse ct (dnet D) N' \<Longrightarrow>
    \<forall>p c. conns D p = Some c \<and> net_ws N' p = None \<longrightarrow> cposted c = [] \<and> pending (cqueue c) = None \<Longrightarrow>
    deliv_step E H parse ct D \<lparr>dnet = N', conns = sync (dnet D) N' (conns D)\<rparr>"
| d_send: "conns D p = Some c \<Longrightarrow> m \<in> set (cposted c) \<Longrightarrow> ws_do_send m (cqueue c) = Inr q \<Longrightarrow>
    deliv_step E H parse ct D (D\<lparr>conns := (conns D)(p \<mapsto> c\<lparr>cposted := remove1 m (cposted c), cqueue := q\<rparr>)\<rparr>)"
| d_done: "conns D p = Some c \<Longrightarrow> ws_write_done (cqueue c) = Inr q \<Longrightarrow>
    deliv_step E H parse ct D (D\<lparr>conns := (conns D)(p \<mapsto> c\<lparr>cqueue := q\<rparr>)\<rparr>)"
| d_fails: "conns D p = Some c \<Longrightarrow> ws_write_failed (cqueue c) = Inr q \<Longrightarrow>
    deliv_step E H parse ct D (D\<lparr>conns := (conns D)(p \<mapsto> c\<lparr>cqueue := q\<rparr>)\<rparr>)"
| d_closes: "conns D p = Some c \<Longrightarrow>
    deliv_step E H parse ct D (D\<lparr>conns := (conns D)(p \<mapsto> c\<lparr>cqueue := ws_do_stop (cqueue c)\<rparr>)\<rparr>)"

inductive deliv_reach :: "env \<Rightarrow> http_env \<Rightarrow> (string \<Rightarrow> json option) \<Rightarrow> cptr \<Rightarrow> dnet \<Rightarrow> dnet \<Rightarrow> bool" for E H parse ct D0 where
  d_start: "deliv_reach E H parse ct D0 D0"
| d_next: "deliv_reach E H parse ct D0 D \<Longrightarrow> deliv_step E H parse ct D D' \<Longrightarrow> deliv_reach E H parse ct D0 D'"

section \<open>Conservation\<close>

text \<open>What the session at \<open>p\<close> was sent, and what a connection may have made of it.\<close>

definition owed :: "dnet \<Rightarrow> sptr \<Rightarrow> conn \<Rightarrow> message list" where
  "owed D p c = sent_to p (drop (cbase c) (sent (net_lounge (dnet D))))"

definition accounted :: "message list \<Rightarrow> conn \<Rightarrow> bool" where
  "accounted ms c \<longleftrightarrow>
     None \<notin> set ms \<longrightarrow>
       queue_safe (cqueue c) \<and> held_messages (cqueue c) + mset (cposted c) \<subseteq># mset ms \<and>
       (ws_open (cqueue c) \<longrightarrow> held_messages (cqueue c) + mset (cposted c) = mset ms)"

definition deliv_ok :: "dnet \<Rightarrow> bool" where
  "deliv_ok D \<longleftrightarrow>
     dom (conns D) = dom (net_ws (dnet D)) \<and>
     (\<forall>p c. conns D p = Some c \<longrightarrow> cbase c \<le> length (sent (net_lounge (dnet D))) \<and> accounted (owed D p c) c)"

lemma deliv_okD:
  assumes "deliv_ok D" and "conns D p = Some c"
  shows "cbase c \<le> length (sent (net_lounge (dnet D)))" "accounted (owed D p c) c"
  using assms by (simp_all add: deliv_ok_def)

lemma sent_to_simps [simp]: "sent_to u [] = []" "sent_to u (ms @ ns) = sent_to u ms @ sent_to u ns"
  by (simp_all add: sent_to_def)

lemma accounted_new: "accounted [] (new_conn n)"
  by (simp add: accounted_def new_conn_def new_queue_def queue_safe_def queue_ok_def held_messages_def)

lemma accounted_post: "accounted ms c \<Longrightarrow> accounted (ms @ ns) (c\<lparr>cposted := cposted c @ ns\<rparr>)"
  by (auto simp: accounted_def add.assoc [symmetric])

lemma accounted_stop: "accounted ms c \<Longrightarrow> accounted ms (c\<lparr>cqueue := ws_do_stop (cqueue c)\<rparr>)"
  by (simp add: accounted_def stop_safe)

text \<open>A null message is never among what is posted, when none was sent.\<close>

lemma accounted_posted:
  assumes "accounted ms c" and "None \<notin> set ms" and "m \<in> set (cposted c)"
  shows "m \<noteq> None"
proof -
  have "held_messages (cqueue c) + mset (cposted c) \<subseteq># mset ms" using assms(1,2) by (simp add: accounted_def)
  from mset_subset_eqD [OF this, of m] assms(2,3) show ?thesis by (cases m) auto
qed

lemma accounted_send:
  assumes a: "accounted ms c" and m: "m \<in> set (cposted c)" and q: "ws_do_send m (cqueue c) = Inr q"
  shows "accounted ms (c\<lparr>cposted := remove1 m (cposted c), cqueue := q\<rparr>)"
proof (cases "None \<in> set ms")
  case False
  from accounted_posted [OF a False m] obtain s where s: "m = Some s" by blast
  from a False have sf: "queue_safe (cqueue c)" by (simp add: accounted_def)
  from send_safe [OF sf s] q have
    q': "queue_safe q" "ws_open q = ws_open (cqueue c)"
      "held_messages q = held_messages (cqueue c) + (if ws_open (cqueue c) then {#m#} else {#})" by auto
  have r: "mset (cposted c) = add_mset m (mset (remove1 m (cposted c)))" using m by simp
  have h: "held_messages q + mset (remove1 m (cposted c)) \<subseteq># held_messages (cqueue c) + mset (cposted c)"
    "ws_open q \<Longrightarrow> held_messages q + mset (remove1 m (cposted c)) = held_messages (cqueue c) + mset (cposted c)"
    using q'(2,3) by (simp_all only: r) simp_all
  from subset_mset.order_trans [OF h(1)] h(2) a q'(1,2) False show ?thesis by (simp add: accounted_def)
qed (simp add: accounted_def)

lemma accounted_write:
  assumes a: "accounted ms c" and q: "ws_write_done (cqueue c) = Inr q \<or> ws_write_failed (cqueue c) = Inr q"
  shows "accounted ms (c\<lparr>cqueue := q\<rparr>)"
proof (cases "None \<in> set ms")
  case False
  with a have sf: "queue_safe (cqueue c)" by (simp add: accounted_def)
  from write_safe [OF sf] q have
    "queue_safe q" "ws_open q = ws_open (cqueue c)" "held_messages q = held_messages (cqueue c)" by auto
  with a show ?thesis by (simp add: accounted_def)
qed (simp add: accounted_def)

lemma accounted_sync:
  assumes "accounted ms c"
  shows "accounted (ms @ ns) (c\<lparr>cposted := cposted c @ ns, cqueue := (if b then ws_do_stop (cqueue c) else cqueue c)\<rparr>)"
  using accounted_post [OF assms, of ns] accounted_stop [OF accounted_post [OF assms, of ns]] by simp

lemma deliv_conn_ok:
  assumes "deliv_ok D" and "conns D p = Some c" and "accounted (owed D p c) c'" and "cbase c' = cbase c"
  shows "deliv_ok (D\<lparr>conns := (conns D)(p \<mapsto> c')\<rparr>)"
  using assms by (auto simp: deliv_ok_def owed_def)

lemma sync_ok:
  assumes ok: "deliv_ok D" and "prefix (sent (net_lounge (dnet D))) (sent (net_lounge N'))"
  shows "deliv_ok \<lparr>dnet = N', conns = sync (dnet D) N' (conns D)\<rparr>"
proof -
  let ?S = "sent (net_lounge (dnet D))" and ?C = "sync (dnet D) N' (conns D)"
  from assms(2) obtain ns where ns: "sent (net_lounge N') = ?S @ ns" by (auto simp: prefix_def)
  have "dom ?C = dom (net_ws N')" by (auto simp: sync_def Let_def split: if_splits)
  moreover have "cbase c \<le> length (sent (net_lounge N')) \<and> accounted (sent_to p (drop (cbase c) (sent (net_lounge N')))) c"
    if c: "?C p = Some c" for p c
  proof -
    define d where "d = (case conns D p of None \<Rightarrow> new_conn (length ?S) | Some d \<Rightarrow> d)"
    have c': "c = d\<lparr>cposted := cposted d @ sent_to p ns,
        cqueue := (if closed_at p (net_lst N') then ws_do_stop (cqueue d) else cqueue d)\<rparr>"
      using c by (simp add: sync_def ns Let_def d_def split: if_splits)
    have "cbase d \<le> length ?S \<and> accounted (sent_to p (drop (cbase d) ?S)) d"
    proof (cases "conns D p")
      case None
      then show ?thesis using accounted_new [of "length ?S"] by (simp add: d_def) (simp add: new_conn_def)
    next
      case (Some e)
      then show ?thesis using deliv_okD [OF ok Some] by (simp add: d_def owed_def)
    qed
    with accounted_sync [of "sent_to p (drop (cbase d) ?S)" d "sent_to p ns" "closed_at p (net_lst N')"]
    show ?thesis by (simp add: c' ns)
  qed
  ultimately show ?thesis by (simp add: deliv_ok_def owed_def)
qed

lemma deliv_step_ok:
  assumes "deliv_step E H parse ct D D'" and ok: "deliv_ok D"
  shows "deliv_ok D'"
  using assms(1)
proof cases
  case (d_net N')
  from sync_ok [OF ok net_step_sent [OF d_net(2)]] show ?thesis by (simp add: d_net(1))
next
  case (d_send p c m q)
  from deliv_conn_ok [OF ok d_send(2) accounted_send [OF deliv_okD(2) [OF ok d_send(2)] d_send(3,4)]]
  show ?thesis by (simp add: d_send(1))
next
  case (d_done p c q)
  from deliv_conn_ok [OF ok d_done(2) accounted_write [OF deliv_okD(2) [OF ok d_done(2)]]] d_done(3)
  show ?thesis by (simp add: d_done(1))
next
  case (d_fails p c q)
  from deliv_conn_ok [OF ok d_fails(2) accounted_write [OF deliv_okD(2) [OF ok d_fails(2)]]] d_fails(3)
  show ?thesis by (simp add: d_fails(1))
next
  case (d_closes p c)
  from deliv_conn_ok [OF ok d_closes(2) accounted_stop [OF deliv_okD(2) [OF ok d_closes(2)]]]
  show ?thesis by (simp add: d_closes(1))
qed

lemma deliv_reach_ok:
  assumes "deliv_reach E H parse ct D0 D" and "deliv_ok D0"
  shows "deliv_ok D \<and> net_reach E H parse ct (dnet D0) (dnet D)"
  using assms
proof (induction rule: deliv_reach.induct)
  case (d_next D D')
  then have ok: "deliv_ok D" and r: "net_reach E H parse ct (dnet D0) (dnet D)" by simp_all
  from d_next.hyps(2) have "net_reach E H parse ct (dnet D0) (dnet D')"
    by cases (use r in \<open>auto intro: net_next\<close>)
  with deliv_step_ok [OF d_next.hyps(2) ok] show ?case by simp
qed (simp add: net_start)

lemma conn_delivers:
  assumes ok: "deliv_ok D" and c: "conns D u = Some c" and n: "None \<notin> set (owed D u c)"
  shows "held_messages (cqueue c) + mset (cposted c) \<subseteq># mset (owed D u c)"
    "ws_open (cqueue c) \<Longrightarrow> held_messages (cqueue c) + mset (cposted c) = mset (owed D u c)"
    "m \<in> set (cposted c) \<Longrightarrow> \<exists>q. ws_do_send m (cqueue c) = Inr q"
    "\<exists>q. ws_write_done (cqueue c) = Inr q" "\<exists>q. ws_write_failed (cqueue c) = Inr q"
    "ws_open (cqueue c) \<Longrightarrow> pending (cqueue c) = None \<longrightarrow> mq (cqueue c) = [] \<Longrightarrow>
      \<exists>n q. ws_run (map Ev_send (cposted c) @ replicate n Ev_done) (cqueue c) = Inr q \<and>
        mset (map Some (written q)) = mset (owed D u c)"
proof -
  let ?q = "cqueue c"
  note a = deliv_okD(2) [OF ok c]
  from a n show h: "held_messages ?q + mset (cposted c) \<subseteq># mset (owed D u c)"
    "ws_open ?q \<Longrightarrow> held_messages ?q + mset (cposted c) = mset (owed D u c)" by (simp_all add: accounted_def)
  from a n have s: "queue_safe ?q" by (simp add: accounted_def)
  show "\<exists>q. ws_do_send m ?q = Inr q" if m: "m \<in> set (cposted c)"
  proof -
    from accounted_posted [OF a n m] obtain t where "m = Some t" by blast
    from send_safe [OF s this] show ?thesis by blast
  qed
  show "\<exists>q. ws_write_done ?q = Inr q" "\<exists>q. ws_write_failed ?q = Inr q" using write_safe [OF s] by blast+
  show "\<exists>n q. ws_run (map Ev_send (cposted c) @ replicate n Ev_done) ?q = Inr q \<and>
        mset (map Some (written q)) = mset (owed D u c)"
    if o: "ws_open ?q" "pending ?q = None \<longrightarrow> mq ?q = []"
  proof -
    have q: "queue_ok ?q" using s o(2) by (auto simp: queue_safe_def halted_def)
    have p: "None \<notin> set (cposted c)" using accounted_posted [OF a n] by blast
    show ?thesis using queue_empties [OF q o(1) p] h(2) [OF o(1)] by simp
  qed
qed

section \<open>Properties\<close>

definition deliv_boot :: "lst \<Rightarrow> lounge \<Rightarrow> dnet" where
  "deliv_boot L w = \<lparr>dnet = net_boot L w, conns = Map.empty\<rparr>"

text \<open>
  C4: every message the lounge sends to a user is accounted for, whatever the listener, the sessions,
  the strands and the transport do in whatever order. Each user has one connection. As long as none of
  the messages sent to a user was too large for the buffer of \<^verbatim>\<open>make_message\<close>: no send and no completion of
  a write on its connection meets undefined behaviour or a failed assertion; what has been written, what
  is queued and what is posted to the strand is, as a multiset, what was sent to the user since its
  session began while the socket is open, and a part of it after; and while the socket is open and no
  write has failed, running the posted calls and completing the writes puts every message sent to the user on the wire.
\<close>

theorem messages_delivered:
  assumes "distinct [cr, cs, ct]" and "server_boot cr cs ct mem (boot_world g0 rnd) = (Inr (), w0)"
    and "run_listener cfg e1 e2 e3 e4 = Inr (b, L0)" and "deliv_reach E H parse ct (deliv_boot L0 w0) D"
  shows "net_reach E H parse ct (net_boot L0 w0) (dnet D) \<and> dom (conns D) = dom (usrs (net_lounge (dnet D))) \<and>
    (\<forall>u c. conns D u = Some c \<and> None \<notin> set (owed D u c) \<longrightarrow>
       held_messages (cqueue c) + mset (cposted c) \<subseteq># mset (owed D u c) \<and>
       (ws_open (cqueue c) \<longrightarrow> held_messages (cqueue c) + mset (cposted c) = mset (owed D u c)) \<and>
       (\<forall>m \<in> set (cposted c). \<exists>q. ws_do_send m (cqueue c) = Inr q) \<and>
       (\<exists>q. ws_write_done (cqueue c) = Inr q) \<and> (\<exists>q. ws_write_failed (cqueue c) = Inr q) \<and>
       (ws_open (cqueue c) \<and> (pending (cqueue c) = None \<longrightarrow> mq (cqueue c) = []) \<longrightarrow>
          (\<exists>n q. ws_run (map Ev_send (cposted c) @ replicate n Ev_done) (cqueue c) = Inr q \<and>
             mset (map Some (written q)) = mset (owed D u c))))"
proof -
  have "deliv_ok (deliv_boot L0 w0)" by (simp add: deliv_ok_def deliv_boot_def net_boot_def)
  from deliv_reach_ok [OF assms(4) this] have ok: "deliv_ok D"
    and r: "net_reach E H parse ct (net_boot L0 w0) (dnet D)" by (simp_all add: deliv_boot_def)
  note boot = net_boot_ok [OF assms(1-3)]
  have "dom (conns D) = dom (usrs (net_lounge (dnet D)))"
    using linkedD(5) [OF net_okD(3) [OF net_reach_ok [OF r boot(1,2)]]] ok by (simp add: deliv_ok_def)
  with r show ?thesis
    by (intro conjI allI impI ballI; (elim conjE)?) (assumption | rule conn_delivers [OF ok])+
qed

text \<open>
  A run: the WebSocket session of the earlier run completes its handshake, reads a request without a
  method, and the reply is posted, queued and written.
\<close>

definition sample_parse :: "string \<Rightarrow> json option" where
  "sample_parse s = (if s = ''7'' then Some bad_call else None)"

definition sample_net5 :: net where
  "sample_net5 = sample_net4\<lparr>net_ws := (net_ws sample_net4)(10 \<mapsto> new_reader\<lparr>coro := Reading\<rparr>)\<rparr>"

definition sample_reply :: string where
  "sample_reply = ''jsonrpcerrorid''"

definition sample_net6 :: net where
  "sample_net6 = sample_net5\<lparr>net_lounge := (net_lounge sample_net5)\<lparr>sent := [(10, Some sample_reply)]\<rparr>\<rparr>"

lemma sample_net_ws:
  "net_ws sample_net0 = Map.empty" "net_ws sample_net1 = Map.empty" "net_ws sample_net2 = Map.empty"
  "net_ws sample_net3 = Map.empty" "net_ws sample_net4 = [10 \<mapsto> new_reader]"
  "net_ws sample_net5 = [10 \<mapsto> new_reader\<lparr>coro := Reading\<rparr>]" "net_ws sample_net6 = [10 \<mapsto> new_reader\<lparr>coro := Reading\<rparr>]"
proof -
  show "net_ws sample_net0 = Map.empty" by (simp add: sample_net0_def net_boot_def)
  then show "net_ws sample_net1 = Map.empty" by (simp add: sample_net1_def net_accept_def Let_def)
  then show "net_ws sample_net2 = Map.empty" by (simp add: sample_net2_def net_detect_def)
  then show "net_ws sample_net3 = Map.empty" by (simp add: sample_net3_def net_http_event_def http_start_sel Let_def)
  then show "net_ws sample_net4 = [10 \<mapsto> new_reader]" by (simp add: sample_net4_parts(2))
  then show "net_ws sample_net5 = [10 \<mapsto> new_reader\<lparr>coro := Reading\<rparr>]" by (simp add: sample_net5_def)
  then show "net_ws sample_net6 = [10 \<mapsto> new_reader\<lparr>coro := Reading\<rparr>]" by (simp add: sample_net6_def)
qed

lemma sample_sent:
  "sent (net_lounge sample_net0) = []" "sent (net_lounge sample_net1) = []" "sent (net_lounge sample_net2) = []"
  "sent (net_lounge sample_net3) = []" "sent (net_lounge sample_net4) = []" "sent (net_lounge sample_net5) = []"
  "sent (net_lounge sample_net6) = [(10, Some sample_reply)]"
proof -
  have "sent sample_boot = []" by (rule sample_boot_sent)
  then show "sent (net_lounge sample_net0) = []" by (simp add: sample_net0_def net_boot_def)
  then show "sent (net_lounge sample_net1) = []" by (simp add: sample_net1_def net_accept_def Let_def)
  then show "sent (net_lounge sample_net2) = []" by (simp add: sample_net2_def net_detect_def)
  then show "sent (net_lounge sample_net3) = []" by (simp add: sample_net3_def net_http_event_def http_start_sel Let_def)
  then show "sent (net_lounge sample_net4) = []" by (simp add: sample_net4_parts(3))
  then show "sent (net_lounge sample_net5) = []" by (simp add: sample_net5_def)
  show "sent (net_lounge sample_net6) = [(10, Some sample_reply)]" by (simp add: sample_net6_def)
qed

lemma sample_ws_steps:
  "net_step sample_env H sample_parse ct sample_net4 sample_net5"
  "net_step sample_env H sample_parse ct sample_net5 sample_net6"
proof -
  show "net_step sample_env H sample_parse ct sample_net4 sample_net5"
    by (rule net_ws_step [of _ 10 new_reader _ _ None "[]"])
      (simp_all add: sample_net_ws net_ws_event_def ws_resume_def new_reader_def sample_net5_def)
  show "net_step sample_env H sample_parse ct sample_net5 sample_net6"
    by (rule net_ws_step [of _ 10 "new_reader\<lparr>coro := Reading\<rparr>" _ _ None "''7''"])
      (simp_all add: sample_net_ws net_ws_event_def ws_resume_def new_reader_def sample_parse_def
        bad_call_answered sample_reply_def sample_sent sample_net6_def)
qed

definition sample_conn :: conn where
  "sample_conn = \<lparr>cqueue = new_queue\<lparr>written := [sample_reply]\<rparr>, cposted = [], cbase = 0\<rparr>"

definition sample_deliv :: dnet where
  "sample_deliv = \<lparr>dnet = sample_net6, conns = [10 \<mapsto> sample_conn]\<rparr>"

lemma deliv_next:
  assumes "deliv_reach E H parse ct D0 \<lparr>dnet = N, conns = C\<rparr>" and "net_step E H parse ct N N'"
    and "sync N N' C = C'" and "\<forall>p c. C p = Some c \<and> net_ws N' p = None \<longrightarrow> cposted c = [] \<and> pending (cqueue c) = None"
  shows "deliv_reach E H parse ct D0 \<lparr>dnet = N', conns = C'\<rparr>"
  using d_next [OF assms(1) d_net [of E H parse ct _ N']] assms(2-) by simp

lemma sample_sync:
  "sync sample_net0 sample_net1 Map.empty = Map.empty" "sync sample_net1 sample_net2 Map.empty = Map.empty"
  "sync sample_net2 sample_net3 Map.empty = Map.empty" "sync sample_net3 sample_net4 Map.empty = [10 \<mapsto> new_conn 0]"
  "sync sample_net4 sample_net5 [10 \<mapsto> new_conn 0] = [10 \<mapsto> new_conn 0]"
  "sync sample_net5 sample_net6 [10 \<mapsto> new_conn 0] = [10 \<mapsto> (new_conn 0)\<lparr>cposted := [Some sample_reply]\<rparr>]"
proof -
  have "net_lst sample_net5 = net_lst sample_net4" "net_lst sample_net6 = net_lst sample_net4"
    by (simp_all add: sample_net5_def sample_net6_def)
  then have o: "\<not> closed_at 10 (net_lst N)" if "N \<in> {sample_net4, sample_net5, sample_net6}" for N
    using that by (auto simp: closed_at_def sample_net4_sel sample_det_def)
  show "sync sample_net0 sample_net1 Map.empty = Map.empty" "sync sample_net1 sample_net2 Map.empty = Map.empty"
    "sync sample_net2 sample_net3 Map.empty = Map.empty" "sync sample_net3 sample_net4 Map.empty = [10 \<mapsto> new_conn 0]"
    "sync sample_net4 sample_net5 [10 \<mapsto> new_conn 0] = [10 \<mapsto> new_conn 0]"
    "sync sample_net5 sample_net6 [10 \<mapsto> new_conn 0] = [10 \<mapsto> (new_conn 0)\<lparr>cposted := [Some sample_reply]\<rparr>]"
    by (simp_all add: fun_eq_iff sync_def sample_net_ws sample_sent Let_def o, simp_all add: new_conn_def sent_to_def)
qed

lemma sample_deliv_reach:
  "deliv_reach sample_env sample_http sample_parse 60 (deliv_boot (make_listener sample_cfg\<lparr>acc_open := True\<rparr>) sample_boot) sample_deliv"
proof -
  let ?R = "deliv_reach sample_env sample_http sample_parse 60 (deliv_boot (make_listener sample_cfg\<lparr>acc_open := True\<rparr>) sample_boot)"
  let ?c = "(new_conn 0)\<lparr>cposted := [Some sample_reply]\<rparr>"
  have "?R \<lparr>dnet = sample_net0, conns = Map.empty\<rparr>"
    using d_start [of sample_env sample_http sample_parse 60] by (simp add: deliv_boot_def sample_net0_def)
  then have "?R \<lparr>dnet = sample_net1, conns = Map.empty\<rparr>" by (rule deliv_next [OF _ sample_net_steps(1) sample_sync(1)]) simp
  then have "?R \<lparr>dnet = sample_net2, conns = Map.empty\<rparr>" by (rule deliv_next [OF _ sample_net_steps(2) sample_sync(2)]) simp
  then have "?R \<lparr>dnet = sample_net3, conns = Map.empty\<rparr>" by (rule deliv_next [OF _ sample_net_steps(3) sample_sync(3)]) simp
  then have "?R \<lparr>dnet = sample_net4, conns = [10 \<mapsto> new_conn 0]\<rparr>" by (rule deliv_next [OF _ sample_net_steps(4) sample_sync(4)]) simp
  then have "?R \<lparr>dnet = sample_net5, conns = [10 \<mapsto> new_conn 0]\<rparr>"
    by (rule deliv_next [OF _ sample_ws_steps(1) sample_sync(5)]) (simp add: new_conn_def new_queue_def)
  then have "?R \<lparr>dnet = sample_net6, conns = [10 \<mapsto> ?c]\<rparr>"
    by (rule deliv_next [OF _ sample_ws_steps(2) sample_sync(6)]) (simp add: new_conn_def new_queue_def)
  note 6 = this
  let ?q = "new_queue\<lparr>mq := [Some sample_reply], pending := Some (0, sample_reply)\<rparr>"
  have "?R \<lparr>dnet = sample_net6, conns = [10 \<mapsto> ?c\<lparr>cposted := [], cqueue := ?q\<rparr>]\<rparr>"
    using d_next [OF 6 d_send [of _ 10 ?c "Some sample_reply" ?q]]
    by (simp add: new_conn_def new_queue_def ws_do_send_def ws_do_write_def)
  from d_next [OF this d_done [of _ 10 "?c\<lparr>cposted := [], cqueue := ?q\<rparr>" "new_queue\<lparr>written := [sample_reply]\<rparr>"]]
  show ?thesis
    by (simp add: new_conn_def new_queue_def ws_write_done_def ws_on_write_def swap_pop_def sample_deliv_def sample_conn_def)
qed

theorem messages_delivered_witness:
  "written (cqueue sample_conn) = [sample_reply] \<and> owed sample_deliv 10 sample_conn = [Some sample_reply] \<and>
   held_messages (cqueue sample_conn) + mset (cposted sample_conn) = mset (owed sample_deliv 10 sample_conn)"
proof -
  have o: "owed sample_deliv 10 sample_conn = [Some sample_reply]"
    by (simp add: owed_def sample_deliv_def sample_conn_def sample_sent sent_to_def)
  moreover have "conns sample_deliv 10 = Some sample_conn" "ws_open (cqueue sample_conn)"
    "written (cqueue sample_conn) = [sample_reply]"
    by (simp_all add: sample_deliv_def sample_conn_def new_queue_def)
  moreover have d: "distinct [50, 40, 60 :: nat]" by simp
  note messages_delivered [OF d sample_boot_eq sample_listener sample_deliv_reach, THEN conjunct2, THEN conjunct2,
      THEN spec [of _ 10], THEN spec [of _ sample_conn]]
  ultimately show ?thesis by simp
qed

end
