(* ===== verification/Threads.thy ===== *)
theory Threads
  imports Lounge_State "HOL-Library.Multiset"
begin

text \<open>
  The worker threads of \<^verbatim>\<open>server_impl::run\<close>. Requests of different users run at the same time, and so do the
  strands of the table and of the server; what they share is protected by the mutexes of \<^verbatim>\<open>channel.cpp\<close> and
  \<^verbatim>\<open>user.cpp\<close>. Here the membership operations are cut where another thread can come between: at the taking
  and the release of a lock, and between two sends. Every interleaving of these pieces is a run. It is
  shown that they keep the membership consistent, do not use a user that is gone, take effect at one
  point each, and cannot get stuck or run for ever.

  Left out are the contents of the messages, which \<open>Channel\<close> has, and the channels' own hooks, which only post
  to a strand. The channels live as long as the list that owns them; no channel is added while the
  threads run.
\<close>

section \<open>Locks\<close>

text \<open>
  A user's requests run on the strand of its session, one at a time, and its destructor when nothing
  holds the session any more; the other strands only send. The thread that gives up the last strong
  reference runs the destructor; it holds no lock then, so the destructor is an actor of its own that may run
  at any time later. Objects are told apart for good, also after their memory is used again.
\<close>

datatype actor = User uptr | Strand nat

text \<open>
  The \<^verbatim>\<open>boost::shared_mutex\<close> of a channel is not in the repository. The code is parametrised by its operations, where
  taking the lock gives \<open>None\<close> as long as the caller has to wait.
\<close>

record 'l lock_ops =
  lk_free :: 'l
  lk_x :: "actor \<Rightarrow> 'l \<Rightarrow> 'l option"
  lk_drop_x :: "'l \<Rightarrow> 'l"
  lk_s :: "actor \<Rightarrow> 'l \<Rightarrow> 'l option"
  lk_drop_s :: "actor \<Rightarrow> 'l \<Rightarrow> 'l"

text \<open>
  What a shared mutex promises those who use it: it has one writer or any number of readers, who
  takes it has it until it is released, and who waits waits for somebody who has it.
  No code locks it twice in one thread, so it does not matter whether a reader is let in before a
  writer that waits.
\<close>

locale shared_lock =
  fixes L :: "'l lock_ops" and ok :: "'l \<Rightarrow> bool" and writer :: "'l \<Rightarrow> actor option" and readers :: "'l \<Rightarrow> actor set"
  assumes fresh: "ok (lk_free L) \<and> writer (lk_free L) = None \<and> readers (lk_free L) = {}"
    and exclusive: "ok l \<Longrightarrow> writer l = Some a \<Longrightarrow> readers l = {}"
    and takes_x: "ok l \<Longrightarrow> lk_x L a l = Some l' \<Longrightarrow> ok l' \<and> writer l = None \<and> writer l' = Some a \<and> readers l' = readers l"
    and takes_s: "ok l \<Longrightarrow> lk_s L a l = Some l' \<Longrightarrow> ok l' \<and> writer l' = writer l \<and> readers l' = insert a (readers l)"
    and drops_x: "ok l \<Longrightarrow> ok (lk_drop_x L l) \<and> writer (lk_drop_x L l) = None \<and> readers (lk_drop_x L l) = readers l"
    and drops_s: "ok l \<Longrightarrow> ok (lk_drop_s L a l) \<and> writer (lk_drop_s L a l) = writer l \<and> readers (lk_drop_s L a l) = readers l - {a}"
    and waits_x: "ok l \<Longrightarrow> lk_x L a l = None \<Longrightarrow> writer l \<noteq> None \<or> readers l \<noteq> {}"
    and waits_s: "ok l \<Longrightarrow> lk_s L a l = None \<Longrightarrow> writer l \<noteq> None"
begin

lemma writer_alone: "ok l \<Longrightarrow> writer l = Some a \<Longrightarrow> writer l = Some b \<or> b \<in> readers l \<Longrightarrow> b = a"
  using exclusive by auto

lemma waiter_waits_for:
  assumes "ok l" and "lk_x L a l = None \<or> lk_s L a l = None"
  obtains b where "writer l = Some b \<or> b \<in> readers l"
  using assms waits_x waits_s by (metis all_not_in_conv not_Some_eq)

end

section \<open>The code\<close>

text \<open>What an actor is in the middle of, and where it is. The first argument says in which function.\<close>

datatype todo = Insert | Erase | Destroy | Say

datatype pc =
    Unborn
  | Idle
  | Want_x todo cptr
  | In_x todo cptr
  | Want_s todo cptr
  | In_s todo cptr
  | Sending todo cptr "uptr list"
  | Holding todo cptr uptr "uptr list"
  | Tell todo cptr
  | Want_u todo cptr
  | In_u todo cptr
  | Unwind
  | Gone

text \<open>
  The shared state: the set of users of each channel, the set of channels of each user, which user
  objects exist, which of them a strong reference keeps, the locks, and where each actor is.
\<close>

record 'l mstate =
  m_users :: "cptr \<Rightarrow> uptr list"
  m_chans :: "uptr \<Rightarrow> cptr list"
  m_obj :: "uptr \<Rightarrow> bool"
  m_strong :: "uptr \<Rightarrow> bool"
  m_lock :: "cptr \<Rightarrow> 'l"
  m_ulock :: "uptr \<Rightarrow> actor option"
  m_pc :: "actor \<Rightarrow> pc"

definition goto :: "actor \<Rightarrow> pc \<Rightarrow> 'l mstate \<Rightarrow> 'l mstate" where
  "goto a p s = s\<lparr>m_pc := (m_pc s)(a := p)\<rparr>"

definition set_lock :: "cptr \<Rightarrow> 'l \<Rightarrow> 'l mstate \<Rightarrow> 'l mstate" where
  "set_lock c l s = s\<lparr>m_lock := (m_lock s)(c := l)\<rparr>"

text \<open>The critical section of \<^verbatim>\<open>insert\<close>, which returns early when the user is in the channel already.\<close>

definition insert_section :: "'l lock_ops \<Rightarrow> uptr \<Rightarrow> cptr \<Rightarrow> 'l mstate \<Rightarrow> 'l mstate" where
  "insert_section L u c s =
     (let (us, inserted) = flat_insert u (m_users s c) in
      goto (User u) (if inserted then Want_s Insert c else Idle)
        (set_lock c (lk_drop_x L (m_lock s c)) (s\<lparr>m_users := (m_users s)(c := us)\<rparr>)))"

text \<open>The critical section of \<^verbatim>\<open>erase\<close>. The loop of the destructor goes on when nothing was erased.\<close>

definition erase_section :: "'l lock_ops \<Rightarrow> todo \<Rightarrow> uptr \<Rightarrow> cptr \<Rightarrow> 'l mstate \<Rightarrow> 'l mstate" where
  "erase_section L t u c s =
     (let (us, n) = flat_erase u (m_users s c) in
      goto (User u) (if n \<noteq> 0 then Want_s t c else if t = Destroy then Unwind else Idle)
        (set_lock c (lk_drop_x L (m_lock s c)) (s\<lparr>m_users := (m_users s)(c := us)\<rparr>)))"

text \<open>The critical section of \<^verbatim>\<open>send\<close>: a weak pointer is made from every pointer in the set.\<close>

definition snapshot_section :: "'l lock_ops \<Rightarrow> actor \<Rightarrow> todo \<Rightarrow> cptr \<Rightarrow> 'l mstate \<Rightarrow> 'l mstate outcome" where
  "snapshot_section L a t c s =
     (if list_all (m_obj s) (m_users s c)
      then Inr (goto a (Sending t c (m_users s c)) (set_lock c (lk_drop_s L a (m_lock s c)) s))
      else Inl Undefined)"

text \<open>Where the function goes on after it has sent.\<close>

fun after_send :: "todo \<Rightarrow> cptr \<Rightarrow> pc" where
  "after_send Insert c = Want_u Insert c"
| "after_send Say c = Idle"
| "after_send t c = Tell t c"

text \<open>\<^verbatim>\<open>user::on_insert\<close> and \<^verbatim>\<open>user::on_erase\<close> under the user's mutex, with the assertions they make.\<close>

definition on_insert_section :: "uptr \<Rightarrow> cptr \<Rightarrow> 'l mstate \<Rightarrow> 'l mstate outcome" where
  "on_insert_section u c s =
     (let (cs, fresh) = flat_insert c (m_chans s u) in
      if fresh then Inr (goto (User u) Idle (s\<lparr>m_chans := (m_chans s)(u := cs), m_ulock := (m_ulock s)(u := None)\<rparr>))
      else Inl Assert_failed)"

definition on_erase_section :: "todo \<Rightarrow> uptr \<Rightarrow> cptr \<Rightarrow> 'l mstate \<Rightarrow> 'l mstate outcome" where
  "on_erase_section t u c s =
     (let (cs, n) = flat_erase c (m_chans s u) in
      if n = 1 then Inr (goto (User u) (if t = Destroy then Unwind else Idle)
        (s\<lparr>m_chans := (m_chans s)(u := cs), m_ulock := (m_ulock s)(u := None)\<rparr>))
      else Inl Assert_failed)"

text \<open>The head of the loop in the destructor of a user, and its end.\<close>

definition unwind_step :: "uptr \<Rightarrow> 'l mstate \<Rightarrow> 'l mstate" where
  "unwind_step u s =
     (if m_chans s u = [] then goto (User u) Gone (s\<lparr>m_obj := (m_obj s)(u := False)\<rparr>)
      else goto (User u) (Want_x Destroy (last (m_chans s u))) s)"

text \<open>
  The next piece of an actor: \<open>None\<close> when it has nothing to do or waits for a lock. A user's own object is
  touched when it is told, and when its mutex is taken.
\<close>

definition user_step :: "'l lock_ops \<Rightarrow> uptr \<Rightarrow> 'l mstate \<Rightarrow> 'l mstate outcome option" where
  "user_step L u s =
     (case m_pc s (User u) of
        Want_x t c \<Rightarrow> map_option (\<lambda>l. Inr (goto (User u) (In_x t c) (set_lock c l s))) (lk_x L (User u) (m_lock s c))
      | In_x t c \<Rightarrow> Some (Inr (if t = Insert then insert_section L u c s else erase_section L t u c s))
      | Tell t c \<Rightarrow> Some (if m_obj s u then Inr (goto (User u) (Want_u t c) s) else Inl Undefined)
      | Want_u t c \<Rightarrow>
          if \<not> m_obj s u then Some (Inl Undefined)
          else if m_ulock s u = None
          then Some (Inr (goto (User u) (In_u t c) (s\<lparr>m_ulock := (m_ulock s)(u := Some (User u))\<rparr>)))
          else None
      | In_u t c \<Rightarrow> Some (if t = Insert then on_insert_section u c s else on_erase_section t u c s)
      | Unwind \<Rightarrow> Some (Inr (unwind_step u s))
      | _ \<Rightarrow> None)"

definition send_step :: "'l lock_ops \<Rightarrow> actor \<Rightarrow> 'l mstate \<Rightarrow> 'l mstate outcome option" where
  "send_step L a s =
     (case m_pc s a of
        Want_s t c \<Rightarrow> map_option (\<lambda>l. Inr (goto a (In_s t c) (set_lock c l s))) (lk_s L a (m_lock s c))
      | In_s t c \<Rightarrow> Some (snapshot_section L a t c s)
      | Sending t c vs \<Rightarrow>
          Some (Inr (case vs of
             [] \<Rightarrow> goto a (after_send t c) s
           | v # ws \<Rightarrow> goto a (if m_strong s v then Holding t c v ws else Sending t c ws) s))
      | Holding t c v ws \<Rightarrow> Some (if m_obj s v then Inr (goto a (Sending t c ws) s) else Inl Undefined)
      | _ \<Rightarrow> None)"

definition sending_pc :: "pc \<Rightarrow> bool" where
  "sending_pc p \<longleftrightarrow> (case p of Want_s _ _ \<Rightarrow> True | In_s _ _ \<Rightarrow> True | Sending _ _ _ \<Rightarrow> True | Holding _ _ _ _ \<Rightarrow> True | _ \<Rightarrow> False)"

definition actor_step :: "'l lock_ops \<Rightarrow> actor \<Rightarrow> 'l mstate \<Rightarrow> 'l mstate outcome option" where
  "actor_step L a s =
     (if sending_pc (m_pc s a) then send_step L a s
      else case a of User u \<Rightarrow> user_step L u s | Strand n \<Rightarrow> None)"

text \<open>What starts: a connection, a request, a send of a strand, and the end of the last strong reference to a user.\<close>

definition first_pc :: "todo \<Rightarrow> cptr \<Rightarrow> pc" where
  "first_pc t c = (if t = Say then Want_s Say c else Want_x t c)"

definition user_born :: "uptr \<Rightarrow> 'l mstate \<Rightarrow> 'l mstate" where
  "user_born u s = goto (User u) Idle (s\<lparr>m_obj := (m_obj s)(u := True), m_strong := (m_strong s)(u := True)\<rparr>)"

definition user_dropped :: "uptr \<Rightarrow> 'l mstate \<Rightarrow> 'l mstate" where
  "user_dropped u s = goto (User u) Unwind (s\<lparr>m_strong := (m_strong s)(u := False)\<rparr>)"

definition no_threads :: "'l lock_ops \<Rightarrow> 'l mstate" where
  "no_threads L = \<lparr>m_users = (\<lambda>_. []), m_chans = (\<lambda>_. []), m_obj = (\<lambda>_. False), m_strong = (\<lambda>_. False),
     m_lock = (\<lambda>_. lk_free L), m_ulock = (\<lambda>_. None),
     m_pc = (\<lambda>a. case a of User u \<Rightarrow> Unborn | Strand n \<Rightarrow> Idle)\<rparr>"

inductive threads_reach :: "'l lock_ops \<Rightarrow> 'l mstate \<Rightarrow> bool" for L :: "'l lock_ops" where
  t_start: "threads_reach L (no_threads L)"
| t_born: "threads_reach L s \<Longrightarrow> m_pc s (User u) = Unborn \<Longrightarrow> threads_reach L (user_born u s)"
| t_request: "threads_reach L s \<Longrightarrow> m_pc s (User u) = Idle \<Longrightarrow> t \<noteq> Destroy \<Longrightarrow>
    threads_reach L (goto (User u) (first_pc t c) s)"
| t_strand: "threads_reach L s \<Longrightarrow> m_pc s (Strand n) = Idle \<Longrightarrow> threads_reach L (goto (Strand n) (first_pc Say c) s)"
| t_dropped: "threads_reach L s \<Longrightarrow> m_pc s (User u) = Idle \<Longrightarrow>
    \<forall>a t c ws. m_pc s a \<noteq> Holding t c u ws \<Longrightarrow> threads_reach L (user_dropped u s)"
| t_step: "threads_reach L s \<Longrightarrow> actor_step L a s = Some (Inr s') \<Longrightarrow> threads_reach L s'"

section \<open>The invariant\<close>

fun doing :: "pc \<Rightarrow> (todo \<times> cptr) option" where
  "doing (Want_x t c) = Some (t, c)"
| "doing (In_x t c) = Some (t, c)"
| "doing (Want_s t c) = Some (t, c)"
| "doing (In_s t c) = Some (t, c)"
| "doing (Sending t c vs) = Some (t, c)"
| "doing (Holding t c v vs) = Some (t, c)"
| "doing (Tell t c) = Some (t, c)"
| "doing (Want_u t c) = Some (t, c)"
| "doing (In_u t c) = Some (t, c)"
| "doing _ = None"

text \<open>The locks are held by those who are inside.\<close>

fun holds_x :: "pc \<Rightarrow> cptr option" where
  "holds_x (In_x t c) = Some c" | "holds_x _ = None"

fun holds_s :: "pc \<Rightarrow> cptr option" where
  "holds_s (In_s t c) = Some c" | "holds_s _ = None"

fun holds_u :: "pc \<Rightarrow> bool" where
  "holds_u (In_u t c) = True" | "holds_u _ = False"

text \<open>Only users change memberships; what only sends stays outside these parts.\<close>

fun fits_actor :: "actor \<Rightarrow> pc \<Rightarrow> bool" where
  "fits_actor (Strand n) p \<longleftrightarrow> p = Idle \<or> sending_pc p \<and> (\<exists>c. doing p = Some (Say, c))"
| "fits_actor (User u) p \<longleftrightarrow> sending_pc p \<or> (\<forall>c. doing p \<noteq> Some (Say, c)) \<and> (\<forall>c. p \<noteq> Tell Insert c)"

text \<open>An object exists from its birth to the end of its destructor, and can be locked until the destructor begins.\<close>

definition dying :: "pc \<Rightarrow> bool" where
  "dying p \<longleftrightarrow> p = Unwind \<or> (\<exists>c. doing p = Some (Destroy, c))"

fun pinned :: "pc \<Rightarrow> uptr option" where
  "pinned (Holding t c v ws) = Some v" | "pinned _ = None"

definition alive_ok :: "pc \<Rightarrow> bool \<Rightarrow> bool \<Rightarrow> bool" where
  "alive_ok p obj strong \<longleftrightarrow>
     (obj \<longleftrightarrow> p \<noteq> Unborn \<and> p \<noteq> Gone) \<and> (strong \<longleftrightarrow> p \<noteq> Unborn \<and> p \<noteq> Gone \<and> \<not> dying p)"

definition life_ok :: "'l mstate \<Rightarrow> bool" where
  "life_ok s \<longleftrightarrow>
     (\<forall>u. alive_ok (m_pc s (User u)) (m_obj s u) (m_strong s u)) \<and>
     (\<forall>a v. pinned (m_pc s a) = Some v \<longrightarrow> m_strong s v)"

text \<open>
  A user that is between the critical section of the channel and its own is in one of the two sets and
  not in the other; otherwise it is in both or in neither.
\<close>

fun late :: "pc \<Rightarrow> bool" where
  "late (Want_x t c) = False" | "late (In_x t c) = False" | "late _ = True"

definition mid :: "pc \<Rightarrow> (todo \<times> cptr) option" where
  "mid p = (case doing p of Some (t, c) \<Rightarrow> if late p \<and> t \<noteq> Say then Some (t, c) else None | None \<Rightarrow> None)"

definition member_ok :: "pc \<Rightarrow> (cptr \<Rightarrow> bool) \<Rightarrow> cptr set \<Rightarrow> bool" where
  "member_ok p inside cs \<longleftrightarrow>
     (\<forall>c. inside c \<longleftrightarrow> (if mid p = Some (Insert, c) then True
        else if mid p = Some (Erase, c) \<or> mid p = Some (Destroy, c) then False else c \<in> cs)) \<and>
     (\<forall>t c. mid p = Some (t, c) \<longrightarrow> (c \<in> cs \<longleftrightarrow> t \<noteq> Insert)) \<and>
     (\<forall>c. doing p = Some (Destroy, c) \<longrightarrow> c \<in> cs) \<and>
     (p = Unborn \<or> p = Gone \<longrightarrow> cs = {})"

definition members_sync :: "'l mstate \<Rightarrow> bool" where
  "members_sync s \<longleftrightarrow>
     (\<forall>c. flat_set (m_users s c)) \<and> (\<forall>u. flat_set (m_chans s u)) \<and>
     (\<forall>u. member_ok (m_pc s (User u)) (\<lambda>c. u \<in> set (m_users s c)) (set (m_chans s u)))"

lemmas pc_defs = sending_pc_def dying_def mid_def

lemma goto_sel [simp]:
  "m_pc (goto a p s) = (m_pc s)(a := p)" "m_users (goto a p s) = m_users s" "m_chans (goto a p s) = m_chans s"
  "m_obj (goto a p s) = m_obj s" "m_strong (goto a p s) = m_strong s" "m_lock (goto a p s) = m_lock s"
  "m_ulock (goto a p s) = m_ulock s"
  by (simp_all add: goto_def)

lemma set_lock_sel [simp]:
  "m_pc (set_lock c l s) = m_pc s" "m_users (set_lock c l s) = m_users s" "m_chans (set_lock c l s) = m_chans s"
  "m_obj (set_lock c l s) = m_obj s" "m_strong (set_lock c l s) = m_strong s"
  "m_lock (set_lock c l s) = (m_lock s)(c := l)" "m_ulock (set_lock c l s) = m_ulock s"
  by (simp_all add: set_lock_def)

section \<open>Progress and effect\<close>

definition busy :: "pc \<Rightarrow> bool" where
  "busy p \<longleftrightarrow> p \<noteq> Unborn \<and> p \<noteq> Idle \<and> p \<noteq> Gone"

text \<open>
  How far an actor is from its end: the channels its destructor still has to leave, the pieces left of
  the function it is in, and the sends left of its snapshot. Nobody but the actor itself changes them.
\<close>

fun stage :: "pc \<Rightarrow> nat" where
  "stage Unwind = 10" | "stage (Want_x t c) = 9" | "stage (In_x t c) = 8" | "stage (Want_s t c) = 7" | "stage (In_s t c) = 6"
| "stage (Sending t c vs) = 5" | "stage (Holding t c v vs) = 5" | "stage (Tell t c) = 4" | "stage (Want_u t c) = 3"
| "stage (In_u t c) = 2" | "stage _ = 0"

fun sends_left :: "pc \<Rightarrow> nat" where
  "sends_left (Sending t c vs) = 2 * length vs" | "sends_left (Holding t c v vs) = 2 * length vs + 1" | "sends_left _ = 0"

definition rank :: "'l mstate \<Rightarrow> actor \<Rightarrow> nat \<times> nat \<times> nat" where
  "rank s a = (case a of User u \<Rightarrow> if dying (m_pc s a) then length (m_chans s u) else 0 | Strand n \<Rightarrow> 0,
     stage (m_pc s a), sends_left (m_pc s a))"

definition nearer :: "((nat \<times> nat \<times> nat) \<times> (nat \<times> nat \<times> nat)) set" where
  "nearer = less_than <*lex*> less_than <*lex*> less_than"

definition ranks :: "actor set \<Rightarrow> 'l mstate \<Rightarrow> (nat \<times> nat \<times> nat) multiset" where
  "ranks A s = image_mset (rank s) (mset_set A)"

text \<open>
  The memberships as one atomic set. The critical section of a request is the one piece in which it
  takes effect, and there it is decided whether it succeeds.
\<close>

definition joined :: "'l mstate \<Rightarrow> (uptr \<times> cptr) set" where
  "joined s = {(u, c). u \<in> set (m_users s c)}"

fun request_effect :: "actor \<Rightarrow> pc \<Rightarrow> (uptr \<times> cptr) set \<Rightarrow> (uptr \<times> cptr) set \<times> bool" where
  "request_effect (User u) (In_x Insert c) J = (insert (u, c) J, (u, c) \<notin> J)"
| "request_effect (User u) (In_x t c) J = (J - {(u, c)}, (u, c) \<in> J)"
| "request_effect _ _ J = (J, False)"

section \<open>The invariant is kept\<close>

context shared_lock
begin

definition locks_ok :: "'l mstate \<Rightarrow> bool" where
  "locks_ok s \<longleftrightarrow>
     (\<forall>c. ok (m_lock s c)) \<and>
     (\<forall>c a. writer (m_lock s c) = Some a \<longleftrightarrow> holds_x (m_pc s a) = Some c) \<and>
     (\<forall>c a. a \<in> readers (m_lock s c) \<longleftrightarrow> holds_s (m_pc s a) = Some c) \<and>
     (\<forall>u a. m_ulock s u = Some a \<longleftrightarrow> a = User u \<and> holds_u (m_pc s a))"

definition threads_ok :: "'l mstate \<Rightarrow> bool" where
  "threads_ok s \<longleftrightarrow> locks_ok s \<and> (\<forall>a. fits_actor a (m_pc s a)) \<and> life_ok s \<and> members_sync s"

lemma no_threads_ok: "threads_ok (no_threads L)"
  by (auto simp: threads_ok_def no_threads_def locks_ok_def life_ok_def alive_ok_def members_sync_def member_ok_def pc_defs
      fresh split: actor.splits elim: fits_actor.elims)

lemma threads_okD:
  assumes "threads_ok s"
  shows "ok (m_lock s c)" "writer (m_lock s c) = Some a \<longleftrightarrow> holds_x (m_pc s a) = Some c"
    "a \<in> readers (m_lock s c) \<longleftrightarrow> holds_s (m_pc s a) = Some c"
    "m_ulock s u = Some a \<longleftrightarrow> a = User u \<and> holds_u (m_pc s a)" "fits_actor a (m_pc s a)"
    "alive_ok (m_pc s (User u)) (m_obj s u) (m_strong s u)" "pinned (m_pc s a) = Some v \<Longrightarrow> m_strong s v"
    "flat_set (m_users s c)" "flat_set (m_chans s u)"
    "member_ok (m_pc s (User u)) (\<lambda>c. u \<in> set (m_users s c)) (set (m_chans s u))"
  using assms unfolding threads_ok_def locks_ok_def life_ok_def members_sync_def by blast+

text \<open>
  The part of the invariant that speaks of one user, as its own steps change it: its place, its object and
  its memberships.
\<close>

definition user_ok :: "uptr \<Rightarrow> pc \<Rightarrow> 'l mstate \<Rightarrow> bool" where
  "user_ok u p s \<longleftrightarrow>
     alive_ok p (m_obj s u) (m_strong s u) \<and> member_ok p (\<lambda>c. u \<in> set (m_users s c)) (set (m_chans s u))"

lemma user_okI: "threads_ok s \<Longrightarrow> user_ok u (m_pc s (User u)) s"
  by (simp add: user_ok_def threads_okD)

lemma user_ok_move:
  assumes "user_ok u p s" and "mid q = mid p" and "dying q = dying p"
    and "\<And>c. doing q = Some (Destroy, c) \<Longrightarrow> c \<in> set (m_chans s u)"
    and "q \<noteq> Unborn" "q \<noteq> Gone" "p \<noteq> Unborn" "p \<noteq> Gone"
  shows "user_ok u q s"
  using assms by (auto simp: user_ok_def alive_ok_def member_ok_def)

text \<open>What others rely on stays when an actor only changes what is its own.\<close>

lemma own_step_ok:
  assumes ok: "threads_ok s" and pc: "m_pc s' = (m_pc s)(a := p)" and f: "fits_actor a p" and l: "locks_ok s'"
    and flat: "\<And>c. flat_set (m_users s' c)" "\<And>u. flat_set (m_chans s' u)"
    and others: "\<And>v. a \<noteq> User v \<Longrightarrow> m_obj s' v = m_obj s v \<and> m_strong s' v = m_strong s v \<and>
      m_chans s' v = m_chans s v \<and> (\<forall>d. v \<in> set (m_users s' d) \<longleftrightarrow> v \<in> set (m_users s d))"
    and own: "\<And>u. a = User u \<Longrightarrow> user_ok u p s'"
    and pins: "\<And>b v. pinned (((m_pc s)(a := p)) b) = Some v \<Longrightarrow> m_strong s' v"
  shows "threads_ok s'"
proof -
  note D = threads_okD [OF ok]
  have u: "user_ok v (m_pc s' (User v)) s'" for v
  proof (cases "a = User v")
    case True
    with own pc show ?thesis by simp
  next
    case False
    with others [OF False] D(6,10) pc show ?thesis by (simp add: user_ok_def)
  qed
  then have "life_ok s'" unfolding life_ok_def using pins pc by (simp add: user_ok_def)
  moreover have "members_sync s'" unfolding members_sync_def using u flat by (simp add: user_ok_def)
  moreover have "\<forall>b. fits_actor b (m_pc s' b)" using D(5) f pc by simp
  ultimately show ?thesis using l by (simp add: threads_ok_def)
qed

lemma locks_goto:
  assumes "threads_ok s" and "holds_x p = holds_x (m_pc s a)" "holds_s p = holds_s (m_pc s a)" "holds_u p = holds_u (m_pc s a)"
    and "m_pc s' = (m_pc s)(a := p)" "m_lock s' = m_lock s" "m_ulock s' = m_ulock s"
  shows "locks_ok s'"
  unfolding locks_ok_def using threads_okD(1-4) [OF assms(1)] assms(2-) by auto

lemma locks_goto_lock:
  assumes "threads_ok s" and l: "ok l"
    "\<And>b. writer l = Some b \<longleftrightarrow> (if b = a then holds_x p = Some c else writer (m_lock s c) = Some b)"
    "\<And>b. b \<in> readers l \<longleftrightarrow> (if b = a then holds_s p = Some c else b \<in> readers (m_lock s c))"
    "\<And>d. d \<noteq> c \<Longrightarrow> holds_x p \<noteq> Some d \<and> holds_x (m_pc s a) \<noteq> Some d \<and> holds_s p \<noteq> Some d \<and> holds_s (m_pc s a) \<noteq> Some d"
    and "holds_u p = holds_u (m_pc s a)"
    and "m_pc s' = (m_pc s)(a := p)" "m_lock s' = (m_lock s)(c := l)" "m_ulock s' = m_ulock s"
  shows "locks_ok s'"
  unfolding locks_ok_def using threads_okD(1-4) [OF assms(1)] assms(2-) by auto

lemma pins_goto:
  assumes "threads_ok s" and "\<And>v. pinned p = Some v \<Longrightarrow> m_strong s v" and "pinned (((m_pc s)(a := p)) b) = Some v"
  shows "m_strong s v"
  using assms threads_okD(7) [OF assms(1)] by (auto split: if_splits)

text \<open>An actor moves, and takes or releases a lock of a channel.\<close>

lemma goto_ok:
  assumes "threads_ok s" and "fits_actor a p"
    and "holds_x p = holds_x (m_pc s a)" "holds_s p = holds_s (m_pc s a)" "holds_u p = holds_u (m_pc s a)"
    and "\<And>u. a = User u \<Longrightarrow> user_ok u p s" and "\<And>v. pinned p = Some v \<Longrightarrow> m_strong s v"
  shows "threads_ok (goto a p s)"
proof (rule own_step_ok [OF assms(1) _ assms(2)])
  show "locks_ok (goto a p s)" by (rule locks_goto [OF assms(1,3,4,5)]) simp_all
  show "m_strong (goto a p s) v" if "pinned (((m_pc s)(a := p)) b) = Some v" for b v
    using pins_goto [OF assms(1,7) that] by simp
qed (use assms threads_okD [OF assms(1)] in \<open>simp_all add: user_ok_def\<close>)

lemma lock_x_ok:
  assumes ok: "threads_ok s" and p: "m_pc s (User u) = Want_x t c" and l: "lk_x L (User u) (m_lock s c) = Some l"
  shows "threads_ok (goto (User u) (In_x t c) (set_lock c l s))"
proof (rule own_step_ok [OF ok])
  show "locks_ok (goto (User u) (In_x t c) (set_lock c l s))"
    using takes_x [OF threads_okD(1) [OF ok] l] threads_okD(3) [OF ok, of "User u" c] p
    by (intro locks_goto_lock [OF ok, of l]) auto
  show "fits_actor (User u) (In_x t c)" using threads_okD(5) [OF ok, of "User u"] p by (simp add: sending_pc_def)
  show "user_ok v (In_x t c) (goto (User u) (In_x t c) (set_lock c l s))" if "User u = User v" for v
    using user_okI [OF ok, of u] p that by (simp add: user_ok_def alive_ok_def member_ok_def pc_defs)
  show "m_strong (goto (User u) (In_x t c) (set_lock c l s)) v" if "pinned (((m_pc s)(User u := In_x t c)) b) = Some v" for b v
    using pins_goto [OF ok _ that] by simp
qed (use threads_okD [OF ok] in simp_all)

lemma lock_s_ok:
  assumes ok: "threads_ok s" and p: "m_pc s a = Want_s t c" and l: "lk_s L a (m_lock s c) = Some l"
  shows "threads_ok (goto a (In_s t c) (set_lock c l s))"
proof (rule own_step_ok [OF ok])
  show "locks_ok (goto a (In_s t c) (set_lock c l s))"
    using takes_s [OF threads_okD(1) [OF ok] l] threads_okD(2) [OF ok, of c a] p
    by (intro locks_goto_lock [OF ok, of l]) auto
  show "fits_actor a (In_s t c)" using threads_okD(5) [OF ok, of a] p by (cases a) (simp_all add: sending_pc_def)
  show "user_ok v (In_s t c) (goto a (In_s t c) (set_lock c l s))" if "a = User v" for v
    using user_okI [OF ok, of v] p that by (simp add: user_ok_def alive_ok_def member_ok_def pc_defs)
  show "m_strong (goto a (In_s t c) (set_lock c l s)) v" if "pinned (((m_pc s)(a := In_s t c)) b) = Some v" for b v
    using pins_goto [OF ok _ that] by simp
qed (use threads_okD [OF ok] in simp_all)

lemma x_section_ok:
  assumes ok: "threads_ok s" and p: "m_pc s (User u) = In_x t c" and us: "flat_set us"
    and keep: "\<And>v. v \<noteq> u \<Longrightarrow> v \<in> set us \<longleftrightarrow> v \<in> set (m_users s c)"
    and own: "user_ok u q (s\<lparr>m_users := (m_users s)(c := us)\<rparr>)"
    and q: "fits_actor (User u) q" "holds_x q = None" "holds_s q = None" "\<not> holds_u q" "pinned q = None"
  shows "threads_ok (goto (User u) q (set_lock c (lk_drop_x L (m_lock s c)) (s\<lparr>m_users := (m_users s)(c := us)\<rparr>)))"
    (is "threads_ok ?s")
proof (rule own_step_ok [OF ok])
  show "locks_ok ?s"
    using drops_x [OF threads_okD(1) [OF ok, of c]] threads_okD(2) [OF ok, of c] threads_okD(3) [OF ok, of "User u" c] p q
      writer_alone [OF threads_okD(1) [OF ok, of c], of "User u"]
    by (intro locks_goto_lock [OF ok, of "lk_drop_x L (m_lock s c)"]) auto
  show "user_ok v q ?s" if "User u = User v" for v using own that by (simp add: user_ok_def)
  show "m_strong ?s v" if "pinned (((m_pc s)(User u := q)) b) = Some v" for b v
    using pins_goto [OF ok _ that] q by simp
qed (use threads_okD [OF ok] us keep q in auto)

lemma insert_section_ok:
  assumes ok: "threads_ok s" and p: "m_pc s (User u) = In_x Insert c"
  shows "threads_ok (insert_section L u c s)"
proof (cases "flat_insert u (m_users s c)")
  case (Pair us b)
  then have us: "us = fst (flat_insert u (m_users s c))" "b = snd (flat_insert u (m_users s c))" by simp_all
  have "user_ok u (if b then Want_s Insert c else Idle) (s\<lparr>m_users := (m_users s)(c := us)\<rparr>)"
    using user_okI [OF ok, of u] p
    by (auto simp: us user_ok_def alive_ok_def member_ok_def pc_defs flat_set_simps)
  then show ?thesis unfolding insert_section_def Pair Let_def prod.case
    by (intro x_section_ok [OF ok p]) (auto simp: us pc_defs flat_set_simps threads_okD [OF ok])
qed

lemma erase_section_ok:
  assumes ok: "threads_ok s" and p: "m_pc s (User u) = In_x t c" and t: "t \<noteq> Insert"
  shows "threads_ok (erase_section L t u c s)"
proof (cases "flat_erase u (m_users s c)")
  case (Pair us n)
  then have us: "us = fst (flat_erase u (m_users s c))" "n = snd (flat_erase u (m_users s c))" by simp_all
  have f: "fits_actor (User u) (In_x t c)" using threads_okD(5) [OF ok, of "User u"] p by simp
  have "user_ok u (if n \<noteq> 0 then Want_s t c else if t = Destroy then Unwind else Idle) (s\<lparr>m_users := (m_users s)(c := us)\<rparr>)"
    using user_okI [OF ok, of u] p t f threads_okD(8) [OF ok, of c]
    by (cases t) (auto simp: us user_ok_def alive_ok_def member_ok_def pc_defs flat_set_simps)
  then show ?thesis unfolding erase_section_def Pair Let_def prod.case
    by (intro x_section_ok [OF ok p]) (auto simp: us pc_defs flat_set_simps threads_okD [OF ok])
qed

text \<open>The snapshot never reads a user that is gone: who is in a channel has not finished its destructor.\<close>

lemma member_exists:
  assumes ok: "threads_ok s" and "u \<in> set (m_users s c)"
  shows "m_obj s u"
  using user_okI [OF ok, of u] assms(2) by (auto simp: user_ok_def alive_ok_def member_ok_def pc_defs)

lemma snapshot_section_ok:
  assumes ok: "threads_ok s" and p: "m_pc s a = In_s t c"
  shows "\<exists>s'. snapshot_section L a t c s = Inr s' \<and> threads_ok s'"
proof -
  let ?s = "goto a (Sending t c (m_users s c)) (set_lock c (lk_drop_s L a (m_lock s c)) s)"
  have "threads_ok ?s"
  proof (rule own_step_ok [OF ok])
    show "locks_ok ?s"
      using drops_s [OF threads_okD(1) [OF ok, of c], of a] threads_okD(2) [OF ok, of c a] threads_okD(3) [OF ok, of _ c] p
      by (intro locks_goto_lock [OF ok, of "lk_drop_s L a (m_lock s c)"]) auto
    show "fits_actor a (Sending t c (m_users s c))"
      using threads_okD(5) [OF ok, of a] p by (cases a) (simp_all add: sending_pc_def)
    show "user_ok v (Sending t c (m_users s c)) ?s" if "a = User v" for v
      using user_okI [OF ok, of v] p that by (simp add: user_ok_def alive_ok_def member_ok_def pc_defs)
    show "m_strong ?s v" if "pinned (((m_pc s)(a := Sending t c (m_users s c))) b) = Some v" for b v
      using pins_goto [OF ok _ that] by simp
  qed (use threads_okD [OF ok] in simp_all)
  moreover have "list_all (m_obj s) (m_users s c)" using member_exists [OF ok] by (simp add: list_all_iff)
  ultimately show ?thesis by (simp add: snapshot_section_def)
qed

lemma sending_ok:
  assumes ok: "threads_ok s" and p: "m_pc s a = Sending t c vs"
  shows "threads_ok (case vs of [] \<Rightarrow> goto a (after_send t c) s
    | v # ws \<Rightarrow> goto a (if m_strong s v then Holding t c v ws else Sending t c ws) s)"
proof (cases vs)
  case Nil
  have "threads_ok (goto a (after_send t c) s)"
    using user_okI [OF ok] threads_okD(5) [OF ok, of a] p
    by (intro goto_ok [OF ok]; cases t; cases a)
      (auto simp: user_ok_def alive_ok_def member_ok_def pc_defs)
  with Nil show ?thesis by simp
next
  case (Cons v ws)
  have "threads_ok (goto a (if m_strong s v then Holding t c v ws else Sending t c ws) s)"
    using user_okI [OF ok] threads_okD(5) [OF ok, of a] p
    by (intro goto_ok [OF ok]; cases a)
      (auto simp: user_ok_def alive_ok_def member_ok_def pc_defs split: if_splits)
  with Cons show ?thesis by simp
qed

lemma holding_ok:
  assumes ok: "threads_ok s" and p: "m_pc s a = Holding t c v ws"
  shows "m_obj s v" "threads_ok (goto a (Sending t c ws) s)"
proof -
  have "m_strong s v" using threads_okD(7) [OF ok, of a v] p by simp
  then show "m_obj s v" using threads_okD(6) [OF ok, of v] by (simp add: alive_ok_def)
  show "threads_ok (goto a (Sending t c ws) s)"
    using user_okI [OF ok] threads_okD(5) [OF ok, of a] p
    by (intro goto_ok [OF ok]; cases a) (auto simp: user_ok_def alive_ok_def member_ok_def pc_defs)
qed

lemma send_step_ok:
  assumes "threads_ok s" and "send_step L a s = Some r"
  shows "\<exists>s'. r = Inr s' \<and> threads_ok s'"
  using assms(2) lock_s_ok [OF assms(1), of a] snapshot_section_ok [OF assms(1), of a] sending_ok [OF assms(1), of a]
    holding_ok [OF assms(1), of a]
  by (auto simp: send_step_def split: pc.splits)

text \<open>A user and its own mutex: what is told to it is always what it did not know.\<close>

lemma want_u_ok:
  assumes ok: "threads_ok s" and p: "m_pc s (User u) = Want_u t c"
  shows "m_obj s u" "m_ulock s u = None"
    "threads_ok (goto (User u) (In_u t c) (s\<lparr>m_ulock := (m_ulock s)(u := Some (User u))\<rparr>))" (is "threads_ok ?s")
proof -
  show "m_obj s u" using threads_okD(6) [OF ok, of u] p by (simp add: alive_ok_def)
  show "m_ulock s u = None"
  proof (cases "m_ulock s u")
    case (Some a)
    with threads_okD(4) [OF ok, of u a] p show ?thesis by auto
  qed
  show "threads_ok ?s"
  proof (rule own_step_ok [OF ok])
    show "locks_ok ?s" unfolding locks_ok_def using threads_okD(1-4) [OF ok] p by auto
    show "fits_actor (User u) (In_u t c)" using threads_okD(5) [OF ok, of "User u"] p by (simp add: sending_pc_def)
    show "user_ok v (In_u t c) ?s" if "User u = User v" for v
      using user_okI [OF ok, of u] p that by (simp add: user_ok_def alive_ok_def member_ok_def pc_defs)
    show "m_strong ?s v" if "pinned (((m_pc s)(User u := In_u t c)) b) = Some v" for b v
      using pins_goto [OF ok _ that] by simp
  qed (use threads_okD [OF ok] in simp_all)
qed

lemma u_section_ok:
  assumes ok: "threads_ok s" and p: "m_pc s (User u) = In_u t c" and cs: "flat_set cs"
    and own: "user_ok u q (s\<lparr>m_chans := (m_chans s)(u := cs)\<rparr>)" and q: "q = Idle \<or> q = Unwind"
  shows "threads_ok (goto (User u) q (s\<lparr>m_chans := (m_chans s)(u := cs), m_ulock := (m_ulock s)(u := None)\<rparr>))"
    (is "threads_ok ?s")
proof (rule own_step_ok [OF ok])
  show "locks_ok ?s" unfolding locks_ok_def using threads_okD(1-4) [OF ok] p q by auto
  show "user_ok v q ?s" if "User u = User v" for v using own that by (simp add: user_ok_def)
  show "m_strong ?s v" if "pinned (((m_pc s)(User u := q)) b) = Some v" for b v
    using pins_goto [OF ok _ that] q by auto
qed (use threads_okD [OF ok] cs q in \<open>auto simp: sending_pc_def\<close>)

lemma on_insert_section_ok:
  assumes ok: "threads_ok s" and p: "m_pc s (User u) = In_u Insert c"
  shows "\<exists>s'. on_insert_section u c s = Inr s' \<and> threads_ok s'"
proof (cases "flat_insert c (m_chans s u)")
  case (Pair cs b)
  then have cs: "cs = fst (flat_insert c (m_chans s u))" "b = snd (flat_insert c (m_chans s u))" by simp_all
  note U = user_okI [OF ok, of u, unfolded p]
  have "b" using U by (simp add: cs user_ok_def member_ok_def pc_defs flat_set_simps)
  moreover have "user_ok u Idle (s\<lparr>m_chans := (m_chans s)(u := cs)\<rparr>)"
    using U by (auto simp: cs user_ok_def alive_ok_def member_ok_def pc_defs flat_set_simps)
  moreover have "flat_set cs" using threads_okD(9) [OF ok, of u] by (simp add: cs flat_set_simps)
  ultimately show ?thesis using u_section_ok [OF ok p] by (simp add: on_insert_section_def Pair)
qed

lemma on_erase_section_ok:
  assumes ok: "threads_ok s" and p: "m_pc s (User u) = In_u t c" and t: "t \<noteq> Insert"
  shows "\<exists>s'. on_erase_section t u c s = Inr s' \<and> threads_ok s'"
proof (cases "flat_erase c (m_chans s u)")
  case (Pair cs n)
  then have cs: "cs = fst (flat_erase c (m_chans s u))" "n = snd (flat_erase c (m_chans s u))" by simp_all
  note U = user_okI [OF ok, of u, unfolded p]
  have "t \<noteq> Say" using threads_okD(5) [OF ok, of "User u"] p by (auto simp: sending_pc_def)
  with t have t': "t = Erase \<or> t = Destroy" by (cases t) simp_all
  have "n = 1" using U t' by (auto simp: cs user_ok_def member_ok_def pc_defs flat_set_simps)
  moreover have "user_ok u (if t = Destroy then Unwind else Idle) (s\<lparr>m_chans := (m_chans s)(u := cs)\<rparr>)"
    using U t' threads_okD(9) [OF ok, of u]
    by (auto simp: cs user_ok_def alive_ok_def member_ok_def pc_defs flat_set_simps)
  moreover have "flat_set cs" using threads_okD(9) [OF ok, of u] by (simp add: cs flat_set_simps)
  ultimately show ?thesis using u_section_ok [OF ok p] by (simp add: on_erase_section_def Pair)
qed

lemma unwind_step_ok:
  assumes ok: "threads_ok s" and p: "m_pc s (User u) = Unwind"
  shows "threads_ok (unwind_step u s)"
proof (cases "m_chans s u = []")
  case True
  let ?s = "goto (User u) Gone (s\<lparr>m_obj := (m_obj s)(u := False)\<rparr>)"
  have "threads_ok ?s"
  proof (rule own_step_ok [OF ok])
    show "locks_ok ?s" by (rule locks_goto [OF ok, of Gone "User u"]) (simp_all add: p)
    show "user_ok v Gone ?s" if "User u = User v" for v
      using user_okI [OF ok, of u] p that True by (auto simp: user_ok_def alive_ok_def member_ok_def pc_defs)
    show "m_strong ?s v" if "pinned (((m_pc s)(User u := Gone)) b) = Some v" for b v
      using pins_goto [OF ok _ that] by simp
  qed (use threads_okD [OF ok] in \<open>auto simp: sending_pc_def\<close>)
  with True show ?thesis by (simp add: unwind_step_def)
next
  case False
  then have "threads_ok (goto (User u) (Want_x Destroy (last (m_chans s u))) s)"
    using user_okI [OF ok, of u] p
    by (intro goto_ok [OF ok]) (auto simp: user_ok_def alive_ok_def member_ok_def pc_defs)
  with False show ?thesis by (simp add: unwind_step_def)
qed

lemma tell_ok:
  assumes ok: "threads_ok s" and p: "m_pc s (User u) = Tell t c"
  shows "m_obj s u" "threads_ok (goto (User u) (Want_u t c) s)"
proof -
  show "m_obj s u" using threads_okD(6) [OF ok, of u] p by (simp add: alive_ok_def)
  show "threads_ok (goto (User u) (Want_u t c) s)"
    using user_okI [OF ok, of u] threads_okD(5) [OF ok, of "User u"] p
    by (intro goto_ok [OF ok]) (auto simp: user_ok_def alive_ok_def member_ok_def pc_defs)
qed

lemma user_step_ok:
  assumes "threads_ok s" and "user_step L u s = Some r"
  shows "\<exists>s'. r = Inr s' \<and> threads_ok s'"
  using assms(2) lock_x_ok [OF assms(1), of u] insert_section_ok [OF assms(1), of u] erase_section_ok [OF assms(1), of u]
    tell_ok [OF assms(1), of u] want_u_ok [OF assms(1), of u] on_insert_section_ok [OF assms(1), of u]
    on_erase_section_ok [OF assms(1), of u] unwind_step_ok [OF assms(1), of u]
  by (auto simp: user_step_def split: pc.splits if_splits)

lemma actor_step_ok:
  assumes "threads_ok s" and "actor_step L a s = Some r"
  shows "\<exists>s'. r = Inr s' \<and> threads_ok s'"
  using assms send_step_ok user_step_ok by (auto simp: actor_step_def split: if_splits actor.splits)

lemma user_born_ok:
  assumes ok: "threads_ok s" and p: "m_pc s (User u) = Unborn"
  shows "threads_ok (user_born u s)"
proof (rule own_step_ok [OF ok])
  show "locks_ok (user_born u s)"
    by (rule locks_goto [OF ok, of Idle "User u"]) (simp_all add: p user_born_def)
  show "user_ok v Idle (user_born u s)" if "User u = User v" for v
    using user_okI [OF ok, of u] p that by (auto simp: user_born_def user_ok_def alive_ok_def member_ok_def pc_defs)
  show "m_strong (user_born u s) v" if "pinned (((m_pc s)(User u := Idle)) b) = Some v" for b v
    using pins_goto [OF ok _ that] by (simp add: user_born_def)
qed (use threads_okD [OF ok] in \<open>auto simp: user_born_def\<close>)

lemma user_dropped_ok:
  assumes ok: "threads_ok s" and p: "m_pc s (User u) = Idle" and free: "\<And>a. pinned (m_pc s a) \<noteq> Some u"
  shows "threads_ok (user_dropped u s)"
proof (rule own_step_ok [OF ok])
  show "locks_ok (user_dropped u s)"
    by (rule locks_goto [OF ok, of Unwind "User u"]) (simp_all add: p user_dropped_def)
  show "user_ok v Unwind (user_dropped u s)" if "User u = User v" for v
    using user_okI [OF ok, of u] p that by (auto simp: user_dropped_def user_ok_def alive_ok_def member_ok_def pc_defs)
  show "m_strong (user_dropped u s) v" if "pinned (((m_pc s)(User u := Unwind)) b) = Some v" for b v
    using pins_goto [OF ok _ that] that free by (auto simp: user_dropped_def split: if_splits)
qed (use threads_okD [OF ok] in \<open>auto simp: user_dropped_def\<close>)

lemma request_ok:
  assumes ok: "threads_ok s" and p: "m_pc s a = Idle" and t: "t \<noteq> Destroy" "\<And>n. a = Strand n \<Longrightarrow> t = Say"
  shows "threads_ok (goto a (first_pc t c) s)"
  using user_okI [OF ok] t p
  by (intro goto_ok [OF ok]; cases a; cases t)
    (auto simp: first_pc_def user_ok_def alive_ok_def member_ok_def pc_defs)

lemma threads_reach_ok: "threads_reach L s \<Longrightarrow> threads_ok s"
proof (induction rule: threads_reach.induct)
  case (t_dropped s u)
  have "pinned (m_pc s a) \<noteq> Some u" for a using t_dropped.hyps(3) by (cases "m_pc s a") auto
  with t_dropped show ?case by (simp add: user_dropped_ok)
next
  case (t_request s u t c)
  then show ?case by (intro request_ok) simp_all
next
  case (t_step s a s')
  then show ?case using actor_step_ok by blast
qed (simp_all add: no_threads_ok user_born_ok request_ok)

text \<open>Who has a lock of a channel goes on without waiting.\<close>

lemma holder_steps:
  assumes ok: "threads_ok s" and "writer (m_lock s c) = Some b \<or> b \<in> readers (m_lock s c)"
  shows "actor_step L b s \<noteq> None"
proof -
  have "holds_x (m_pc s b) = Some c \<or> holds_s (m_pc s b) = Some c" using assms(2) threads_okD(2,3) [OF ok] by blast
  then consider t where "m_pc s b = In_x t c" | t where "m_pc s b = In_s t c" by (cases "m_pc s b") auto
  then show ?thesis
  proof cases
    case 1
    with threads_okD(5) [OF ok, of b] obtain u where "b = User u" by (cases b) (auto simp: sending_pc_def)
    with 1 show ?thesis by (simp add: actor_step_def user_step_def sending_pc_def)
  next
    case 2
    then show ?thesis by (simp add: actor_step_def send_step_def sending_pc_def)
  qed
qed

lemma busy_steps:
  assumes ok: "threads_ok s" and a: "busy (m_pc s a)"
  shows "\<exists>b. actor_step L b s \<noteq> None"
proof (rule ccontr)
  assume stuck: "\<nexists>b. actor_step L b s \<noteq> None"
  have no: "lk_x L a (m_lock s c) \<noteq> None" "lk_s L a (m_lock s c) \<noteq> None" for c
    using waiter_waits_for [OF threads_okD(1) [OF ok]] holder_steps [OF ok] stuck by metis+
  have "actor_step L a s = None" using stuck by blast
  then show False using a no threads_okD(5) [OF ok, of a] want_u_ok [OF ok]
    by (cases a; auto simp: busy_def actor_step_def user_step_def send_step_def sending_pc_def split: pc.splits;
      metis option.distinct(1))
qed

lemma wf_nearer: "wf nearer" "trans nearer"
  by (auto simp: nearer_def intro: trans_lex_prod)

lemma dying_simps:
  "dying p \<longleftrightarrow> p = Unwind \<or> map_option fst (doing p) = Some Destroy"
  by (cases p) (auto simp: dying_def)

lemma after_send_dies: "stage (after_send t c) < 5" "dying (after_send t c) \<longleftrightarrow> t = Destroy"
  by (cases t; simp add: dying_def)+

lemma send_step_rank:
  assumes "send_step L a s = Some (Inr s')"
  shows "(rank s' a, rank s a) \<in> nearer \<and> (\<forall>b. b \<noteq> a \<longrightarrow> m_pc s' b = m_pc s b) \<and> m_chans s' = m_chans s \<and> m_users s' = m_users s"
  using assms
  by (cases "m_pc s a"; cases a)
    (auto simp: send_step_def snapshot_section_def rank_def nearer_def after_send_dies
      dying_simps [of "Want_s _ _"] dying_simps [of "In_s _ _"] dying_simps [of "Sending _ _ _"] dying_simps [of "Holding _ _ _ _"]
        split: list.splits if_splits)

text \<open>The loop of the destructor never meets a channel that the user has left already, so it gets shorter.\<close>

lemma destroy_is_member:
  assumes "threads_ok s" and "m_pc s (User u) = In_x Destroy c"
  shows "u \<in> set (m_users s c)"
  using threads_okD(10) [OF assms(1), of u] assms(2) by (simp add: member_ok_def mid_def)

lemma section_rank:
  assumes ok: "threads_ok s" and p: "m_pc s (User u) = In_x t c"
  shows "(rank (insert_section L u c s) (User u), rank s (User u)) \<in> nearer \<or> t \<noteq> Insert"
    "(rank (erase_section L t u c s) (User u), rank s (User u)) \<in> nearer"
  using destroy_is_member [OF ok] p
  by (cases t; auto simp: insert_section_def erase_section_def flat_insert_def flat_erase_def rank_def nearer_def
      dying_simps [of "Want_s _ _"] dying_simps [of "In_x _ _"] dying_simps [of Idle])+

lemma length_remove1_less: "x \<in> set xs \<Longrightarrow> length (remove1 x xs) < length xs"
  by (induction xs) auto

lemma told_rank:
  assumes ok: "threads_ok s" and p: "m_pc s (User u) = In_u t c"
  shows "on_insert_section u c s = Inr s' \<Longrightarrow> (rank s' (User u), rank s (User u)) \<in> nearer"
    "on_erase_section t u c s = Inr s' \<Longrightarrow> (rank s' (User u), rank s (User u)) \<in> nearer"
  using p by (auto simp: on_insert_section_def on_erase_section_def flat_insert_def flat_erase_def length_remove1_less
      rank_def nearer_def dying_simps [of Unwind] dying_simps [of "In_u _ _"] dying_simps [of Idle]
      split: if_splits)

lemma user_step_frame:
  assumes "user_step L u s = Some (Inr s')"
  shows "(\<forall>b. b \<noteq> User u \<longrightarrow> m_pc s' b = m_pc s b) \<and> (\<forall>v. v \<noteq> u \<longrightarrow> m_chans s' v = m_chans s v)"
  using assms
  by (cases "m_pc s (User u)")
    (auto simp: user_step_def insert_section_def erase_section_def on_insert_section_def on_erase_section_def unwind_step_def
      flat_insert_def flat_erase_def split: if_splits)

lemma user_step_rank:
  assumes ok: "threads_ok s" and st: "user_step L u s = Some (Inr s')"
  shows "(rank s' (User u), rank s (User u)) \<in> nearer"
proof (cases "m_pc s (User u)")
  case (In_x t c)
  then show ?thesis using st section_rank [OF ok In_x] by (auto simp: user_step_def split: if_splits)
next
  case (In_u t c)
  then show ?thesis using st told_rank [OF ok In_u] by (auto simp: user_step_def split: if_splits)
qed (use st in \<open>auto simp: user_step_def unwind_step_def rank_def nearer_def dying_simps [of "Want_x _ _"] dying_simps [of "In_x _ _"]
  dying_simps [of "Tell _ _"] dying_simps [of "Want_u _ _"] dying_simps [of "In_u _ _"] dying_simps [of Gone] dying_simps [of Unwind]
  split: if_splits\<close>)

lemma actor_step_rank:
  assumes ok: "threads_ok s" and st: "actor_step L a s = Some (Inr s')"
  shows "(rank s' a, rank s a) \<in> nearer" "b \<noteq> a \<Longrightarrow> rank s' b = rank s b \<and> m_pc s' b = m_pc s b"
proof -
  have "(rank s' a, rank s a) \<in> nearer \<and> (\<forall>b. b \<noteq> a \<longrightarrow> m_pc s' b = m_pc s b) \<and> (\<forall>v. a \<noteq> User v \<longrightarrow> m_chans s' v = m_chans s v)"
  proof (cases "sending_pc (m_pc s a)")
    case True
    with st send_step_rank show ?thesis by (auto simp: actor_step_def)
  next
    case False
    with st obtain u where a: "a = User u" "user_step L u s = Some (Inr s')" by (auto simp: actor_step_def split: actor.splits)
    with user_step_rank [OF ok a(2)] user_step_frame [OF a(2)] show ?thesis by auto
  qed
  then show "(rank s' a, rank s a) \<in> nearer" "b \<noteq> a \<Longrightarrow> rank s' b = rank s b \<and> m_pc s' b = m_pc s b"
    by (blast, cases b) (auto simp: rank_def)
qed

text \<open>
  The actors that are busy are finitely many, a piece of one leaves the others where they are, and so
  the pieces of all run out: what was begun ends, in whatever order the threads are scheduled.
\<close>

lemma idle_stays: "\<not> busy (m_pc s a) \<Longrightarrow> actor_step L a s = None"
  by (auto simp: busy_def actor_step_def sending_pc_def user_step_def split: actor.splits)

lemma busy_finite: "threads_reach L s \<Longrightarrow> finite {a. busy (m_pc s a)}"
proof (induction rule: threads_reach.induct)
  case t_start
  have "{a. busy (m_pc (no_threads L) a)} = {}" by (auto simp: no_threads_def busy_def split: actor.splits)
  then show ?case by simp
next
  case (t_step s a s')
  have "m_pc s' b = m_pc s b" if "b \<noteq> a" for b
    using actor_step_rank(2) [OF threads_reach_ok [OF t_step.hyps(1)] t_step.hyps(2) that] by simp
  then have "{b. busy (m_pc s' b)} \<subseteq> insert a {b. busy (m_pc s b)}" by auto
  then show ?case using t_step.IH by (meson finite.insertI finite_subset)
qed (auto simp: user_born_def user_dropped_def elim!: finite_subset [rotated, OF finite.insertI])

lemma step_lowers_ranks:
  assumes "threads_ok s" and "actor_step L a s = Some (Inr s')" and A: "finite A" "a \<in> A"
  shows "(ranks A s', ranks A s) \<in> mult nearer"
proof -
  have split: "ranks A z = image_mset (rank z) (mset_set (A - {a})) + {#rank z a#}" for z
    using A by (simp add: ranks_def mset_set.remove)
  have "image_mset (rank s') (mset_set (A - {a})) = image_mset (rank s) (mset_set (A - {a}))"
    using A actor_step_rank(2) [OF assms(1,2)] by (intro image_mset_cong) auto
  moreover have "(image_mset (rank s) (mset_set (A - {a})) + {#rank s' a#}, image_mset (rank s) (mset_set (A - {a})) + {#rank s a#}) \<in> mult nearer"
    by (rule one_step_implies_mult) (simp_all add: actor_step_rank(1) [OF assms(1,2)])
  ultimately show ?thesis by (simp add: split)
qed

lemma no_endless_run:
  assumes s: "threads_reach L s" and f: "f 0 = s" "\<And>i. \<exists>a. actor_step L a (f i) = Some (Inr (f (Suc i)))"
  shows False
proof -
  let ?A = "{a. busy (m_pc s a)}"
  have inv: "threads_reach L (f i) \<and> {a. busy (m_pc (f i) a)} \<subseteq> ?A" for i
  proof (induction i)
    case (Suc i)
    then obtain a where a: "actor_step L a (f i) = Some (Inr (f (Suc i)))" using f(2) by blast
    then have "a \<in> ?A" using idle_stays [of "f i" a] Suc by auto
    moreover have "m_pc (f (Suc i)) b = m_pc (f i) b" if "b \<noteq> a" for b
      using actor_step_rank(2) [OF threads_reach_ok a that] Suc by simp
    ultimately have "busy (m_pc (f (Suc i)) b) \<Longrightarrow> b \<in> ?A" for b using Suc by (cases "b = a") auto
    with Suc a show ?case using t_step by blast
  qed (simp add: s f)
  have "(ranks ?A (f (Suc i)), ranks ?A (f i)) \<in> mult nearer" for i
  proof -
    obtain a where a: "actor_step L a (f i) = Some (Inr (f (Suc i)))" using f(2) by blast
    with idle_stays [of "f i" a] inv [of i] have "a \<in> ?A" by auto
    with step_lowers_ranks [OF threads_reach_ok a busy_finite [OF s]] inv [of i] show ?thesis by simp
  qed
  then have "\<exists>g. \<forall>i. (g (Suc i), g i) \<in> mult nearer" by (intro exI [of _ "\<lambda>i. ranks ?A (f i)"]) simp
  then show False using wf_mult [OF wf_nearer(1)] unfolding wf_iff_no_infinite_down_chain by blast
qed

lemma section_joined:
  assumes ok: "threads_ok s"
  shows "joined (insert_section L u c s) = insert (u, c) (joined s)" "joined (erase_section L t u c s) = joined s - {(u, c)}"
  using set_flat_erase [OF threads_okD(8) [OF ok, of c], of u]
  by (auto simp: joined_def insert_section_def erase_section_def Let_def case_prod_beta set_flat_insert split: if_splits)

lemma user_step_joined:
  assumes ok: "threads_ok s" and st: "user_step L u s = Some (Inr s')"
  shows "joined s' = fst (request_effect (User u) (m_pc s (User u)) (joined s))"
proof (cases "m_pc s (User u)")
  case (In_x t c)
  with st section_joined [OF ok] show ?thesis by (cases t) (auto simp: user_step_def)
qed (use st in \<open>auto simp: user_step_def joined_def unwind_step_def on_insert_section_def on_erase_section_def
  flat_insert_def flat_erase_def split: if_splits\<close>)

lemma step_joined:
  assumes ok: "threads_ok s" and st: "actor_step L a s = Some (Inr s')"
  shows "joined s' = fst (request_effect a (m_pc s a) (joined s))"
proof (cases "sending_pc (m_pc s a)")
  case True
  then have "request_effect a (m_pc s a) (joined s) = (joined s, False)"
    by (cases a) (auto simp: sending_pc_def split: pc.splits)
  with True st send_step_rank show ?thesis by (auto simp: actor_step_def joined_def)
next
  case False
  with st user_step_joined [OF ok] show ?thesis by (auto simp: actor_step_def split: actor.splits)
qed

lemma section_answers:
  assumes "m_pc s (User u) = In_x t c" and "actor_step L (User u) s = Some (Inr s')"
  shows "busy (m_pc s' (User u)) \<longleftrightarrow> t = Destroy \<or> snd (request_effect (User u) (m_pc s (User u)) (joined s))"
  using assms
  by (cases t; cases "u \<in> set (m_users s c)")
    (auto simp: actor_step_def sending_pc_def user_step_def insert_section_def erase_section_def flat_insert_def
      flat_erase_def busy_def joined_def)

lemma reach_safe:
  assumes "threads_reach L s"
  shows "actor_step L a s \<noteq> Some (Inl e)
    \<and> (holds_x (m_pc s a) = Some c \<longrightarrow> holds_x (m_pc s b) = Some c \<or> holds_s (m_pc s b) = Some c \<longrightarrow> b = a)
    \<and> (u \<in> set (m_users s c) \<longrightarrow> m_obj s u)
    \<and> (\<not> busy (m_pc s (User u)) \<longrightarrow> (u \<in> set (m_users s c) \<longleftrightarrow> c \<in> set (m_chans s u)))"
proof -
  note ok = threads_reach_ok [OF assms]
  have "actor_step L a s \<noteq> Some (Inl e)" using actor_step_ok [OF ok] by fastforce
  moreover have "holds_x (m_pc s a) = Some c \<longrightarrow> holds_x (m_pc s b) = Some c \<or> holds_s (m_pc s b) = Some c \<longrightarrow> b = a"
    using writer_alone [OF threads_okD(1) [OF ok]] threads_okD(2,3) [OF ok] by blast
  moreover have "\<not> busy (m_pc s (User u)) \<longrightarrow> (u \<in> set (m_users s c) \<longleftrightarrow> c \<in> set (m_chans s u))"
    using threads_okD(10) [OF ok, of u] by (auto simp: busy_def member_ok_def mid_def)
  ultimately show ?thesis using member_exists [OF ok] by blast
qed

lemma reach_progress:
  assumes "threads_reach L s" and "busy (m_pc s a)"
  shows "\<exists>b s'. actor_step L b s = Some (Inr s')"
  using busy_steps [OF threads_reach_ok [OF assms(1)] assms(2)] actor_step_ok [OF threads_reach_ok [OF assms(1)]] by blast

end

section \<open>Runs\<close>

text \<open>A lock with the promised behaviour: the promises can be kept.\<close>

record rw_lock =
  x_owner :: "actor option"
  s_owners :: "actor set"

definition lock_x :: "actor \<Rightarrow> rw_lock \<Rightarrow> rw_lock option" where
  "lock_x a l = (if x_owner l = None \<and> s_owners l = {} then Some (l\<lparr>x_owner := Some a\<rparr>) else None)"

definition lock_s :: "actor \<Rightarrow> rw_lock \<Rightarrow> rw_lock option" where
  "lock_s a l = (if x_owner l = None then Some (l\<lparr>s_owners := insert a (s_owners l)\<rparr>) else None)"

definition rw_ops :: "rw_lock lock_ops" where
  "rw_ops = \<lparr>lk_free = \<lparr>x_owner = None, s_owners = {}\<rparr>, lk_x = lock_x, lk_drop_x = (\<lambda>l. l\<lparr>x_owner := None\<rparr>),
     lk_s = lock_s, lk_drop_s = (\<lambda>a l. l\<lparr>s_owners := s_owners l - {a}\<rparr>)\<rparr>"

definition rw_ok :: "rw_lock \<Rightarrow> bool" where
  "rw_ok l \<longleftrightarrow> x_owner l = None \<or> s_owners l = {}"

interpretation rw: shared_lock rw_ops rw_ok x_owner s_owners
  by unfold_locales (auto simp: rw_ok_def rw_ops_def lock_x_def lock_s_def split: if_splits)

text \<open>Pieces of the actors in a given order, for the runs that show the statements at work.\<close>

fun run_pieces :: "'l lock_ops \<Rightarrow> actor list \<Rightarrow> 'l mstate \<Rightarrow> 'l mstate option" where
  "run_pieces L [] s = Some s"
| "run_pieces L (a # as) s = (case actor_step L a s of Some (Inr s') \<Rightarrow> run_pieces L as s' | _ \<Rightarrow> None)"

lemma run_pieces_reach: "run_pieces L as s = Some s' \<Longrightarrow> threads_reach L s \<Longrightarrow> threads_reach L s'"
  by (induction L as s rule: run_pieces.induct) (auto split: option.splits sum.splits intro: t_step)

text \<open>Two users ask to join the same channel.\<close>

definition two_joins :: "'l lock_ops \<Rightarrow> 'l mstate" where
  "two_joins L = goto (User 2) (first_pc Insert 5) (goto (User 1) (first_pc Insert 5) (user_born 2 (user_born 1 (no_threads L))))"

lemma two_joins_reach: "threads_reach L (two_joins L)"
  unfolding two_joins_def
  by (intro t_request t_born t_start) (simp_all add: user_born_def no_threads_def)

lemmas pieces_simps = two_joins_def first_pc_def actor_step_def sending_pc_def user_step_def send_step_def user_born_def
  no_threads_def rw_ops_def lock_x_def lock_s_def insert_section_def snapshot_section_def
  on_insert_section_def flat_insert_def

section \<open>What holds of every interleaving\<close>

text \<open>
  C5: with mutexes that keep their promises, however the threads interleave, no piece uses a user that
  was freed and no assertion of the user's sets fails; while one is in the critical section of a change,
  nobody else reads or changes the users of that channel; the users in a channel exist; and a user that
  is not in the middle of a request, or is gone, is in the channels it knows of and in no other.
\<close>

theorem threads_safe:
  assumes "shared_lock L ok writer readers" and "threads_reach L s"
  shows "actor_step L a s \<noteq> Some (Inl e)
    \<and> (holds_x (m_pc s a) = Some c \<longrightarrow> holds_x (m_pc s b) = Some c \<or> holds_s (m_pc s b) = Some c \<longrightarrow> b = a)
    \<and> (u \<in> set (m_users s c) \<longrightarrow> m_obj s u)
    \<and> (\<not> busy (m_pc s (User u)) \<longrightarrow> (u \<in> set (m_users s c) \<longleftrightarrow> c \<in> set (m_chans s u)))"
  by (rule shared_lock.reach_safe [OF assms])

theorem threads_safe_witness:
  "\<exists>s. run_pieces rw_ops [User 1] (two_joins rw_ops) = Some s \<and> holds_x (m_pc s (User 1)) = Some 5 \<and> actor_step rw_ops (User 2) s = None
    \<and> actor_step rw_ops (User 1) s \<noteq> Some (Inl Undefined) \<and> holds_s (m_pc s (User 2)) \<noteq> Some 5"
proof -
  obtain s where s: "run_pieces rw_ops [User 1] (two_joins rw_ops) = Some s" by (simp add: pieces_simps)
  then have "holds_x (m_pc s (User 1)) = Some 5 \<and> actor_step rw_ops (User 2) s = None" by (auto simp: pieces_simps)
  with s threads_safe [OF rw.shared_lock_axioms run_pieces_reach [OF s two_joins_reach], of "User 1" Undefined 5 "User 2"] show ?thesis by auto
qed

text \<open>
  C6: nothing waits for ever: whenever an actor is in the middle of something, some actor can go on,
  so no two threads wait for each other's locks; and there is no endless run without new requests, so
  every request, every send and every destructor of a user comes to its end in every order of
  scheduling.
\<close>

theorem threads_finish:
  assumes "shared_lock L ok writer readers" and "threads_reach L s"
  shows "(busy (m_pc s a) \<longrightarrow> (\<exists>b s'. actor_step L b s = Some (Inr s')))
    \<and> \<not> (\<exists>f. f 0 = s \<and> (\<forall>i. \<exists>b. actor_step L b (f i) = Some (Inr (f (Suc i)))))"
  using shared_lock.reach_progress [OF assms] shared_lock.no_endless_run [OF assms] by blast

theorem threads_finish_witness:
  "busy (m_pc (two_joins rw_ops) (User 2)) \<and> (\<exists>b s'. actor_step rw_ops b (two_joins rw_ops) = Some (Inr s'))
    \<and> \<not> (\<exists>f. f 0 = (two_joins rw_ops) \<and> (\<forall>i. \<exists>b. actor_step rw_ops b (f i) = Some (Inr (f (Suc i)))))"
proof -
  have "busy (m_pc (two_joins rw_ops) (User 2))" by (simp add: pieces_simps busy_def)
  with threads_finish [OF rw.shared_lock_axioms two_joins_reach, of "User 2"] show ?thesis by blast
qed

text \<open>
  C7: the threads together implement atomic joins and leaves: every piece leaves the set of
  memberships as it is, but for the critical section of a request, which adds or removes this one
  membership, and there a join is found to fail exactly when the user is in the channel already, and a
  leave exactly when it is not in it.
\<close>

theorem threads_refine_requests:
  assumes "shared_lock L ok writer readers" and "threads_reach L s" and "actor_step L a s = Some (Inr s')"
  shows "joined s' = fst (request_effect a (m_pc s a) (joined s))
    \<and> (\<forall>u t c. a = User u \<and> m_pc s a = In_x t c \<and> t \<noteq> Destroy \<longrightarrow>
         (busy (m_pc s' a) \<longleftrightarrow> snd (request_effect a (m_pc s a) (joined s))))"
  using shared_lock.step_joined [OF assms(1) shared_lock.threads_reach_ok [OF assms(1,2)] assms(3)]
    shared_lock.section_answers [OF assms(1)] assms(3) by blast

theorem threads_refine_requests_witness:
  "\<exists>s s'. run_pieces rw_ops [User 1] (two_joins rw_ops) = Some s \<and> actor_step rw_ops (User 1) s = Some (Inr s')
    \<and> joined s = {} \<and> joined s' = {(1, 5)} \<and> busy (m_pc s' (User 1))"
proof -
  obtain s where s: "run_pieces rw_ops [User 1] (two_joins rw_ops) = Some s" by (simp add: pieces_simps)
  then have p: "m_pc s (User 1) = In_x Insert 5" "joined s = {}" by (auto simp: pieces_simps joined_def)
  then obtain s' where s': "actor_step rw_ops (User 1) s = Some (Inr s')"
    by (auto simp: actor_step_def sending_pc_def user_step_def)
  from threads_refine_requests [OF rw.shared_lock_axioms run_pieces_reach [OF s two_joins_reach] s'] p s s' show ?thesis by auto
qed

end
