(* ===== verification/Run_Wait.thy ===== *)
theory Run_Wait
  imports Lounge_Prelude
begin

text \<open>
  How \<^verbatim>\<open>server_impl::run\<close> waits for \<^verbatim>\<open>server_impl::stop\<close> (\<^verbatim>\<open>server.cpp\<close>). The main thread blocks on a condition
  variable until the stop flag is set, and \<^verbatim>\<open>stop\<close> sets it on the strand of the timer, which runs on one of the
  worker threads. Both are cut at the operations on the mutex, the flag and the condition variable; it
  is shown that no order of these pieces loses the notification.
\<close>

section \<open>The pieces\<close>

datatype main_pc = M_lock | M_test | M_blocked | M_leave | M_past

datatype stop_pc = S_idle | S_test | S_lock | S_set | S_notify | S_unlock

datatype mutex_owner = Main_thread | Timer_strand

record wait_state =
  w_flag :: bool
  w_mutex :: "mutex_owner option"
  w_main :: main_pc
  w_stop :: stop_pc

text \<open>
  The main thread takes the mutex and tests the flag; \<^verbatim>\<open>wait\<close> releases the mutex and blocks in one step, and takes
  the mutex and tests again when it is woken.
\<close>

definition main_step :: "wait_state \<Rightarrow> wait_state option" where
  "main_step s =
     (case w_main s of
        M_lock \<Rightarrow> if w_mutex s = None then Some (s\<lparr>w_mutex := Some Main_thread, w_main := M_test\<rparr>) else None
      | M_test \<Rightarrow> Some (if w_flag s then s\<lparr>w_main := M_leave\<rparr> else s\<lparr>w_mutex := None, w_main := M_blocked\<rparr>)
      | M_blocked \<Rightarrow> None
      | M_leave \<Rightarrow> Some (s\<lparr>w_mutex := None, w_main := M_past\<rparr>)
      | M_past \<Rightarrow> None)"

text \<open>A call of \<^verbatim>\<open>stop\<close> on the strand, which runs one at a time.\<close>

definition stop_step :: "wait_state \<Rightarrow> wait_state option" where
  "stop_step s =
     (case w_stop s of
        S_idle \<Rightarrow> None
      | S_test \<Rightarrow> Some (s\<lparr>w_stop := if w_flag s then S_idle else S_lock\<rparr>)
      | S_lock \<Rightarrow> if w_mutex s = None then Some (s\<lparr>w_mutex := Some Timer_strand, w_stop := S_set\<rparr>) else None
      | S_set \<Rightarrow> Some (s\<lparr>w_flag := True, w_stop := S_notify\<rparr>)
      | S_notify \<Rightarrow> Some (s\<lparr>w_main := if w_main s = M_blocked then M_lock else w_main s, w_stop := S_unlock\<rparr>)
      | S_unlock \<Rightarrow> Some (s\<lparr>w_mutex := None, w_stop := S_idle\<rparr>))"

definition wait_step :: "mutex_owner \<Rightarrow> wait_state \<Rightarrow> wait_state option" where
  "wait_step a s = (case a of Main_thread \<Rightarrow> main_step s | Timer_strand \<Rightarrow> stop_step s)"

fun wait_run :: "mutex_owner list \<Rightarrow> wait_state \<Rightarrow> wait_state option" where
  "wait_run [] s = Some s"
| "wait_run (a # as) s = (case wait_step a s of None \<Rightarrow> None | Some s' \<Rightarrow> wait_run as s')"

definition wait_start :: wait_state where
  "wait_start = \<lparr>w_flag = False, w_mutex = None, w_main = M_lock, w_stop = S_idle\<rparr>"

text \<open>\<^verbatim>\<open>stop\<close> may be called at any time and any number of times, and the main thread may wake for no reason.\<close>

inductive wait_reach :: "wait_state \<Rightarrow> bool" where
  w_begin: "wait_reach wait_start"
| w_call: "wait_reach s \<Longrightarrow> w_stop s = S_idle \<Longrightarrow> wait_reach (s\<lparr>w_stop := S_test\<rparr>)"
| w_spurious: "wait_reach s \<Longrightarrow> w_main s = M_blocked \<Longrightarrow> wait_reach (s\<lparr>w_main := M_lock\<rparr>)"
| w_step: "wait_reach s \<Longrightarrow> wait_step a s = Some s' \<Longrightarrow> wait_reach s'"

section \<open>The invariant\<close>

text \<open>
  Who is inside has the mutex, the flag is what the place of \<^verbatim>\<open>stop\<close> says, and a main thread that blocks
  while the flag is set is about to be notified.
\<close>

fun main_inside :: "main_pc \<Rightarrow> bool" where
  "main_inside M_test = True" | "main_inside M_leave = True" | "main_inside _ = False"

fun stop_inside :: "stop_pc \<Rightarrow> bool" where
  "stop_inside S_set = True" | "stop_inside S_notify = True" | "stop_inside S_unlock = True" | "stop_inside _ = False"

definition flag_fits :: "bool \<Rightarrow> main_pc \<Rightarrow> stop_pc \<Rightarrow> bool" where
  "flag_fits b m p \<longleftrightarrow>
     (m \<in> {M_leave, M_past} \<longrightarrow> b) \<and> (p \<in> {S_lock, S_set} \<longrightarrow> \<not> b) \<and> (p \<in> {S_notify, S_unlock} \<longrightarrow> b) \<and>
     (b \<and> m = M_blocked \<longrightarrow> p = S_notify)"

definition wait_ok :: "wait_state \<Rightarrow> bool" where
  "wait_ok s \<longleftrightarrow>
     w_mutex s = (if main_inside (w_main s) then Some Main_thread else if stop_inside (w_stop s) then Some Timer_strand else None) \<and>
     \<not> (main_inside (w_main s) \<and> stop_inside (w_stop s)) \<and> flag_fits (w_flag s) (w_main s) (w_stop s)"

lemma main_step_ok: "wait_ok s \<Longrightarrow> main_step s = Some s' \<Longrightarrow> wait_ok s'"
  by (cases "w_main s"; cases "w_stop s") (auto simp: wait_ok_def flag_fits_def main_step_def split: if_splits)

lemma stop_step_ok: "wait_ok s \<Longrightarrow> stop_step s = Some s' \<Longrightarrow> wait_ok s'"
  by (cases "w_stop s"; cases "w_main s") (auto simp: wait_ok_def flag_fits_def stop_step_def split: if_splits)

lemma wait_step_ok: "wait_ok s \<Longrightarrow> wait_step a s = Some s' \<Longrightarrow> wait_ok s'"
  by (cases a) (auto simp: wait_step_def intro: main_step_ok stop_step_ok)

lemma wait_reach_ok: "wait_reach s \<Longrightarrow> wait_ok s"
proof (induction rule: wait_reach.induct)
  case (w_step s a s')
  then show ?case using wait_step_ok by blast
next
  case (w_call s)
  then show ?case by (cases "w_main s") (simp_all add: wait_ok_def flag_fits_def)
next
  case (w_spurious s)
  then show ?case by (cases "w_stop s") (simp_all add: wait_ok_def flag_fits_def)
qed (simp add: wait_ok_def flag_fits_def wait_start_def)

section \<open>Progress\<close>

fun main_rank :: "main_pc \<Rightarrow> nat" where
  "main_rank M_lock = 4" | "main_rank M_test = 3" | "main_rank M_leave = 2" | "main_rank _ = 0"

fun stop_rank :: "stop_pc \<Rightarrow> nat" where
  "stop_rank S_test = 5" | "stop_rank S_lock = 4" | "stop_rank S_set = 3" | "stop_rank S_notify = 2"
| "stop_rank S_unlock = 1" | "stop_rank S_idle = 0"

definition wait_rank :: "wait_state \<Rightarrow> nat" where
  "wait_rank s = main_rank (w_main s) + 5 * stop_rank (w_stop s)"

lemma wait_step_rank: "wait_step a s = Some s' \<Longrightarrow> wait_rank s' < wait_rank s"
  by (cases a; cases "w_main s"; cases "w_stop s")
    (auto simp: wait_step_def main_step_def stop_step_def wait_rank_def split: if_splits)

lemma wait_rank_le: "wait_rank s \<le> 29"
  by (cases "w_main s"; cases "w_stop s") (auto simp: wait_rank_def)

text \<open>A call of \<^verbatim>\<open>stop\<close> that has begun, or has been made, stays so.\<close>

definition stop_called :: "wait_state \<Rightarrow> bool" where
  "stop_called s \<longleftrightarrow> w_flag s \<or> w_stop s \<noteq> S_idle"

lemma stop_called_step: "wait_ok s \<Longrightarrow> wait_step a s = Some s' \<Longrightarrow> stop_called s' = stop_called s"
  by (cases a; cases "w_main s"; cases "w_stop s")
    (auto simp: wait_ok_def flag_fits_def wait_step_def main_step_def stop_step_def stop_called_def split: if_splits)

lemma wait_run_ok:
  "wait_run as s = Some s' \<Longrightarrow> wait_ok s \<Longrightarrow>
   wait_ok s' \<and> length as + wait_rank s' \<le> wait_rank s \<and> stop_called s' = stop_called s"
proof (induction as arbitrary: s)
  case (Cons a as)
  then obtain s1 where s1: "wait_step a s = Some s1" "wait_run as s1 = Some s'" by (auto split: option.splits)
  with Cons.IH [OF s1(2) wait_step_ok [OF Cons.prems(2) s1(1)]] wait_step_rank [OF s1(1)]
    stop_called_step [OF Cons.prems(2) s1(1)] show ?case by auto
qed simp

text \<open>Where neither can go on, the main thread has left, or it waits and \<^verbatim>\<open>stop\<close> was not called.\<close>

lemma at_rest:
  assumes "wait_ok s" and "main_step s = None" and "stop_step s = None"
  shows "if stop_called s then w_main s = M_past else w_main s = M_blocked"
  using assms by (cases "w_main s"; cases "w_stop s")
    (auto simp: wait_ok_def flag_fits_def main_step_def stop_step_def stop_called_def)

text \<open>
  C27: the main thread goes on exactly when it is told to. It leaves its wait only with the stop flag set; the pieces of
  the wait and of a call of \<^verbatim>\<open>stop\<close> run out after at most 29 steps in any order; and when none is left, the main
  thread has left its wait if \<^verbatim>\<open>stop\<close> was called, before the wait, during it or between its pieces, and
  still blocks otherwise. So no notification is lost.
\<close>

theorem stop_wakes_run:
  assumes "wait_reach s" and "wait_run as s = Some s'"
  shows "(w_main s' = M_past \<longrightarrow> w_flag s') \<and> length as \<le> 29
    \<and> (main_step s' = None \<and> stop_step s' = None \<longrightarrow>
         (if stop_called s then w_main s' = M_past else w_main s' = M_blocked))"
proof -
  note r = wait_run_ok [OF assms(2) wait_reach_ok [OF assms(1)]]
  then have "w_main s' = M_past \<longrightarrow> w_flag s'" by (simp add: wait_ok_def flag_fits_def)
  moreover have "length as \<le> 29" using r wait_rank_le [of s] by linarith
  ultimately show ?thesis using r at_rest [of s'] by (auto split: if_splits)
qed

text \<open>The strand stops the server after the main thread has found the flag clear and before it blocks.\<close>

definition late_stop :: "mutex_owner list" where
  "late_stop = [Main_thread, Timer_strand, Main_thread, Timer_strand, Timer_strand, Timer_strand, Timer_strand,
     Main_thread, Main_thread, Main_thread]"

lemmas wait_simps = wait_start_def wait_step_def main_step_def stop_step_def late_stop_def

theorem stop_wakes_run_witness:
  "\<exists>s'. wait_run late_stop (wait_start\<lparr>w_stop := S_test\<rparr>) = Some s' \<and> w_main s' = M_past \<and> w_flag s'"
proof -
  have c: "stop_called (wait_start\<lparr>w_stop := S_test\<rparr>)" by (simp add: stop_called_def)
  obtain s' where s': "wait_run late_stop (wait_start\<lparr>w_stop := S_test\<rparr>) = Some s'" by (simp add: wait_simps)
  then have rest: "main_step s' = None" "stop_step s' = None" by (auto simp: wait_simps)
  have "wait_reach (wait_start\<lparr>w_stop := S_test\<rparr>)" by (rule w_call [OF w_begin]) (simp add: wait_start_def)
  from stop_wakes_run [OF this s'] s' rest c show ?thesis by auto
qed

end
