(* ===== verification/Spec2Isabelle.thy ===== *)
theory Spec2Isabelle
  imports Blackjack_Lib Blackjack_Game Message Lounge Ws_Session Http_Session Listener Startup Web_Page Delivery Threads Run_Wait
begin

text \<open>
  \<^bold>\<open>BeastLounge.\<close> The program under \<^verbatim>\<open>src/\<close> is a chat server with a blackjack table. A browser gets a page
  over HTTP, opens a WebSocket, and talks JSON-RPC to channels: the system channel gives a user its
  name, the room \<^verbatim>\<open>General\<close> passes on what users say, the table runs the game. This development models the
  server, the library header and the unit tests that come with it and the page, and proves what makes
  them correct, or shows where they are not.

  \<^bold>\<open>The parts and how they interact.\<close> The listener accepts connections; a detector finds out whether a
  connection wants TLS and launches an HTTP session, which answers one request with a file or hands its
  stream to a WebSocket session. That session is at the same time a user: its read coroutine parses a
  message, extracts a request and hands it to the channel list, which dispatches it by channel id to a
  channel; channels send to their users, and each session queues what it is sent and writes it. The table
  posts its requests to a strand of its own; the server has a strand for the shutdown countdown and the
  signals. Stopping the listener stops every session it knows.

  \<^bold>\<open>Conventions.\<close> A C++ function that may throw or run into undefined behaviour returns an outcome, an
  exception or a value; \<open>Undefined\<close> marks undefined behaviour and \<open>Assert_failed\<close> a failed assertion, so that
  absence of both is part of what is proved. A function with effects is an action: it maps a state to an
  outcome and a state, so that what it did before it threw is visible. Objects live in maps from
  addresses; a pointer is an address. Counters and addresses that wrap are words of 64 bits; chips
  and wagers are integers in the range of 32 bits and time points in the range of 64 bits, where leaving the
  range is \<open>Undefined\<close>. Handlers
  run one at a time, in any order their strands allow, but in \<open>Threads\<close> and \<open>Run_Wait\<close>, where the operations
  that threads share are cut at their locks and interleave.

  \<^bold>\<open>The theories.\<close>
  \<^item> \<open>Lounge_Prelude\<close>: outcomes, signed division, bounded strings, sorted vectors as sets
    (\<^verbatim>\<open>flat_set\<close>), searching, swapping, decimal printing; the collection \<open>lounge_inv\<close> of invariants.
    \<open>Lounge_Json\<close>: JSON values and their members.
  \<^item> \<open>Shoe\<close>, \<open>Blackjack_Game\<close> (\<^verbatim>\<open>server/core/blackjack.cpp\<close>, classes \<^verbatim>\<open>shoe\<close>, \<^verbatim>\<open>hand\<close>, \<^verbatim>\<open>seat\<close>, \<^verbatim>\<open>game\<close>): the shuffle is
    a permutation for every \<^verbatim>\<open>rand\<close> and reaches every order, a full deck deals each card once; the game
    refines a seating plan (who sits where, and how), with its invariant, its errors and its callbacks
    on every branch, the full hand and the bet out of the range of an \<^verbatim>\<open>int\<close> included. \<open>Blackjack_Lib\<close> (\<^verbatim>\<open>server/blackjack/game.hpp\<close>): the flags of a hand are what the rules
    of the game say, and dealing ends.
  \<^item> \<open>Rpc\<close> (\<^verbatim>\<open>rpc.hpp\<close>, \<^verbatim>\<open>rpc.cpp\<close>): codes, errors, extraction of requests, completions and checked access;
    exactly the requests it accepts, and the id in every response. \<open>Message\<close> (\<^verbatim>\<open>message.hpp\<close>, \<^verbatim>\<open>message.cpp\<close>): the
    reference-counted buffer on a heap, refined to handles that are values.
  \<^item> \<open>Lounge_State\<close>, \<open>Channel\<close> (\<^verbatim>\<open>user.cpp\<close>, \<^verbatim>\<open>channel.cpp\<close>, \<^verbatim>\<open>channel_list.cpp\<close>): the shared state, membership
    and its refinement to a relation, the destructor of a user, the registry of channels.
    \<open>Room\<close> (\<^verbatim>\<open>room.cpp\<close>), \<open>System_Channel\<close> (\<^verbatim>\<open>system.cpp\<close>), \<open>Table\<close> (class \<^verbatim>\<open>table\<close> of \<^verbatim>\<open>blackjack.cpp\<close>): the
    three channels; each task of the table with its outcome and the response that its request gets.
    \<open>Server\<close> (\<^verbatim>\<open>server.cpp\<close>, \<^verbatim>\<open>utility.hpp\<close>): services, countdown, signals, stop; the timer fires only
    when it is armed, and each firing arms it again until the server has stopped.
  \<^item> \<open>Lounge\<close>: the virtual functions put together, the request handler of \<^verbatim>\<open>ws_user.cpp\<close>, the start, and the
    reachable states with their invariant; every request is answered, refusals included,
    or waits for the table, or one named exception escapes.
    \<open>Protocol\<close>: the shapes of all values the server sends.
  \<^item> \<open>Threads\<close> (\<^verbatim>\<open>channel.cpp\<close>, \<^verbatim>\<open>user.cpp\<close>): join, leave, send and the destructor of a user as the worker threads
    of \<^verbatim>\<open>server_impl::run\<close> execute them, in pieces between the taking and the release of the mutexes.
    In every interleaving no freed user is used and no assertion fails, both sides of a membership
    agree once a user is idle, each request takes effect at one point, and there is neither a deadlock nor an endless run.
    \<open>Run_Wait\<close> (\<^verbatim>\<open>server.cpp\<close>): the main thread that blocks in \<^verbatim>\<open>run\<close> and the call of \<^verbatim>\<open>stop\<close> that wakes it, with
    no order of their steps in which the notification is lost.
  \<^item> \<open>Ws_Queue\<close>, \<open>Ws_Session\<close> (\<^verbatim>\<open>ws_user.cpp\<close>): the write queue and the read coroutine, equivalent to handling
    the requests one after the other. \<open>Http_Request\<close>, \<open>Http_Session\<close> (\<^verbatim>\<open>http_session.cpp\<close>): the answer to a
    request, with no path outside the document root, and the life of a session. \<open>Listener\<close>
    (\<^verbatim>\<open>listener.cpp\<close>): accepting, the detector, the registry of the sessions, stopping, life times.
    \<open>Logger\<close> (\<^verbatim>\<open>logger.cpp\<close>). \<open>Startup\<close> (\<^verbatim>\<open>server.cpp\<close>, \<^verbatim>\<open>main.cpp\<close>): configuration and \<^verbatim>\<open>make_server\<close>.
  \<^item> \<open>Network\<close>: listener, sessions and lounge as one state with one step relation; each part only takes
    steps of its own, and the users are the WebSocket connections. \<open>Delivery\<close>: the same with the write
    queues; every message sent to a user is written once or still waits.
  \<^item> \<open>Client\<close>, \<open>Web_Page\<close> (\<^verbatim>\<open>static/wwwroot/lounge-chat.js\<close>, \<^verbatim>\<open>index.html\<close>): what the page sends and draws; it
    understands every message of the server, and every request it sends is answered under its number or
    handed to the table.
  \<^item> \<open>Expected\<close> (\<^verbatim>\<open>expected.hpp\<close>): the value-or-error type on a store of objects with life times, refined to a
    sum. \<open>Test_Suite\<close> (\<^verbatim>\<open>test/test_suite.hpp\<close>), \<open>Lounge_Tests\<close>: the harness and the three tests, computed.

  \<^bold>\<open>Interfaces.\<close> What one part promises another is a locale, and each is interpreted on the code's own
  definitions: \<open>card_source\<close> (a shoe deals valid cards; both shoes), \<open>seating_plan\<close> (the game),
  \<open>message_store\<close> (the counted heap), \<open>channel_hook\<close> (what a virtual function of a channel keeps; each
  channel's and the dispatching ones), \<open>channel_registry\<close> (the channel list), \<open>session_registry\<close> (the
  listener's set), \<open>shared_lock\<close> (one writer or many readers: the mutex of a channel), \<open>membership_frame\<close>, \<open>request_frame\<close> and \<open>table_frame\<close> (what no membership operation, request
  or task of the table touches; \<open>request_frame\<close> gives the first by \<^verbatim>\<open>sublocale\<close> for every hook). The frames
  are interpreted on the invariant of the lounge, on the set of users and on the messages already sent.

  \<^bold>\<open>Bounds and fuel.\<close> The loop of a user's destructor is a partial function that is proved to return for
  every user in a reachable state. \<open>deal_out\<close> has 23 rounds of fuel, proved enough since a hand of 22
  cards is always done. Hands hold 22 cards (\<^verbatim>\<open>static_string<22>\<close>), names 20 bytes, messages 16384
  bytes, requests 65536 bytes; reference counts are 64 bits wide and proved not to wrap, since every
  owner has an address of its own. All other loops are structural recursion or have a measure.

  \<^bold>\<open>Parameters.\<close> What is not in the repository is an argument: the JSON parser, serializer and
  \<^verbatim>\<open>number_cast\<close>, the HTTP parser, the file system, the transport and its errors, the clock, \<^verbatim>\<open>rand\<close>, the
  heap's allocator, the shared mutex of a channel, the contents of memory before construction, the text of a number in the page.
  Hypotheses on them (such as \<open>number_cast_ok\<close> and \<open>shared_lock\<close>) state what their documentation says.

  \<^bold>\<open>Not modelled.\<close> \<^verbatim>\<open>server_certificate.hpp\<close> is a constant for the TLS library. \<^verbatim>\<open>config.hpp\<close>, \<^verbatim>\<open>types.hpp\<close>,
  \<^verbatim>\<open>uid.hpp\<close>, \<^verbatim>\<open>session.hpp\<close>, \<^verbatim>\<open>service.hpp\<close> and \<^verbatim>\<open>server.hpp\<close> are aliases and abstract interfaces whose
  implementations are modelled. Of the threads only the membership operations and the wait of \<^verbatim>\<open>run\<close>
  interleave below the level of handlers; accesses that no mutex protects (a user's name) are taken as
  atomic. The layout of the page, the admin page, the debug stream of one compiler in the test harness and the build files are left out. What
  remains of the modelled files is declarations, constructors that store their arguments, accessors
  and comments.
\<close>

end
